(* ===== verification/SS_Prelude.thy ===== *)
theory SS_Prelude
  imports Main "HOL-Library.Word" "HOL-Library.Monad_Syntax"
begin

unbundle bit_operations_syntax

text \<open>
  The vocabulary every theory of the development shares.

  \<^bold>\<open>Undefined behaviour.\<close> The sources are C. An operation that may hit
  undefined behaviour (a NULL or dangling dereference, an index outside an array, a
  double free, the read of an indeterminate value, a lock taken twice by its owner)
  returns an \<open>option\<close>: \<open>None\<close> is the undefined execution, \<open>Some\<close> the
  value and the new state. It is never an error return: the module's own errors are
  negative \<open>long\<close> values, exactly as in the code. A theorem that an operation
  returns \<open>Some\<close> is therefore a memory-safety statement, and one that it returns
  \<open>None\<close> exhibits a defect.

  \<^bold>\<open>Integers.\<close> Addresses are \<open>64 word\<close>, ioctl commands \<open>32 word\<close>;
  status codes are \<open>int\<close>; loop counters and array indices that the code bounds by
  an array length are \<open>nat\<close>.
\<close>

type_synonym u64 = "64 word"
type_synonym u32 = "32 word"
type_synonym byte = "8 word"

text \<open>The status codes of the kernel, negated on return as in the source.\<close>

abbreviation ENOENT :: int where "ENOENT \<equiv> 2"
abbreviation ENOMEM :: int where "ENOMEM \<equiv> 12"
abbreviation EFAULT :: int where "EFAULT \<equiv> 14"
abbreviation EBUSY :: int where "EBUSY \<equiv> 16"
abbreviation EINVAL :: int where "EINVAL \<equiv> 22"
abbreviation ENOTTY :: int where "ENOTTY \<equiv> 25"

named_theorems ub_simps \<open>unfolding of the undefined-behaviour guards\<close>
named_theorems frame_simps \<open>state components an operation leaves alone\<close>

text \<open>\<open>ensure b\<close> is the point where execution is undefined unless \<open>b\<close>.\<close>

definition ensure :: "bool \<Rightarrow> unit option" where
  "ensure b = (if b then Some () else None)"

lemma ensure_simps [simp, ub_simps]:
  "ensure True = Some ()" "ensure False = None"
  "ensure b = Some u \<longleftrightarrow> b" "ensure b = None \<longleftrightarrow> \<not> b"
  by (simp_all add: ensure_def)

lemma bind_ensure [simp, ub_simps]:
  "Option.bind (ensure b) f = (if b then f () else None)"
  by (simp add: ensure_def)

lemmas bind_split = Option.bind_split Option.bind_split_asm

text \<open>Reading and writing a C array: outside it, the execution is undefined.\<close>

definition aget :: "'a list \<Rightarrow> nat \<Rightarrow> 'a option" where
  "aget xs i = (if i < length xs then Some (xs ! i) else None)"

definition aset :: "'a list \<Rightarrow> nat \<Rightarrow> 'a \<Rightarrow> 'a list option" where
  "aset xs i v = (if i < length xs then Some (xs[i := v]) else None)"

lemma aget_Some_iff [simp]: "aget xs i = Some v \<longleftrightarrow> i < length xs \<and> xs ! i = v"
  by (auto simp: aget_def)

lemma aget_in [simp]: "i < length xs \<Longrightarrow> aget xs i = Some (xs ! i)"
  by (simp add: aget_def)

lemma aget_out [simp]: "length xs \<le> i \<Longrightarrow> aget xs i = None"
  by (simp add: aget_def)

lemma aset_in [simp]: "i < length xs \<Longrightarrow> aset xs i v = Some (xs[i := v])"
  by (simp add: aset_def)

lemma aset_out [simp]: "length xs \<le> i \<Longrightarrow> aset xs i v = None"
  by (simp add: aset_def)

lemma u64_bound: "unat (a :: u64) < 2 ^ 64"
  using unsigned_less [of a] by simp

lemma unat_and_not_mask: "unat (x AND NOT (mask sh) :: u64) = unat x div 2 ^ sh * 2 ^ sh"
proof -
  have "unat (x AND NOT (mask sh)) = push_bit sh (drop_bit sh (unat x))"
    by (rule bit_eqI) (auto simp: bit_simps dest: bit_imp_le_length)
  then show ?thesis
    by (simp add: push_bit_eq_mult drop_bit_eq_div)
qed

lemma fold_max_ge:
  fixes xs :: "'a::linorder list"
  shows "y \<le> fold max xs y" "x \<in> set xs \<Longrightarrow> x \<le> fold max xs y"
proof (induction xs arbitrary: y)
  case (Cons z xs)
  {
    case 1
    then show ?case using Cons(1) [of "max z y"] by simp
  next
    case 2
    then show ?case using Cons [of "max z y"] by (auto intro: order_trans [of _ "max z y"])
  }
qed simp_all

subsection \<open>Little-endian layout\<close>

fun to_bytes :: "nat \<Rightarrow> u64 \<Rightarrow> byte list" where
  "to_bytes 0 w = []"
| "to_bytes (Suc n) w = ucast w # to_bytes n (drop_bit 8 w)"

fun of_bytes :: "byte list \<Rightarrow> u64" where
  "of_bytes [] = 0"
| "of_bytes (b # bs) = ucast b OR push_bit 8 (of_bytes bs)"

lemma of_bytes_to_bytes: "of_bytes (to_bytes n w) = take_bit (8 * n) w"
proof (induction n arbitrary: w)
  case (Suc n)
  show ?case
  proof (rule bit_word_eqI)
    fix i
    assume i: "i < LENGTH(64)"
    show "bit (of_bytes (to_bytes (Suc n) w)) i \<longleftrightarrow> bit (take_bit (8 * Suc n) w) i"
      using i by (auto simp: Suc bit_simps)
  qed
qed simp

lemma length_to_bytes [simp]: "length (to_bytes n w) = n"
  by (induction n arbitrary: w) auto

lemma of_bytes_to_bytes_8 [simp]: "of_bytes (to_bytes 8 w) = w"
  by (simp add: of_bytes_to_bytes take_bit_word_eq_self)

subsection \<open>Systems driven by requests\<close>

text \<open>A system serves requests one after the other. \<open>step r s\<close> is the service of one
  request, with its answer; \<open>en r s\<close> says that the environment may issue it. The states
  a system can reach, and the contract under which it never meets undefined behaviour.\<close>

inductive reach :: "('r \<Rightarrow> 's \<Rightarrow> bool) \<Rightarrow> ('r \<Rightarrow> 's \<Rightarrow> ('o \<times> 's) option) \<Rightarrow> 's \<Rightarrow> 's \<Rightarrow> bool"
  for en step s0 where
  reach_start: "reach en step s0 s0"
| reach_next: "reach en step s0 s \<Longrightarrow> en r s \<Longrightarrow> step r s = Some (out, s') \<Longrightarrow> reach en step s0 s'"

text \<open>Executing a given sequence of requests.\<close>

fun run_all :: "('r \<Rightarrow> 's \<Rightarrow> bool) \<Rightarrow> ('r \<Rightarrow> 's \<Rightarrow> ('o \<times> 's) option) \<Rightarrow> 'r list \<Rightarrow> 's \<Rightarrow> 's option" where
  "run_all en step [] s = Some s"
| "run_all en step (r # rs) s =
     (if en r s then (case step r s of None \<Rightarrow> None | Some (out, s) \<Rightarrow> run_all en step rs s) else None)"

lemma reach_run: "run_all en step rs s = Some s' \<Longrightarrow> reach en step s0 s \<Longrightarrow> reach en step s0 s'"
  by (induction rs arbitrary: s) (auto split: if_splits option.splits intro: reach_next)

lemma run_all_append:
  "run_all en step (rs @ rs') s = Option.bind (run_all en step rs s) (run_all en step rs')"
  by (induction rs arbitrary: s) (auto split: option.split)

text \<open>A phase in which each of \<open>n\<close> requests advances a progress predicate.\<close>

lemma run_all_phase:
  assumes "P 0 s" and "\<And>k s. k < n \<Longrightarrow> P k s \<Longrightarrow> en (req k) s \<and> (\<exists>out s'. step (req k) s = Some (out, s') \<and> P (Suc k) s')"
  shows "\<exists>s'. run_all en step (map req [0..<n]) s = Some s' \<and> P n s'"
  using assms(2)
proof (induction n)
  case 0
  then show ?case using assms(1) by simp
next
  case (Suc n)
  then obtain s' where "run_all en step (map req [0..<n]) s = Some s'" "P n s'" by fastforce
  with Suc.prems [of n s'] show ?case by (auto simp: run_all_append)
qed

text \<open>A contract on the invariant alone, for a system whose steps may be undefined.\<close>

locale kept_system =
  fixes inv :: "'s \<Rightarrow> bool"
    and en :: "'r \<Rightarrow> 's \<Rightarrow> bool"
    and step :: "'r \<Rightarrow> 's \<Rightarrow> ('o \<times> 's) option"
  assumes step_kept: "inv s \<Longrightarrow> en r s \<Longrightarrow> step r s = Some (out, s') \<Longrightarrow> inv s'"
begin

lemma reach_inv: "reach en step s0 s \<Longrightarrow> inv s0 \<Longrightarrow> inv s"
  by (induction rule: reach.induct) (auto dest: step_kept)

end

locale safe_system =
  fixes inv :: "'s \<Rightarrow> bool"
    and en :: "'r \<Rightarrow> 's \<Rightarrow> bool"
    and step :: "'r \<Rightarrow> 's \<Rightarrow> ('o \<times> 's) option"
  assumes step_law: "inv s \<Longrightarrow> en r s \<Longrightarrow> \<exists>out s'. step r s = Some (out, s') \<and> inv s'"

sublocale safe_system \<subseteq> kept_system
proof
  show "inv s'" if "inv s" "en r s" "step r s = Some (out, s')" for s r out s'
    using step_law [OF that(1,2)] that(3) by auto
qed

context safe_system
begin

lemma reach_progress: "reach en step s0 s \<Longrightarrow> inv s0 \<Longrightarrow> en r s \<Longrightarrow> \<exists>out s'. step r s = Some (out, s')"
  using reach_inv step_law by blast

lemma run_all_defined:
  "inv s \<Longrightarrow> (\<And>r s. r \<in> set rs \<Longrightarrow> en r s) \<Longrightarrow> \<exists>s'. run_all en step rs s = Some s' \<and> inv s'"
proof (induction rs arbitrary: s)
  case (Cons r rs)
  then obtain out s1 where "step r s = Some (out, s1)" "inv s1" using step_law [of s r] by auto
  with Cons show ?case by auto
qed simp

end

end
