(* ===== verification/Kernel_Pages.thy ===== *)
theory Kernel_Pages
  imports SS_Prelude
begin

text \<open>
  The kernel memory services that \<^verbatim>\<open>lkm/core/api.c\<close> calls: page allocation,
  \<open>kmalloc\<close>-style object allocation, pending fatal signals. They are not code of this
  repository, so what they decide is a parameter, the record \<open>ksrc\<close> of decision
  functions. Each function sees the set of frames in use and the number of requests made
  so far, so it may answer two equal requests differently. What the module relies on is the
  documented contract \<open>ksrc_ok\<close>: frames handed out were not in use, a bulk request
  yields distinct frames and no more than it was asked for.

  A page is identified by its frame number, so \<open>page + i\<close> of the source is \<open>p + i\<close>.
\<close>

type_synonym page = nat
type_synonym pagedata = "nat \<Rightarrow> byte"

record gfp =
  gfp_zero :: bool
  gfp_direct_reclaim :: bool
  gfp_nowarn :: bool

definition GFP_KERNEL_ZERO :: gfp where
  "GFP_KERNEL_ZERO = \<lparr>gfp_zero = True, gfp_direct_reclaim = True, gfp_nowarn = False\<rparr>"

text \<open>The page state: frames in use, frames still part of an unsplit high-order block,
  their contents, and the number of requests served.\<close>

record pmem =
  inuse :: "page set"
  unsplit :: "page set"
  content :: "page \<Rightarrow> pagedata"
  tick :: nat

record ksrc =
  ks_pages :: "gfp \<Rightarrow> nat \<Rightarrow> page set \<Rightarrow> nat \<Rightarrow> page option"
  ks_bulk :: "gfp \<Rightarrow> nat \<Rightarrow> page set \<Rightarrow> nat \<Rightarrow> page list"
  ks_kmalloc :: "nat \<Rightarrow> bool"
  ks_fatal :: "nat \<Rightarrow> bool"

definition ksrc_ok :: "ksrc \<Rightarrow> bool" where
  "ksrc_ok ks \<longleftrightarrow>
     (\<forall>g ord U t p. ks_pages ks g ord U t = Some p \<longrightarrow> {p..<p + 2 ^ ord} \<inter> U = {}) \<and>
     (\<forall>g n U t. length (ks_bulk ks g n U t) \<le> n \<and> distinct (ks_bulk ks g n U t) \<and>
        set (ks_bulk ks g n U t) \<inter> U = {})"

definition zero_page :: pagedata where
  "zero_page = (\<lambda>_. 0)"

definition grant :: "gfp \<Rightarrow> page set \<Rightarrow> 'a pmem_scheme \<Rightarrow> 'a pmem_scheme" where
  "grant g P s = s\<lparr>inuse := inuse s \<union> P,
     content := (if gfp_zero g then (\<lambda>q. if q \<in> P then zero_page else content s q)
                 else content s),
     tick := Suc (tick s)\<rparr>"

definition alloc_pages ::
  "ksrc \<Rightarrow> gfp \<Rightarrow> nat \<Rightarrow> 'a pmem_scheme \<Rightarrow> page option \<times> 'a pmem_scheme" where
  "alloc_pages ks g ord s =
     (case ks_pages ks g ord (inuse s) (tick s) of
        None \<Rightarrow> (None, s\<lparr>tick := Suc (tick s)\<rparr>)
      | Some p \<Rightarrow>
          (Some p, (grant g {p..<p + 2 ^ ord} s)\<lparr>unsplit :=
             (if ord = 0 then unsplit s else unsplit s \<union> {p..<p + 2 ^ ord})\<rparr>))"

definition split_page :: "page \<Rightarrow> nat \<Rightarrow> 'a pmem_scheme \<Rightarrow> 'a pmem_scheme" where
  "split_page p ord s = s\<lparr>unsplit := unsplit s - {p..<p + 2 ^ ord}\<rparr>"

definition alloc_pages_bulk ::
  "ksrc \<Rightarrow> gfp \<Rightarrow> nat \<Rightarrow> 'a pmem_scheme \<Rightarrow> page list \<times> 'a pmem_scheme" where
  "alloc_pages_bulk ks g n s =
     (let ps = ks_bulk ks g n (inuse s) (tick s) in (ps, grant g (set ps) s))"

text \<open>Freeing a frame that is not in use, or one frame of an unsplit block, is undefined.\<close>

definition free_page :: "page \<Rightarrow> 'a pmem_scheme \<Rightarrow> 'a pmem_scheme option" where
  "free_page p s = do {
     ensure (p \<in> inuse s \<and> p \<notin> unsplit s);
     Some (s\<lparr>inuse := inuse s - {p}\<rparr>) }"

definition kmalloc :: "ksrc \<Rightarrow> 'a pmem_scheme \<Rightarrow> bool \<times> 'a pmem_scheme" where
  "kmalloc ks s = (ks_kmalloc ks (tick s), s\<lparr>tick := Suc (tick s)\<rparr>)"

definition fatal_signal_pending :: "ksrc \<Rightarrow> 'a pmem_scheme \<Rightarrow> bool" where
  "fatal_signal_pending ks s = ks_fatal ks (tick s)"

definition clear_highpage :: "page \<Rightarrow> 'a pmem_scheme \<Rightarrow> 'a pmem_scheme option" where
  "clear_highpage p s = do {
     ensure (p \<in> inuse s);
     Some (s\<lparr>content := (content s)(p := zero_page)\<rparr>) }"

definition copy_highpage :: "page \<Rightarrow> page \<Rightarrow> 'a pmem_scheme \<Rightarrow> 'a pmem_scheme option" where
  "copy_highpage dst src s = do {
     ensure (dst \<in> inuse s \<and> src \<in> inuse s);
     Some (s\<lparr>content := (content s)(dst := content s src)\<rparr>) }"

subsection \<open>What the services guarantee\<close>

lemma ksrc_ok_pagesD:
  "ksrc_ok ks \<Longrightarrow> ks_pages ks g ord U t = Some p \<Longrightarrow> {p..<p + 2 ^ ord} \<inter> U = {}"
  unfolding ksrc_ok_def by blast

lemma ksrc_ok_bulkD:
  assumes "ksrc_ok ks"
  shows "length (ks_bulk ks g n U t) \<le> n" "distinct (ks_bulk ks g n U t)"
    "set (ks_bulk ks g n U t) \<inter> U = {}"
  using assms unfolding ksrc_ok_def by blast+

text \<open>A concrete page source: the frames above every frame ever handed out, one request
  after the other, never failing. It shows that the contract can be met.\<close>

definition bump_base :: "page set \<Rightarrow> nat" where
  "bump_base U = (if U = {} then 0 else Suc (Max U))"

definition bump_src :: ksrc where
  "bump_src = \<lparr>ks_pages = (\<lambda>g ord U t. if finite U then Some (bump_base U) else None),
     ks_bulk = (\<lambda>g n U t. if finite U then [bump_base U..<bump_base U + n] else []),
     ks_kmalloc = (\<lambda>t. True), ks_fatal = (\<lambda>t. False)\<rparr>"

lemma bump_base_fresh: "finite U \<Longrightarrow> bump_base U \<le> p \<Longrightarrow> p \<notin> U"
  by (auto simp: bump_base_def split: if_splits dest: Max_ge)

lemma ksrc_ok_bump_src: "ksrc_ok bump_src"
  unfolding ksrc_ok_def bump_src_def by (auto dest: bump_base_fresh split: if_splits)

text \<open>A source that refuses everything: every failure path can be taken.\<close>

definition empty_src :: ksrc where
  "empty_src = \<lparr>ks_pages = (\<lambda>g ord U t. None), ks_bulk = (\<lambda>g n U t. []),
     ks_kmalloc = (\<lambda>t. True), ks_fatal = (\<lambda>t. False)\<rparr>"

lemma ksrc_ok_empty_src: "ksrc_ok empty_src"
  by (simp add: ksrc_ok_def empty_src_def)

lemma grant_simps [simp]:
  "inuse (grant g P s) = inuse s \<union> P" "unsplit (grant g P s) = unsplit s"
  "content (grant g P s) q = (if gfp_zero g \<and> q \<in> P then zero_page else content s q)"
  "pmem.more (grant g P s) = pmem.more s"
  by (simp_all add: grant_def)

end
