(* ===== verification/Page_Lists.thy ===== *)
theory Page_Lists
  imports Kernel_Pages
begin

text \<open>
  Page lists and the global free list of \<^verbatim>\<open>lkm/core/api.c\<close>: the structure
  \<open>sa_pagelist\<close>, its allocation in three phases (high-order blocks, bulk requests,
  single pages), its release, and the recycling of stacks through \<open>gl_alloc_stack\<close>,
  \<open>gl_free\<close> and \<open>vma_free\<close>.

  The free-list state extends the page state: \<open>gl_size\<close>, \<open>gl_sa\<close> and
  \<open>gl_lock\<close> are the static variables of the same names. A \<open>sa_pagelist\<close> is
  owned by one place at a time (the free list, a thread, a local variable), so the model
  passes it by value. The array \<open>pages\<close> is a list of possibly NULL page pointers;
  the pointer to the array itself is NULL after the pages were freed.
\<close>

definition GL_SA_CAPACITY :: int where
  "GL_SA_CAPACITY = 128"

definition SS_SIZE :: u64 where
  "SS_SIZE = 8 * 1024 * 1024"

abbreviation PAGE_SHIFT :: nat where
  "PAGE_SHIFT \<equiv> 12"

record sa_pagelist =
  nr_pages :: int
  pages :: "page option list option"

record gl_state = pmem +
  gl_size :: int
  gl_sa :: "sa_pagelist list"
  gl_lock :: bool

subsection \<open>Freeing the pages of a list\<close>

text \<open>The loop \<open>while (pagelist->nr_pages--)\<close>, from the last page to the first.\<close>

fun free_pages_loop ::
  "nat \<Rightarrow> page option list \<Rightarrow> 'a pmem_scheme \<Rightarrow> 'a pmem_scheme option" where
  "free_pages_loop 0 ps s = Some s"
| "free_pages_loop (Suc n) ps s = do {
     q \<leftarrow> aget ps n;
     p \<leftarrow> q;
     s \<leftarrow> free_page p s;
     free_pages_loop n ps s }"

text \<open>A negative count would index the array below its start; the decrement of the
  last, failing test leaves \<open>nr_pages\<close> at -1.\<close>

definition sa_pagelist_free_pages ::
  "sa_pagelist \<Rightarrow> 'a pmem_scheme \<Rightarrow> (sa_pagelist \<times> 'a pmem_scheme) option" where
  "sa_pagelist_free_pages pl s = do {
     ensure (0 \<le> nr_pages pl);
     ps \<leftarrow> (if nr_pages pl = 0 then Some [] else pages pl);
     s \<leftarrow> free_pages_loop (nat (nr_pages pl)) ps s;
     Some (pl\<lparr>nr_pages := -1, pages := None\<rparr>, s) }"

definition sa_pagelist_free :: "sa_pagelist \<Rightarrow> 'a pmem_scheme \<Rightarrow> 'a pmem_scheme option" where
  "sa_pagelist_free pl s = do {
     (_, s) \<leftarrow> sa_pagelist_free_pages pl s;
     Some s }"

subsection \<open>Allocating the pages of a list\<close>

text \<open>The position of the highest bit; the source never uses its value at 0, where the
  loop guard already fails.\<close>

fun ilog2 :: "nat \<Rightarrow> nat" where
  "ilog2 n = (if n < 2 then 0 else Suc (ilog2 (n div 2)))"

declare ilog2.simps [simp del]

text \<open>\<open>for (i = 0; i < n; ++i) pages[base + i] = page + i\<close>.\<close>

fun store_run :: "nat \<Rightarrow> page list \<Rightarrow> page option list \<Rightarrow> page option list option" where
  "store_run base [] ps = Some ps"
| "store_run base (q # qs) ps = do {
     ps \<leftarrow> aset ps base (Some q);
     store_run (Suc base) qs ps }"

text \<open>Phase one: blocks of the largest order that still fits, without direct reclaim;
  the order limit drops after each failure and never rises again.\<close>

function alloc_large ::
  "ksrc \<Rightarrow> gfp \<Rightarrow> nat \<Rightarrow> nat \<Rightarrow> nat \<Rightarrow> nat \<Rightarrow> page option list \<Rightarrow> 'a pmem_scheme \<Rightarrow>
   (nat \<times> page option list \<times> 'a pmem_scheme) option" where
  "alloc_large ks g nr max_order large nr_alloc ps s =
     (if 0 < large \<and> 0 < nr - nr_alloc then
        (case alloc_pages ks (g\<lparr>gfp_nowarn := True, gfp_direct_reclaim := False\<rparr>) large s of
           (None, s) \<Rightarrow> alloc_large ks g nr (large - 1) (large - 1) nr_alloc ps s
         | (Some p, s) \<Rightarrow>
             let s = split_page p large s
             in (case store_run nr_alloc [p..<p + 2 ^ large] ps of
                None \<Rightarrow> None
              | Some ps \<Rightarrow>
                  alloc_large ks g nr max_order
                    (min max_order (ilog2 (nr - (nr_alloc + 2 ^ large))))
                    (nr_alloc + 2 ^ large) ps s))
      else Some (nr_alloc, ps, s))"
  by pat_completeness auto
termination
  by (relation "measures [\<lambda>(ks, g, nr, m, l, na, ps, s). nr - na, \<lambda>(ks, g, nr, m, l, na, ps, s). l]")
    (auto simp: diff_less_mono2)

text \<open>Phase two: bulk requests of at most 100 pages until one is not fully served. A bulk
  request fills the NULL slots it is given.\<close>

function alloc_bulk ::
  "ksrc \<Rightarrow> gfp \<Rightarrow> nat \<Rightarrow> nat \<Rightarrow> page option list \<Rightarrow> 'a pmem_scheme \<Rightarrow>
   (nat \<times> page option list \<times> 'a pmem_scheme) option" where
  "alloc_bulk ks g nr nr_alloc ps s =
     (if nr_alloc < nr then
        (let req = min 100 (nr - nr_alloc);
             (qs, s) = alloc_pages_bulk ks g req s
         in case store_run nr_alloc qs ps of
              None \<Rightarrow> None
            | Some ps \<Rightarrow>
                if length qs \<noteq> req then Some (nr_alloc + length qs, ps, s)
                else alloc_bulk ks g nr (nr_alloc + length qs) ps s)
      else Some (nr_alloc, ps, s))"
  by pat_completeness auto
termination
  by (relation "measure (\<lambda>(ks, g, nr, na, ps, s). nr - na)") auto

text \<open>Phase three: single pages, until one is refused or a fatal signal is pending.\<close>

function alloc_single ::
  "ksrc \<Rightarrow> gfp \<Rightarrow> nat \<Rightarrow> nat \<Rightarrow> page option list \<Rightarrow> 'a pmem_scheme \<Rightarrow>
   (nat \<times> page option list \<times> 'a pmem_scheme) option" where
  "alloc_single ks g nr nr_alloc ps s =
     (if nr_alloc < nr then
        if fatal_signal_pending ks s then Some (nr_alloc, ps, s)
        else (case alloc_pages ks g 0 s of
           (None, s) \<Rightarrow> Some (nr_alloc, ps, s)
         | (Some p, s) \<Rightarrow>
             (case aset ps nr_alloc (Some p) of
                None \<Rightarrow> None
              | Some ps \<Rightarrow> alloc_single ks g nr (Suc nr_alloc) ps s))
      else Some (nr_alloc, ps, s))"
  by pat_completeness auto
termination
  by (relation "measure (\<lambda>(ks, g, nr, na, ps, s). nr - na)") auto

declare alloc_large.simps [simp del] alloc_bulk.simps [simp del] alloc_single.simps [simp del]

text \<open>\<open>COMPAT_MAX_ORDER\<close> depends on the kernel the module is built for and is a
  parameter. The result is the status and the page list.\<close>

definition sa_pagelist_alloc_pages ::
  "ksrc \<Rightarrow> nat \<Rightarrow> gfp \<Rightarrow> nat \<Rightarrow> sa_pagelist \<Rightarrow> 'a pmem_scheme \<Rightarrow>
   (int \<times> sa_pagelist \<times> 'a pmem_scheme) option" where
  "sa_pagelist_alloc_pages ks max_order g nr pl s =
     (case kmalloc ks s of
        (False, s) \<Rightarrow> Some (- ENOMEM, pl\<lparr>pages := None\<rparr>, s)
      | (True, s) \<Rightarrow> do {
          (na, ps, s) \<leftarrow> alloc_large ks g nr max_order (min max_order (ilog2 nr)) 0
                          (replicate nr None) s;
          (na, ps, s) \<leftarrow> alloc_bulk ks g nr na ps s;
          (na, ps, s) \<leftarrow> alloc_single ks g nr na ps s;
          let pl = pl\<lparr>nr_pages := int na, pages := Some ps\<rparr>;
          if na \<noteq> nr then do {
            (pl, s) \<leftarrow> sa_pagelist_free_pages pl s;
            Some (- ENOMEM, pl, s) }
          else Some (0, pl, s) })"

subsection \<open>The global free list\<close>

text \<open>Taking a spin lock that is already held deadlocks in a sequential execution.\<close>

definition gl_spin_lock :: "'a gl_state_scheme \<Rightarrow> 'a gl_state_scheme option" where
  "gl_spin_lock s = do { ensure (\<not> gl_lock s); Some (s\<lparr>gl_lock := True\<rparr>) }"

definition gl_spin_unlock :: "'a gl_state_scheme \<Rightarrow> 'a gl_state_scheme option" where
  "gl_spin_unlock s = do { ensure (gl_lock s); Some (s\<lparr>gl_lock := False\<rparr>) }"

text \<open>A freshly \<open>kmalloc\<close>ed page list has indeterminate fields, given by the
  parameter \<open>junk\<close>.\<close>

definition gl_alloc_stack ::
  "ksrc \<Rightarrow> nat \<Rightarrow> sa_pagelist \<Rightarrow> 'a gl_state_scheme \<Rightarrow>
   (int \<times> sa_pagelist option \<times> 'a gl_state_scheme) option" where
  "gl_alloc_stack ks max_order junk s = do {
     s \<leftarrow> gl_spin_lock s;
     case gl_sa s of
       pl # rest \<Rightarrow> do {
         s \<leftarrow> gl_spin_unlock (s\<lparr>gl_size := gl_size s - 1, gl_sa := rest\<rparr>);
         Some (0, Some pl, s) }
     | [] \<Rightarrow> do {
         s \<leftarrow> gl_spin_unlock s;
         case kmalloc ks s of
           (False, s) \<Rightarrow> Some (- ENOMEM, None, s)
         | (True, s) \<Rightarrow> do {
             (err, pl, s) \<leftarrow> sa_pagelist_alloc_pages ks max_order GFP_KERNEL_ZERO
                              (unat (drop_bit PAGE_SHIFT SS_SIZE)) junk s;
             if err \<noteq> 0 then Some (err, None, s) else Some (0, Some pl, s) } } }"

text \<open>\<open>for (i = 0; i < nr_pages; ++i) clear_highpage(pages[i])\<close>.\<close>

function clear_pages_loop ::
  "nat \<Rightarrow> nat \<Rightarrow> page option list \<Rightarrow> 'a pmem_scheme \<Rightarrow> 'a pmem_scheme option" where
  "clear_pages_loop i n ps s =
     (if i < n then
        (case aget ps i of
           Some (Some p) \<Rightarrow>
             (case clear_highpage p s of
                None \<Rightarrow> None
              | Some s \<Rightarrow> clear_pages_loop (Suc i) n ps s)
         | _ \<Rightarrow> None)
      else Some s)"
  by pat_completeness auto
termination
  by (relation "measure (\<lambda>(i, n, ps, s). n - i)") auto

declare clear_pages_loop.simps [simp del]

definition gl_free :: "sa_pagelist \<Rightarrow> 'a gl_state_scheme \<Rightarrow> 'a gl_state_scheme option" where
  "gl_free pl s =
     (if gl_size s \<ge> GL_SA_CAPACITY then sa_pagelist_free pl s
      else do {
        s \<leftarrow> (if nr_pages pl \<le> 0 then Some s
             else do { ps \<leftarrow> pages pl; clear_pages_loop 0 (nat (nr_pages pl)) ps s });
        s \<leftarrow> gl_spin_lock s;
        gl_spin_unlock (s\<lparr>gl_size := gl_size s + 1, gl_sa := pl # gl_sa s\<rparr>) })"

fun free_all_lists :: "sa_pagelist list \<Rightarrow> 'a pmem_scheme \<Rightarrow> 'a pmem_scheme option" where
  "free_all_lists [] s = Some s"
| "free_all_lists (pl # pls) s = do { s \<leftarrow> sa_pagelist_free pl s; free_all_lists pls s }"

definition vma_free :: "'a gl_state_scheme \<Rightarrow> 'a gl_state_scheme option" where
  "vma_free s = do {
     s \<leftarrow> gl_spin_lock s;
     let old_list = gl_sa s;
     s \<leftarrow> gl_spin_unlock (s\<lparr>gl_sa := [], gl_size := 0\<rparr>);
     free_all_lists old_list s }"

subsection \<open>Runs of frees, clears and stores\<close>

lemma free_pages_loop_run:
  assumes "n \<le> length qs" "distinct (take n qs)" "set (take n qs) \<subseteq> inuse s"
    "set (take n qs) \<inter> unsplit s = {}"
  shows "free_pages_loop n (map Some qs @ r) s = Some (s\<lparr>inuse := inuse s - set (take n qs)\<rparr>)"
  using assms
proof (induction n arbitrary: s)
  case (Suc n)
  let ?s = "s\<lparr>inuse := inuse s - {qs ! n}\<rparr>"
  have t: "take (Suc n) qs = take n qs @ [qs ! n]"
    using Suc.prems by (simp add: take_Suc_conv_app_nth)
  have "free_pages_loop n (map Some qs @ r) ?s = Some (?s\<lparr>inuse := inuse ?s - set (take n qs)\<rparr>)"
    using Suc.prems by (intro Suc.IH) (auto simp: t)
  moreover have "inuse s - {qs ! n} - set (take n qs) = inuse s - set (take (Suc n) qs)"
    by (auto simp: t)
  ultimately show ?case
    using Suc.prems by (simp add: t nth_append free_page_def)
qed simp

lemma clear_pages_loop_run:
  assumes "i \<le> n" "n \<le> length qs" "set (take n qs) \<subseteq> inuse s"
  shows "clear_pages_loop i n (map Some qs @ r) s =
    Some (s\<lparr>content := (\<lambda>q. if q \<in> set (take (n - i) (drop i qs)) then zero_page else content s q)\<rparr>)"
  using assms
proof (induction "n - i" arbitrary: i s)
  case (Suc k)
  then have i: "i < n"
    by simp
  with Suc.prems have "take n qs ! i \<in> set (take n qs)"
    by (intro nth_mem) simp
  with i Suc.prems have q: "qs ! i \<in> inuse s"
    by auto
  let ?s = "s\<lparr>content := (content s)(qs ! i := zero_page)\<rparr>"
  have d: "take (n - i) (drop i qs) = qs ! i # take (n - Suc i) (drop (Suc i) qs)"
    using i Suc.prems
    by (metis Cons_nth_drop_Suc Suc_diff_Suc order_less_le_trans take_Suc_Cons)
  have "clear_pages_loop (Suc i) n (map Some qs @ r) ?s = Some (?s\<lparr>content :=
      (\<lambda>q. if q \<in> set (take (n - Suc i) (drop (Suc i) qs)) then zero_page else content ?s q)\<rparr>)"
    using Suc.prems Suc.hyps(2) i by (intro Suc.hyps(1)) auto
  then show ?case
    using i q Suc.prems(2)
    by (subst clear_pages_loop.simps) (auto simp: clear_highpage_def d nth_append fun_eq_iff intro!: arg_cong2 [where f = content_update])
qed (simp add: clear_pages_loop.simps)

lemma store_run_eq:
  "base + length qs \<le> length ps \<Longrightarrow>
   store_run base qs ps = Some (take base ps @ map Some qs @ drop (base + length qs) ps)"
proof (induction qs arbitrary: base ps)
  case (Cons q qs)
  then have "store_run (Suc base) qs (ps[base := Some q]) =
     Some (take (Suc base) (ps[base := Some q]) @ map Some qs @ drop (Suc base + length qs) (ps[base := Some q]))"
    by (intro Cons.IH) simp
  then show ?case
    using Cons.prems by (simp add: take_Suc_conv_app_nth)
qed simp

lemma store_run_append:
  "length qs = base \<Longrightarrow> length rs \<le> k \<Longrightarrow>
   store_run base rs (map Some qs @ replicate k None) =
     Some (map Some (qs @ rs) @ replicate (k - length rs) None)"
  by (simp add: store_run_eq)

lemma power_ilog2_le: "0 < n \<Longrightarrow> 2 ^ ilog2 n \<le> n"
proof (induction n rule: ilog2.induct)
  case (1 n)
  then show ?case
    by (subst ilog2.simps) (auto, linarith?)
qed

lemma power_le_ilog2: "0 < n \<Longrightarrow> l \<le> ilog2 n \<Longrightarrow> 2 ^ l \<le> n"
  by (meson le_trans one_le_numeral power_ilog2_le power_increasing)

subsection \<open>What an allocation grants\<close>

text \<open>\<open>granted g s qs s'\<close>: from \<open>s\<close> to \<open>s'\<close> exactly the
  frames \<open>qs\<close>, distinct and not in use before, were handed out, zeroed if the
  request asked for it, and nothing else changed.\<close>

definition granted :: "gfp \<Rightarrow> 'a pmem_scheme \<Rightarrow> page list \<Rightarrow> 'a pmem_scheme \<Rightarrow> bool" where
  "granted g s qs s' \<longleftrightarrow> distinct qs \<and> set qs \<inter> inuse s = {} \<and> inuse s' = inuse s \<union> set qs \<and>
     unsplit s' = unsplit s \<and> pmem.more s' = pmem.more s \<and>
     (\<forall>q. content s' q = (if gfp_zero g \<and> q \<in> set qs then zero_page else content s q))"

lemma granted_Nil [simp]: "granted g s [] s" "granted g s [] (s\<lparr>tick := t\<rparr>)"
  by (simp_all add: granted_def)

lemma granted_tick [simp]: "granted g (s\<lparr>tick := t\<rparr>) qs s' \<longleftrightarrow> granted g s qs s'"
  by (simp add: granted_def)

lemma granted_append:
  "granted g s qs s1 \<Longrightarrow> granted g s1 rs s2 \<Longrightarrow> granted g s (qs @ rs) s2"
  unfolding granted_def by auto

lemma granted_gfp: "gfp_zero g = gfp_zero g' \<Longrightarrow> granted g s qs s' \<longleftrightarrow> granted g' s qs s'"
  by (simp add: granted_def)

lemma alloc_pages_granted:
  assumes "ksrc_ok ks" "alloc_pages ks g ord s = (Some p, s')" "unsplit s \<subseteq> inuse s"
  shows "granted g s [p..<p + 2 ^ ord] (split_page p ord s')"
    and "ord = 0 \<Longrightarrow> granted g s [p] s'"
proof -
  have "{p..<p + 2 ^ ord} \<inter> inuse s = {}"
    and s': "s' = (grant g {p..<p + 2 ^ ord} s)\<lparr>unsplit :=
             (if ord = 0 then unsplit s else unsplit s \<union> {p..<p + 2 ^ ord})\<rparr>"
    using assms ksrc_ok_pagesD [OF assms(1), of g ord "inuse s" "tick s" p]
    by (auto simp: alloc_pages_def split: option.splits)
  then show "granted g s [p..<p + 2 ^ ord] (split_page p ord s')" "ord = 0 \<Longrightarrow> granted g s [p] s'"
    using assms(3) by (auto simp: granted_def split_page_def grant_def)
qed

lemma alloc_pages_None:
  "alloc_pages ks g ord s = (None, s') \<Longrightarrow> s' = s\<lparr>tick := Suc (tick s)\<rparr>"
  by (auto simp: alloc_pages_def split: option.splits)

lemma alloc_bulk_granted:
  assumes "ksrc_ok ks" "alloc_pages_bulk ks g n s = (qs, s')"
  shows "granted g s qs s'" "length qs \<le> n"
  using assms(2) ksrc_ok_bulkD [OF assms(1), of g n "inuse s" "tick s"]
  by (auto simp: alloc_pages_bulk_def granted_def Let_def grant_def)

abbreviation filled :: "page list \<Rightarrow> nat \<Rightarrow> page option list" where
  "filled qs nr \<equiv> map Some qs @ replicate (nr - length qs) None"

text \<open>Each phase extends the filled prefix of the array by the frames it was granted.\<close>

lemma alloc_large_run_aux:
  assumes "ksrc_ok ks" "na = length qs" "ps = filled qs nr" "na \<le> nr" "unsplit s \<subseteq> inuse s"
    "large \<le> ilog2 (nr - na)"
  shows "\<exists>rs s'. alloc_large ks g nr m large na ps s =
      Some (length (qs @ rs), filled (qs @ rs) nr, s') \<and>
      length (qs @ rs) \<le> nr \<and> granted g s rs s'"
  using assms
proof (induction ks g nr m large na ps s arbitrary: qs rule: alloc_large.induct)
  case (1 ks g nr m large na ps s)
  let ?g = "g\<lparr>gfp_nowarn := True, gfp_direct_reclaim := False\<rparr>"
  obtain r s1 where a: "alloc_pages ks ?g large s = (r, s1)"
    by fastforce
  show ?case
  proof (cases "0 < large \<and> 0 < nr - na")
    case False
    then show ?thesis
      using "1.prems" by (subst alloc_large.simps) (auto intro!: exI [of _ "[]"])
  next
    case True
    show ?thesis
    proof (cases r)
      case None
      with a have s1: "s1 = s\<lparr>tick := Suc (tick s)\<rparr>" by (simp add: alloc_pages_None)
      have "\<exists>rs s'. alloc_large ks g nr (large - 1) (large - 1) na ps s1 =
          Some (length (qs @ rs), filled (qs @ rs) nr, s') \<and>
          length (qs @ rs) \<le> nr \<and> granted g s1 rs s'"
        using "1.prems" by (intro "1.IH"(1) [OF True a [symmetric] None]) (auto simp: s1)
      with True a None s1 show ?thesis
        by (subst alloc_large.simps) (auto simp: granted_def)
    next
      case (Some p)
      let ?s2 = "split_page p large s1"
      let ?qs = "qs @ [p..<p + 2 ^ large]"
      have len: "2 ^ large \<le> nr - na"
        using True "1.prems" by (intro power_le_ilog2) auto
      have st: "store_run na [p..<p + 2 ^ large] ps = Some (filled ?qs nr)"
        using "1.prems" len by (simp add: store_run_append)
      have g: "granted g s [p..<p + 2 ^ large] ?s2"
        using alloc_pages_granted(1) [OF "1.prems"(1) a [unfolded Some]] "1.prems"
        by (simp add: granted_gfp [of ?g g])
      have "\<exists>rs s'. alloc_large ks g nr m (min m (ilog2 (nr - (na + 2 ^ large)))) (na + 2 ^ large)
            (filled ?qs nr) ?s2 = Some (length (?qs @ rs), filled (?qs @ rs) nr, s') \<and>
          length (?qs @ rs) \<le> nr \<and> granted g ?s2 rs s'"
        using "1.prems" len g
        by (intro "1.IH"(2) [OF True a [symmetric] Some refl st]) (auto simp: granted_def)
      then obtain rs s' where "alloc_large ks g nr m (min m (ilog2 (nr - (na + 2 ^ large))))
            (na + 2 ^ large) (filled ?qs nr) ?s2 = Some (length (?qs @ rs), filled (?qs @ rs) nr, s')"
          "length (?qs @ rs) \<le> nr" "granted g ?s2 rs s'"
        by blast
      moreover have "granted g s ([p..<p + 2 ^ large] @ rs) s'"
        using g calculation(3) by (rule granted_append)
      ultimately show ?thesis
        using True a Some st
        by (subst alloc_large.simps) (auto intro!: exI [of _ "[p..<p + 2 ^ large] @ rs"])
    qed
  qed
qed
lemma alloc_bulk_run_aux:
  assumes "ksrc_ok ks" "na = length qs" "ps = filled qs nr" "na \<le> nr"
  shows "\<exists>rs s'. alloc_bulk ks g nr na ps s =
      Some (length (qs @ rs), filled (qs @ rs) nr, s') \<and>
      length (qs @ rs) \<le> nr \<and> granted g s rs s'"
  using assms
proof (induction ks g nr na ps s arbitrary: qs rule: alloc_bulk.induct)
  case (1 ks g nr na ps s)
  let ?req = "min 100 (nr - na)"
  obtain bs s1 where a: "alloc_pages_bulk ks g ?req s = (bs, s1)"
    by fastforce
  have g: "granted g s bs s1" and len: "length bs \<le> ?req"
    using alloc_bulk_granted [OF "1.prems"(1) a] by auto
  have st: "store_run na bs ps = Some (filled (qs @ bs) nr)"
    using "1.prems" len by (simp add: store_run_append)
  show ?case
  proof (cases "na < nr \<and> length bs = ?req")
    case False
    then show ?thesis
      using "1.prems" a st len g
      by (subst alloc_bulk.simps)
        (cases "na < nr"; auto simp: Let_def intro!: exI [of _ "if na < nr then bs else []"])
  next
    case True
    have "\<exists>rs s'. alloc_bulk ks g nr (na + length bs) (filled (qs @ bs) nr) s1 =
          Some (length ((qs @ bs) @ rs), filled ((qs @ bs) @ rs) nr, s') \<and>
          length ((qs @ bs) @ rs) \<le> nr \<and> granted g s1 rs s'"
      using "1.prems" len True
      by (intro "1.IH" [OF _ refl a [symmetric] refl st]) auto
    then obtain rs s' where "alloc_bulk ks g nr (na + length bs) (filled (qs @ bs) nr) s1 =
          Some (length ((qs @ bs) @ rs), filled ((qs @ bs) @ rs) nr, s')"
          "length ((qs @ bs) @ rs) \<le> nr" "granted g s1 rs s'"
      by blast
    moreover have "granted g s (bs @ rs) s'"
      using g calculation(3) by (rule granted_append)
    ultimately show ?thesis
      using True a st by (subst alloc_bulk.simps) (auto simp: Let_def intro!: exI [of _ "bs @ rs"])
  qed
qed

lemma alloc_single_run_aux:
  assumes "ksrc_ok ks" "na = length qs" "ps = filled qs nr" "na \<le> nr" "unsplit s \<subseteq> inuse s"
  shows "\<exists>rs s'. alloc_single ks g nr na ps s =
      Some (length (qs @ rs), filled (qs @ rs) nr, s') \<and>
      length (qs @ rs) \<le> nr \<and> granted g s rs s'"
  using assms
proof (induction ks g nr na ps s arbitrary: qs rule: alloc_single.induct)
  case (1 ks g nr na ps s)
  obtain r s1 where a: "alloc_pages ks g 0 s = (r, s1)"
    by fastforce
  show ?case
  proof (cases "na < nr \<and> \<not> fatal_signal_pending ks s \<and> r \<noteq> None")
    case False
    then show ?thesis
      using "1.prems" a
      by (subst alloc_single.simps)
        (auto dest!: alloc_pages_None split: if_splits intro!: exI [of _ "[]"])
  next
    case True
    then obtain p where p: "r = Some p" by blast
    have g: "granted g s [p] s1"
      using alloc_pages_granted(2) [OF "1.prems"(1) a [unfolded p]] "1.prems" by simp
    have st: "aset ps na (Some p) = Some (filled (qs @ [p]) nr)"
      using True "1.prems"
      by (simp add: list_update_append Suc_diff_Suc [symmetric])
    have "\<exists>rs s'. alloc_single ks g nr (Suc na) (filled (qs @ [p]) nr) s1 =
          Some (length ((qs @ [p]) @ rs), filled ((qs @ [p]) @ rs) nr, s') \<and>
          length ((qs @ [p]) @ rs) \<le> nr \<and> granted g s1 rs s'"
      using "1.prems" True g
      by (intro "1.IH" [OF _ _ a [symmetric] p st]) (auto simp: granted_def)
    then obtain rs s' where "alloc_single ks g nr (Suc na) (filled (qs @ [p]) nr) s1 =
          Some (length ((qs @ [p]) @ rs), filled ((qs @ [p]) @ rs) nr, s')"
          "length ((qs @ [p]) @ rs) \<le> nr" "granted g s1 rs s'"
      by blast
    moreover have "granted g s ([p] @ rs) s'"
      using g calculation(3) by (rule granted_append)
    ultimately show ?thesis
      using True a st p by (subst alloc_single.simps) (auto intro!: exI [of _ "[p] @ rs"])
  qed
qed

subsection \<open>Well-formed page lists\<close>

definition frames :: "sa_pagelist \<Rightarrow> page list" where
  "frames pl = (case pages pl of None \<Rightarrow> [] | Some ps \<Rightarrow> map the (filter (\<lambda>q. q \<noteq> None) ps))"

definition wf_pagelist :: "nat \<Rightarrow> sa_pagelist \<Rightarrow> bool" where
  "wf_pagelist n pl \<longleftrightarrow> nr_pages pl = int n \<and> length (frames pl) = n \<and>
     pages pl = Some (map Some (frames pl)) \<and> distinct (frames pl)"

lemma frames_filled: "pages pl = Some (map Some qs) \<Longrightarrow> frames pl = qs"
  by (simp add: frames_def filter_map comp_def)

lemma sa_pagelist_free_pages_run:
  assumes "nr_pages pl = int (length qs)" "pages pl = Some (map Some qs @ r)" "distinct qs"
    "set qs \<subseteq> inuse s" "set qs \<inter> unsplit s = {}"
  shows "sa_pagelist_free_pages pl s =
    Some (pl\<lparr>nr_pages := -1, pages := None\<rparr>, s\<lparr>inuse := inuse s - set qs\<rparr>)"
  using assms free_pages_loop_run [of "length qs" qs s r]
  by (auto simp: sa_pagelist_free_pages_def)

lemma sa_pagelist_free_wf:
  assumes "wf_pagelist n pl" "set (frames pl) \<subseteq> inuse s" "set (frames pl) \<inter> unsplit s = {}"
  shows "sa_pagelist_free pl s = Some (s\<lparr>inuse := inuse s - set (frames pl)\<rparr>)"
proof -
  have "sa_pagelist_free_pages pl s =
      Some (pl\<lparr>nr_pages := -1, pages := None\<rparr>, s\<lparr>inuse := inuse s - set (frames pl)\<rparr>)"
    using assms by (intro sa_pagelist_free_pages_run [where r = "[]"]) (auto simp: wf_pagelist_def)
  then show ?thesis
    by (simp add: sa_pagelist_free_def)
qed

lemma granted_unsplit:
  "granted g s qs s' \<Longrightarrow> unsplit s \<subseteq> inuse s \<Longrightarrow>
    unsplit s' \<subseteq> inuse s' \<and> set qs \<subseteq> inuse s' \<and> set qs \<inter> unsplit s' = {}"
  by (auto simp: granted_def)

definition alloc_outcome ::
  "gfp \<Rightarrow> nat \<Rightarrow> 'a pmem_scheme \<Rightarrow> int \<Rightarrow> sa_pagelist \<Rightarrow> 'a pmem_scheme \<Rightarrow> bool" where
  "alloc_outcome g nr s err pl s' \<longleftrightarrow>
     (err = 0 \<and> wf_pagelist nr pl \<and> granted g s (frames pl) s') \<or>
     (err = - ENOMEM \<and> pages pl = None \<and> inuse s' = inuse s \<and> unsplit s' = unsplit s \<and>
      pmem.more s' = pmem.more s \<and> (\<forall>q \<in> inuse s. content s' q = content s q))"

lemma sa_pagelist_alloc_pages_outcome:
  assumes ks: "ksrc_ok ks" and u: "unsplit s \<subseteq> inuse s"
  shows "\<exists>err pl' s'. sa_pagelist_alloc_pages ks m g nr pl s = Some (err, pl', s') \<and>
    alloc_outcome g nr s err pl' s'"
proof (cases "ks_kmalloc ks (tick s)")
  case False
  then show ?thesis
    by (simp add: sa_pagelist_alloc_pages_def kmalloc_def alloc_outcome_def)
next
  case True
  let ?s0 = "s\<lparr>tick := Suc (tick s)\<rparr>"
  from ks u obtain as s1 where
    a: "alloc_large ks g nr m (min m (ilog2 nr)) 0 (replicate nr None) ?s0 =
        Some (length as, filled as nr, s1)" "length as \<le> nr" and ga: "granted g ?s0 as s1"
    using alloc_large_run_aux [of ks 0 "[]" "replicate nr None" nr ?s0 "min m (ilog2 nr)" g m]
    by auto
  from ks a(2) obtain bs s2 where
    b: "alloc_bulk ks g nr (length as) (filled as nr) s1 =
        Some (length (as @ bs), filled (as @ bs) nr, s2)" "length (as @ bs) \<le> nr"
    and gb: "granted g s1 bs s2"
    using alloc_bulk_run_aux [of ks "length as" as "filled as nr" nr g s1] by blast
  have gab: "granted g ?s0 (as @ bs) s2"
    using ga gb by (rule granted_append)
  have "unsplit s2 \<subseteq> inuse s2"
    using granted_unsplit [OF gab] u by simp
  with ks b(2) obtain cs s3 where
    c: "alloc_single ks g nr (length (as @ bs)) (filled (as @ bs) nr) s2 =
        Some (length ((as @ bs) @ cs), filled ((as @ bs) @ cs) nr, s3)"
       "length ((as @ bs) @ cs) \<le> nr"
    and gc: "granted g s2 cs s3"
    using alloc_single_run_aux [of ks "length (as @ bs)" "as @ bs" "filled (as @ bs) nr" nr s2 g]
    by blast
  define qs where "qs = (as @ bs) @ cs"
  define pl1 where "pl1 = pl\<lparr>nr_pages := int (length qs), pages := Some (filled qs nr)\<rparr>"
  have g: "granted g s qs s3"
    using granted_append [OF gab gc] by (simp add: qs_def)
  have eq: "sa_pagelist_alloc_pages ks m g nr pl s =
    (if length qs \<noteq> nr then do { (pl, s) \<leftarrow> sa_pagelist_free_pages pl1 s3; Some (- ENOMEM, pl, s) }
     else Some (0, pl1, s3))"
    using True a(1) b(1) c(1)
    by (simp add: sa_pagelist_alloc_pages_def kmalloc_def qs_def pl1_def Let_def)
  show ?thesis
  proof (cases "length qs = nr")
    case True
    then have "frames pl1 = qs"
      by (intro frames_filled) (simp add: pl1_def)
    with g True have "alloc_outcome g nr s 0 pl1 s3"
      by (simp add: alloc_outcome_def wf_pagelist_def granted_def) (simp add: pl1_def)
    with eq True show ?thesis by simp
  next
    case False
    have "sa_pagelist_free_pages pl1 s3 =
        Some (pl1\<lparr>nr_pages := -1, pages := None\<rparr>, s3\<lparr>inuse := inuse s3 - set qs\<rparr>)"
      using granted_unsplit [OF g u] g
      by (intro sa_pagelist_free_pages_run) (auto simp: pl1_def granted_def)
    moreover have "alloc_outcome g nr s (- ENOMEM) (pl1\<lparr>nr_pages := -1, pages := None\<rparr>)
        (s3\<lparr>inuse := inuse s3 - set qs\<rparr>)"
      using g by (auto simp: alloc_outcome_def granted_def)
    ultimately show ?thesis
      using eq False by auto
  qed
qed

subsection \<open>The invariant of the free list\<close>

text \<open>\<open>owned s\<close> are the frames in use that are not parked on the free list: those
  of the threads' stacks and of the rest of the kernel.\<close>

definition STACK_PAGES :: nat where
  "STACK_PAGES = unat (drop_bit PAGE_SHIFT SS_SIZE)"

lemma STACK_PAGES_eq: "STACK_PAGES = 2048"
  by (simp add: STACK_PAGES_def SS_SIZE_def)

definition gl_frames :: "'a gl_state_scheme \<Rightarrow> page list" where
  "gl_frames s = concat (map frames (gl_sa s))"

definition owned :: "'a gl_state_scheme \<Rightarrow> page set" where
  "owned s = inuse s - set (gl_frames s)"

definition gl_inv :: "'a gl_state_scheme \<Rightarrow> bool" where
  "gl_inv s \<longleftrightarrow> \<not> gl_lock s \<and> gl_size s = int (length (gl_sa s)) \<and> gl_size s \<le> GL_SA_CAPACITY \<and>
     unsplit s \<subseteq> owned s \<and> set (gl_frames s) \<subseteq> inuse s \<and> distinct (gl_frames s) \<and>
     (\<forall>pl \<in> set (gl_sa s). wf_pagelist STACK_PAGES pl) \<and>
     (\<forall>q \<in> set (gl_frames s). content s q = zero_page)"

definition stack_given :: "'a gl_state_scheme \<Rightarrow> sa_pagelist \<Rightarrow> 'a gl_state_scheme \<Rightarrow> bool" where
  "stack_given s pl s' \<longleftrightarrow> wf_pagelist STACK_PAGES pl \<and> set (frames pl) \<inter> owned s = {} \<and>
     owned s' = owned s \<union> set (frames pl) \<and>
     unsplit s' = unsplit s \<and> set (frames pl) \<inter> unsplit s = {} \<and>
     (\<forall>q \<in> set (frames pl). content s' q = zero_page) \<and>
     (\<forall>q \<in> owned s. content s' q = content s q)"

lemma more_gl_stateD:
  "pmem.more s = pmem.more s' \<Longrightarrow>
    gl_size s = gl_size s' \<and> gl_sa s = gl_sa s' \<and> gl_lock s = gl_lock s' \<and>
    gl_state.more s = gl_state.more s'"
  by (cases s; cases s') (simp add: gl_state.defs)

lemma gl_alloc_stack_pop:
  assumes "gl_inv s" "gl_sa s = pl # rest"
  shows "\<exists>s'. gl_alloc_stack ks m junk s = Some (0, Some pl, s') \<and> gl_inv s' \<and>
    stack_given s pl s' \<and> gl_state.more s' = gl_state.more s"
proof -
  let ?s = "s\<lparr>gl_size := gl_size s - 1, gl_sa := rest\<rparr>"
  have "gl_alloc_stack ks m junk s = Some (0, Some pl, ?s)"
    using assms by (simp add: gl_alloc_stack_def gl_spin_lock_def gl_spin_unlock_def gl_inv_def)
  moreover have "gl_inv ?s" "stack_given s pl ?s"
    using assms by (auto simp: gl_inv_def stack_given_def gl_frames_def owned_def)
  ultimately show ?thesis by auto
qed

lemma gl_unlock_noop [simp]: "\<not> gl_lock s \<Longrightarrow> s\<lparr>gl_lock := False\<rparr> = s"
  by (cases s) simp

lemma gl_inv_unsplit: "gl_inv s \<Longrightarrow> unsplit s \<subseteq> inuse s"
  by (auto simp: gl_inv_def owned_def)

definition stack_refused :: "'a gl_state_scheme \<Rightarrow> 'a gl_state_scheme \<Rightarrow> bool" where
  "stack_refused s s' \<longleftrightarrow> owned s' = owned s \<and> inuse s' = inuse s \<and> gl_sa s' = gl_sa s \<and>
     unsplit s' = unsplit s \<and> (\<forall>q \<in> owned s. content s' q = content s q)"

lemma gl_alloc_stack_fresh:
  assumes ks: "ksrc_ok ks" and inv: "gl_inv s" and e: "gl_sa s = []"
  shows "\<exists>err r s'. gl_alloc_stack ks m junk s = Some (err, r, s') \<and> gl_inv s' \<and>
    gl_state.more s' = gl_state.more s \<and>
    (case r of Some pl \<Rightarrow> err = 0 \<and> stack_given s pl s'
     | None \<Rightarrow> err = - ENOMEM \<and> stack_refused s s')"
proof (cases "ks_kmalloc ks (tick s)")
  case False
  then show ?thesis
    using inv e
    by (auto simp: gl_alloc_stack_def gl_spin_lock_def gl_spin_unlock_def gl_inv_def kmalloc_def
        owned_def gl_frames_def stack_refused_def)
next
  case True
  let ?s = "s\<lparr>tick := Suc (tick s)\<rparr>"
  have u: "unsplit ?s \<subseteq> inuse ?s"
    using gl_inv_unsplit [OF inv] by simp
  obtain err pl s' where
    run: "sa_pagelist_alloc_pages ks m GFP_KERNEL_ZERO STACK_PAGES junk ?s = Some (err, pl, s')"
    and out: "alloc_outcome GFP_KERNEL_ZERO STACK_PAGES ?s err pl s'"
    using sa_pagelist_alloc_pages_outcome [OF ks u] by blast
  have eq: "gl_alloc_stack ks m junk s =
      (if err \<noteq> 0 then Some (err, None, s') else Some (0, Some pl, s'))"
    using True e run inv
    by (simp add: gl_alloc_stack_def gl_spin_lock_def gl_spin_unlock_def kmalloc_def gl_inv_def
        STACK_PAGES_def [symmetric])
  from out have "pmem.more s' = pmem.more s"
    by (auto simp: alloc_outcome_def granted_def)
  then have gl: "gl_sa s' = []" "gl_size s' = gl_size s" "gl_lock s' = gl_lock s"
    and more: "gl_state.more s' = gl_state.more s"
    using e by (auto dest!: more_gl_stateD)
  have own: "owned s = inuse s" "owned s' = inuse s'" "gl_frames s' = []"
    using e gl by (simp_all add: owned_def gl_frames_def)
  consider (ok) "err = 0" "wf_pagelist STACK_PAGES pl" "granted GFP_KERNEL_ZERO s (frames pl) s'"
    | (fail) "err = - ENOMEM" "inuse s' = inuse s" "unsplit s' = unsplit s"
        "\<forall>q \<in> inuse s. content s' q = content s q"
    using out by (auto simp: alloc_outcome_def)
  then show ?thesis
  proof cases
    case ok
    have "gl_inv s'" "stack_given s pl s'"
      using ok inv own gl e granted_unsplit [OF ok(3) gl_inv_unsplit [OF inv]]
      by (auto simp: gl_inv_def stack_given_def granted_def GFP_KERNEL_ZERO_def)
    then show ?thesis using eq ok(1) more by simp
  next
    case fail
    have "gl_inv s'" "stack_refused s s'"
      using fail inv own gl e by (auto simp: gl_inv_def stack_refused_def)
    then show ?thesis using eq fail(1) more by simp
  qed
qed

lemma gl_alloc_stack_outcome:
  assumes "ksrc_ok ks" "gl_inv s"
  shows "\<exists>err r s'. gl_alloc_stack ks m junk s = Some (err, r, s') \<and> gl_inv s' \<and>
    gl_state.more s' = gl_state.more s \<and>
    (case r of Some pl \<Rightarrow> err = 0 \<and> stack_given s pl s'
     | None \<Rightarrow> err = - ENOMEM \<and> stack_refused s s')"
proof (cases "gl_sa s")
  case Nil
  with assms show ?thesis by (rule gl_alloc_stack_fresh)
next
  case (Cons pl rest)
  with assms(2) obtain s' where "gl_alloc_stack ks m junk s = Some (0, Some pl, s')" "gl_inv s'"
    "stack_given s pl s'" "gl_state.more s' = gl_state.more s"
    using gl_alloc_stack_pop by blast
  then show ?thesis by auto
qed

text \<open>A stack a client may give back.\<close>

definition held :: "'a gl_state_scheme \<Rightarrow> sa_pagelist \<Rightarrow> bool" where
  "held s pl \<longleftrightarrow> wf_pagelist STACK_PAGES pl \<and> set (frames pl) \<subseteq> owned s \<and>
     set (frames pl) \<inter> unsplit s = {}"

lemma stack_given_held: "stack_given s pl s' \<Longrightarrow> held s' pl"
  by (auto simp: stack_given_def held_def)

definition stack_returned :: "sa_pagelist \<Rightarrow> 'a gl_state_scheme \<Rightarrow> 'a gl_state_scheme \<Rightarrow> bool" where
  "stack_returned pl s s' \<longleftrightarrow> owned s' = owned s - set (frames pl) \<and> unsplit s' = unsplit s \<and>
     (\<forall>q \<in> owned s'. content s' q = content s q) \<and>
     (if gl_size s \<ge> GL_SA_CAPACITY
      then gl_sa s' = gl_sa s \<and> inuse s' = inuse s - set (frames pl)
      else gl_sa s' = pl # gl_sa s \<and> inuse s' = inuse s)"

lemma gl_free_outcome:
  assumes inv: "gl_inv s" and h: "held s pl"
  shows "\<exists>s'. gl_free pl s = Some s' \<and> gl_inv s' \<and> stack_returned pl s s' \<and>
    gl_state.more s' = gl_state.more s"
proof -
  have wf: "wf_pagelist STACK_PAGES pl" and sub: "set (frames pl) \<subseteq> inuse s"
    and dis: "set (frames pl) \<inter> unsplit s = {}" "set (frames pl) \<inter> set (gl_frames s) = {}"
    using h by (auto simp: held_def owned_def)
  show ?thesis
  proof (cases "gl_size s \<ge> GL_SA_CAPACITY")
    case True
    let ?s = "s\<lparr>inuse := inuse s - set (frames pl)\<rparr>"
    have "gl_free pl s = Some ?s"
      using True sa_pagelist_free_wf [OF wf sub dis(1)] by (simp add: gl_free_def)
    moreover have "gl_inv ?s" "stack_returned pl s ?s"
      using inv dis True by (auto simp: gl_inv_def owned_def gl_frames_def stack_returned_def)
    ultimately show ?thesis by auto
  next
    case False
    let ?c = "\<lambda>q. if q \<in> set (frames pl) then zero_page else content s q"
    let ?s = "s\<lparr>content := ?c, gl_size := gl_size s + 1, gl_sa := pl # gl_sa s\<rparr>"
    have "clear_pages_loop 0 (nat (nr_pages pl)) (the (pages pl)) s = Some (s\<lparr>content := ?c\<rparr>)"
      using wf sub clear_pages_loop_run [of 0 STACK_PAGES "frames pl" s "[]"]
      by (auto simp: wf_pagelist_def)
    then have "gl_free pl s = Some ?s"
      using False wf inv
      by (auto simp: gl_free_def gl_spin_lock_def gl_spin_unlock_def wf_pagelist_def gl_inv_def
          STACK_PAGES_eq)
    moreover have "gl_inv ?s" "stack_returned pl s ?s"
      using inv wf sub dis False
      by (auto simp: gl_inv_def owned_def gl_frames_def stack_returned_def wf_pagelist_def)
    ultimately show ?thesis by auto
  qed
qed

lemma held_kept:
  assumes "held s q"
  shows "stack_given s pl s' \<Longrightarrow> held s' q"
    and "stack_refused s s' \<Longrightarrow> held s' q"
    and "stack_returned pl s s' \<Longrightarrow> set (frames q) \<inter> set (frames pl) = {} \<Longrightarrow> held s' q"
  using assms unfolding held_def stack_given_def stack_refused_def stack_returned_def by blast+

lemma free_all_lists_run:
  assumes "\<forall>pl \<in> set pls. wf_pagelist STACK_PAGES pl" "distinct (concat (map frames pls))"
    "set (concat (map frames pls)) \<subseteq> inuse s" "set (concat (map frames pls)) \<inter> unsplit s = {}"
  shows "free_all_lists pls s = Some (s\<lparr>inuse := inuse s - set (concat (map frames pls))\<rparr>)"
  using assms
proof (induction pls arbitrary: s)
  case (Cons pl pls)
  let ?s = "s\<lparr>inuse := inuse s - set (frames pl)\<rparr>"
  have "sa_pagelist_free pl s = Some ?s"
    using Cons.prems by (intro sa_pagelist_free_wf) auto
  moreover have "free_all_lists pls ?s = Some (?s\<lparr>inuse := inuse ?s - set (concat (map frames pls))\<rparr>)"
    using Cons.prems by (intro Cons.IH) auto
  ultimately show ?case
    by (simp add: Diff_eq) (auto intro!: arg_cong2 [where f = inuse_update])
qed simp

lemma vma_free_outcome:
  assumes inv: "gl_inv s"
  shows "\<exists>s'. vma_free s = Some s' \<and> gl_inv s' \<and> gl_sa s' = [] \<and> gl_size s' = 0 \<and>
    inuse s' = owned s \<and> content s' = content s \<and> gl_state.more s' = gl_state.more s"
proof -
  let ?s = "s\<lparr>gl_sa := [], gl_size := 0\<rparr>"
  have "free_all_lists (gl_sa s) ?s = Some (?s\<lparr>inuse := inuse ?s - set (gl_frames s)\<rparr>)"
    unfolding gl_frames_def
    using inv by (intro free_all_lists_run) (auto simp: gl_inv_def gl_frames_def owned_def)
  then have "vma_free s = Some (?s\<lparr>inuse := owned s\<rparr>)"
    using inv by (simp add: vma_free_def gl_spin_lock_def gl_spin_unlock_def gl_inv_def owned_def Let_def)
  moreover have "gl_inv (?s\<lparr>inuse := owned s\<rparr>)"
    using inv by (auto simp: gl_inv_def owned_def gl_frames_def GL_SA_CAPACITY_def)
  ultimately show ?thesis by simp
qed

subsection \<open>The free list as a bank of stacks\<close>

text \<open>A client of the free list takes stacks and gives them back in any order. The laws it
  needs form the interface \<open>stack_bank\<close>; under them no frame is ever part of two
  stacks, and a client that gave everything back owns nothing.\<close>

datatype bank_op = Take | Give nat

fun bank_step ::
  "('s \<Rightarrow> (int \<times> sa_pagelist option \<times> 's) option) \<Rightarrow> (sa_pagelist \<Rightarrow> 's \<Rightarrow> 's option) \<Rightarrow>
   bank_op \<Rightarrow> sa_pagelist list \<times> 's \<Rightarrow> (sa_pagelist list \<times> 's) option" where
  "bank_step alloc free Take (ls, s) = do {
     (err, r, s) \<leftarrow> alloc s;
     Some (case r of None \<Rightarrow> ls | Some pl \<Rightarrow> pl # ls, s) }"
| "bank_step alloc free (Give i) (ls, s) =
     (if i < length ls then do {
        s \<leftarrow> free (ls ! i) s;
        Some (take i ls @ drop (Suc i) ls, s) }
      else Some (ls, s))"

fun bank_run ::
  "('s \<Rightarrow> (int \<times> sa_pagelist option \<times> 's) option) \<Rightarrow> (sa_pagelist \<Rightarrow> 's \<Rightarrow> 's option) \<Rightarrow>
   bank_op list \<Rightarrow> sa_pagelist list \<times> 's \<Rightarrow> (sa_pagelist list \<times> 's) option" where
  "bank_run alloc free [] c = Some c"
| "bank_run alloc free (x # xs) c = do { c \<leftarrow> bank_step alloc free x c; bank_run alloc free xs c }"

locale stack_bank =
  fixes inv :: "'s \<Rightarrow> bool"
    and own :: "'s \<Rightarrow> page set"
    and hold :: "'s \<Rightarrow> sa_pagelist \<Rightarrow> bool"
    and alloc :: "'s \<Rightarrow> (int \<times> sa_pagelist option \<times> 's) option"
    and free :: "sa_pagelist \<Rightarrow> 's \<Rightarrow> 's option"
  assumes hold_own: "hold s pl \<Longrightarrow> set (frames pl) \<subseteq> own s \<and> distinct (frames pl)"
    and alloc_law: "inv s \<Longrightarrow> \<exists>err r s'. alloc s = Some (err, r, s') \<and> inv s' \<and>
      (\<forall>q. hold s q \<longrightarrow> hold s' q) \<and>
      (case r of None \<Rightarrow> err < 0 \<and> own s' = own s
       | Some pl \<Rightarrow> err = 0 \<and> hold s' pl \<and> set (frames pl) \<inter> own s = {} \<and>
           own s' = own s \<union> set (frames pl))"
    and free_law: "inv s \<Longrightarrow> hold s pl \<Longrightarrow> \<exists>s'. free pl s = Some s' \<and> inv s' \<and>
      own s' = own s - set (frames pl) \<and>
      (\<forall>q. hold s q \<longrightarrow> set (frames q) \<inter> set (frames pl) = {} \<longrightarrow> hold s' q)"
begin

definition clients_ok :: "page set \<Rightarrow> sa_pagelist list \<Rightarrow> 's \<Rightarrow> bool" where
  "clients_ok base ls s \<longleftrightarrow> inv s \<and> (\<forall>pl \<in> set ls. hold s pl) \<and>
     distinct (concat (map frames ls)) \<and> set (concat (map frames ls)) \<inter> base = {} \<and>
     own s = base \<union> set (concat (map frames ls))"

lemma clients_ok_take:
  assumes "clients_ok base ls s"
  shows "\<exists>ls' s'. bank_step alloc free Take (ls, s) = Some (ls', s') \<and> clients_ok base ls' s'"
proof -
  obtain err r s' where a: "alloc s = Some (err, r, s')" "inv s'" "\<forall>q. hold s q \<longrightarrow> hold s' q"
    "case r of None \<Rightarrow> err < 0 \<and> own s' = own s
       | Some pl \<Rightarrow> err = 0 \<and> hold s' pl \<and> set (frames pl) \<inter> own s = {} \<and>
           own s' = own s \<union> set (frames pl)"
    using alloc_law assms unfolding clients_ok_def by blast
  then show ?thesis
    using assms hold_own [of s'] by (cases r) (auto simp: clients_ok_def)
qed

lemma clients_ok_give:
  assumes ok: "clients_ok base ls s"
  shows "\<exists>ls' s'. bank_step alloc free (Give i) (ls, s) = Some (ls', s') \<and> clients_ok base ls' s'"
proof (cases "i < length ls")
  case True
  then have ls: "ls = take i ls @ ls ! i # drop (Suc i) ls"
    by (simp add: id_take_nth_drop)
  define as bs pl where "as = take i ls" and "bs = drop (Suc i) ls" and "pl = ls ! i"
  have eq: "ls = as @ pl # bs"
    using ls by (simp add: as_def bs_def pl_def)
  have "inv s" "hold s pl"
    using ok eq by (auto simp: clients_ok_def)
  then obtain s' where f: "free pl s = Some s'" "inv s'" "own s' = own s - set (frames pl)"
    "\<forall>q. hold s q \<longrightarrow> set (frames q) \<inter> set (frames pl) = {} \<longrightarrow> hold s' q"
    using free_law by blast
  have ok': "clients_ok base (as @ pl # bs) s"
    using ok eq by simp
  then have d: "set (frames pl) \<inter> set (concat (map frames (as @ bs))) = {}"
    by (auto simp: clients_ok_def)
  then have "\<forall>q \<in> set (as @ bs). set (frames q) \<inter> set (frames pl) = {}"
    by auto
  then have "\<forall>q \<in> set (as @ bs). hold s' q"
    using f(4) ok' by (simp add: clients_ok_def)
  moreover have "own s' = base \<union> set (concat (map frames (as @ bs)))"
    using f(3) d ok' by (simp add: clients_ok_def) blast
  ultimately have "clients_ok base (as @ bs) s'"
    using f(2) ok' by (simp add: clients_ok_def) blast
  with True f(1) show ?thesis
    by (auto simp: as_def bs_def pl_def)
qed (use ok in auto)

lemma bank_run_ok:
  "clients_ok base ls s \<Longrightarrow>
    \<exists>ls' s'. bank_run alloc free ops (ls, s) = Some (ls', s') \<and> clients_ok base ls' s'"
proof (induction ops arbitrary: ls s)
  case (Cons x xs)
  then obtain ls1 s1 where "bank_step alloc free x (ls, s) = Some (ls1, s1)" "clients_ok base ls1 s1"
    using clients_ok_take clients_ok_give by (cases x) blast+
  with Cons.IH show ?case by auto
qed simp

end

interpretation gl: stack_bank "\<lambda>s. ksrc_ok ks \<and> gl_inv s" owned held "gl_alloc_stack ks m junk" gl_free
  for ks m junk
proof (unfold_locales, goal_cases)
  case (1 s pl)
  then show ?case by (simp add: held_def wf_pagelist_def)
next
  case (2 s)
  then obtain err r s' where "gl_alloc_stack ks m junk s = Some (err, r, s')" "gl_inv s'"
    "case r of Some pl \<Rightarrow> err = 0 \<and> stack_given s pl s'
     | None \<Rightarrow> err = - ENOMEM \<and> stack_refused s s'"
    using gl_alloc_stack_outcome by blast
  moreover from this(3) have "(\<forall>q. held s q \<longrightarrow> held s' q) \<and>
      (case r of None \<Rightarrow> err < 0 \<and> owned s' = owned s
       | Some pl \<Rightarrow> err = 0 \<and> held s' pl \<and> set (frames pl) \<inter> owned s = {} \<and>
           owned s' = owned s \<union> set (frames pl))"
    by (auto split: option.splits dest: stack_given_held held_kept(1,2))
      (auto simp: stack_given_def stack_refused_def)
  ultimately show ?case
    using 2 by blast
next
  case (3 s pl)
  then obtain s' where "gl_free pl s = Some s'" "gl_inv s'" "stack_returned pl s s'"
    using gl_free_outcome by blast
  moreover from this(3) have "owned s' = owned s - set (frames pl)"
    by (simp add: stack_returned_def)
  ultimately show ?case
    using 3 held_kept(3) by blast
qed

subsection \<open>Properties\<close>

text \<open>The stack on the frames of slot \<open>k\<close> of a linear layout.\<close>

definition slot_stack :: "nat \<Rightarrow> sa_pagelist" where
  "slot_stack k = \<lparr>nr_pages = 2048, pages = Some (map Some [k * 2048..<k * 2048 + 2048])\<rparr>"

lemma frames_slot_stack: "frames (slot_stack k) = [k * 2048..<k * 2048 + 2048]"
  by (rule frames_filled) (simp add: slot_stack_def)

lemma wf_slot_stack: "wf_pagelist 2048 (slot_stack k)"
  by (simp add: wf_pagelist_def frames_slot_stack) (simp add: slot_stack_def)

lemma set_slot_stack: "set (frames (slot_stack k)) = {k * 2048..<k * 2048 + 2048}"
  by (simp add: frames_slot_stack)

definition init_gl :: gl_state where
  "init_gl = \<lparr>inuse = {}, unsplit = {}, content = (\<lambda>_ _. 1), tick = 0,
     gl_size = 0, gl_sa = [], gl_lock = False\<rparr>"

lemma gl_inv_init_gl: "gl_inv init_gl"
  by (simp add: gl_inv_def init_gl_def owned_def gl_frames_def GL_SA_CAPACITY_def)

text \<open>C10: for any sequence of allocations and releases of stacks through
  \<open>gl_alloc_stack\<close> and \<open>gl_free\<close>, whatever the page allocator answers, no call is
  undefined, no two live stacks share a page, and every page in use that is not on the free
  list belongs to exactly the stacks still held (no leak).\<close>

theorem stacks_never_shared:
  assumes "ksrc_ok ks" and "gl_inv s"
  shows "\<exists>ls s'. bank_run (gl_alloc_stack ks m junk) gl_free ops ([], s) = Some (ls, s') \<and>
    gl_inv s' \<and> distinct (concat (map frames ls)) \<and>
    set (concat (map frames ls)) \<inter> owned s = {} \<and>
    owned s' = owned s \<union> set (concat (map frames ls))"
proof -
  have "gl.clients_ok ks (owned s) [] s"
    unfolding gl.clients_ok_def using assms by auto
  from gl.bank_run_ok [OF this] show ?thesis
    unfolding gl.clients_ok_def by blast
qed

theorem stacks_never_shared_witness:
  "\<exists>ls s'. bank_run (gl_alloc_stack bump_src 10 \<lparr>nr_pages = 0, pages = None\<rparr>) gl_free
      [Take, Take, Give 1, Take, Give 0] ([], init_gl) = Some (ls, s') \<and>
    gl_inv s' \<and> distinct (concat (map frames ls)) \<and>
    set (concat (map frames ls)) \<inter> owned init_gl = {} \<and>
    owned s' = owned init_gl \<union> set (concat (map frames ls))"
  by (rule stacks_never_shared [OF ksrc_ok_bump_src gl_inv_init_gl])

text \<open>C23: \<open>sa_pagelist_alloc_pages\<close> stays inside the page array for every request size
  and every answer of the allocator, and terminates; on success the array holds exactly the
  requested number of distinct fresh pages, on failure every page it had obtained is free
  again and the array is released.\<close>

theorem sa_pagelist_alloc_pages_correct:
  assumes "ksrc_ok ks" and "unsplit s \<subseteq> inuse s"
  shows "\<exists>err pl' s'. sa_pagelist_alloc_pages ks m g nr pl s = Some (err, pl', s') \<and>
    ((err = 0 \<and> wf_pagelist nr pl' \<and> set (frames pl') \<inter> inuse s = {} \<and>
      inuse s' = inuse s \<union> set (frames pl')) \<or>
     (err = - ENOMEM \<and> pages pl' = None \<and> inuse s' = inuse s))"
  using sa_pagelist_alloc_pages_outcome [OF assms, of m g nr pl]
  by (fastforce simp: alloc_outcome_def granted_def)

theorem sa_pagelist_alloc_pages_correct_witness:
  "\<exists>err pl' s'. sa_pagelist_alloc_pages empty_src 10 GFP_KERNEL_ZERO 5 \<lparr>nr_pages = 0, pages = None\<rparr>
      init_gl = Some (err, pl', s') \<and>
    ((err = 0 \<and> wf_pagelist 5 pl' \<and> set (frames pl') \<inter> inuse init_gl = {} \<and>
      inuse s' = inuse init_gl \<union> set (frames pl')) \<or>
     (err = - ENOMEM \<and> pages pl' = None \<and> inuse s' = inuse init_gl))"
  by (rule sa_pagelist_alloc_pages_correct [OF ksrc_ok_empty_src]) (simp add: init_gl_def)

text \<open>Releasing a stack that is held never has undefined behaviour, keeps the free list
  within its capacity with every parked page zeroed, and takes the stack's pages, and only
  those, away from their owner.\<close>

lemma gl_free_correct:
  assumes "gl_inv s" and "held s pl"
  shows "\<exists>s'. gl_free pl s = Some s' \<and> gl_inv s' \<and> owned s' = owned s - set (frames pl) \<and>
    (\<forall>q \<in> owned s'. content s' q = content s q) \<and>
    length (gl_sa s') = (if length (gl_sa s) = 128 then 128 else Suc (length (gl_sa s)))"
proof -
  obtain s' where "gl_free pl s = Some s'" "gl_inv s'" "stack_returned pl s s'"
    using gl_free_outcome [OF assms] by blast
  moreover have "gl_size s = int (length (gl_sa s))" "length (gl_sa s) \<le> 128"
    using assms(1) by (auto simp: gl_inv_def GL_SA_CAPACITY_def)
  ultimately show ?thesis
    by (auto simp: stack_returned_def GL_SA_CAPACITY_def split: if_splits)
qed

definition one_stack :: sa_pagelist where
  "one_stack = \<lparr>nr_pages = 2048, pages = Some (map Some [0..<2048])\<rparr>"

definition one_stack_gl :: gl_state where
  "one_stack_gl = init_gl\<lparr>inuse := {0..<2048}\<rparr>"

lemma frames_one_stack: "frames one_stack = [0..<2048]"
  by (rule frames_filled) (simp add: one_stack_def)

lemma wf_one_stack: "wf_pagelist 2048 one_stack"
  by (simp add: wf_pagelist_def frames_one_stack) (simp add: one_stack_def)

lemma gl_inv_one_stack_gl: "gl_inv one_stack_gl"
  by (simp add: gl_inv_def init_gl_def one_stack_gl_def owned_def gl_frames_def GL_SA_CAPACITY_def)

text \<open>Unloading the module empties the free list and frees exactly its pages.\<close>

lemma vma_free_correct:
  assumes "gl_inv s"
  shows "\<exists>s'. vma_free s = Some s' \<and> gl_sa s' = [] \<and> gl_size s' = 0 \<and> inuse s' = owned s \<and>
    (\<forall>q. content s' q = content s q)"
  using vma_free_outcome [OF assms] by auto

end
