(* ===== verification/Page_Tables.thy ===== *)
theory Page_Tables
  imports Page_Lists
begin

unbundle bit_operations_syntax

text \<open>
  The page tables of a process and the functions of \<^verbatim>\<open>lkm/core/api.c\<close> that map a
  shadow stack into them: \<open>map_range\<close> and its per-level helpers, \<open>unmap_range\<close>, and
  the table allocation wrappers of \<^verbatim>\<open>lkm/core/pt_bindings.h\<close>.

  Tables form a tree, so a table is a function from its index to an entry and a pointer to
  an entry (\<open>pmd_t *\<close>) is an index into the table at hand; \<open>pmd++\<close> is \<open>Suc\<close>.
  Dereferencing an index beyond the table is undefined. An entry is empty (\<open>pmd_none\<close>),
  bad (\<open>pmd_bad\<close>, for instance a huge page; stepping through it is undefined) or points
  to the next table. A page-table entry holds the frame it maps.

  x86-64 with and without five-level paging differ in the parameter \<open>l5\<close>
  (\<open>pgtable_l5_enabled()\<close>): without it the p4d level is folded into the pgd slot, which
  is then never \<open>pgd_none\<close>. Whether the kernel can allocate a table is the parameter
  \<open>ts\<close>, asked with the level and the number of earlier requests.
\<close>

datatype 'a entry = ENone | EBad | ETab 'a

type_synonym pte_tab = "nat \<Rightarrow> page option"
type_synonym pmd_tab = "nat \<Rightarrow> pte_tab entry"
type_synonym pud_tab = "nat \<Rightarrow> pmd_tab entry"
type_synonym p4d_tab = "nat \<Rightarrow> pud_tab entry"
type_synonym pgd_tab = "nat \<Rightarrow> p4d_tab entry"

datatype pt_level = L_pte | L_pmd | L_pud | L_p4d

type_synonym table_src = "pt_level \<Rightarrow> nat \<Rightarrow> bool"

record pt_counts =
  nr_ptes :: int
  nr_pmds :: int
  nr_puds :: int
  ptick :: nat

record vm_area =
  vm_start :: u64
  vm_end :: u64
  vm_growsdown :: bool

record mm_struct = pt_counts +
  pgd :: pgd_tab
  mmap_locked :: bool
  tlb_flushes :: "(u64 \<times> u64) list"
  start_stack :: u64
  arg_start :: u64
  arg_end :: u64
  env_start :: u64
  env_end :: u64
  saved_auxv :: "u64 list"
  mmap :: "vm_area list"

subsection \<open>Address arithmetic of the kernel headers\<close>

abbreviation PAGE_SIZE :: u64 where "PAGE_SIZE \<equiv> 4096"
abbreviation PMD_SHIFT :: nat where "PMD_SHIFT \<equiv> 21"
abbreviation PUD_SHIFT :: nat where "PUD_SHIFT \<equiv> 30"
abbreviation P4D_SHIFT :: nat where "P4D_SHIFT \<equiv> 39"
abbreviation PTRS :: nat where "PTRS \<equiv> 512"

definition PGDIR_SHIFT :: "bool \<Rightarrow> nat" where
  "PGDIR_SHIFT l5 = (if l5 then 48 else 39)"

definition PTRS_PER_P4D :: "bool \<Rightarrow> nat" where
  "PTRS_PER_P4D l5 = (if l5 then 512 else 1)"

definition level_mask :: "nat \<Rightarrow> u64" where
  "level_mask sh = NOT (mask sh)"

text \<open>\<open>pmd_addr_end\<close> and its kin: the next boundary of the level or \<open>end\<close>,
  whichever comes first; the subtraction of one makes an \<open>end\<close> of 0 mean \<open>2 ^ 64\<close>.\<close>

definition addr_end :: "nat \<Rightarrow> u64 \<Rightarrow> u64 \<Rightarrow> u64" where
  "addr_end sh addr e =
     (let boundary = (addr + 2 ^ sh) AND level_mask sh
      in if boundary - 1 < e - 1 then boundary else e)"

definition pt_index :: "nat \<Rightarrow> nat \<Rightarrow> u64 \<Rightarrow> nat" where
  "pt_index sh ptrs addr = unat (drop_bit sh addr) mod ptrs"

subsection \<open>Allocating a table where the entry is empty\<close>

text \<open>The kernel's \<open>__pte_alloc\<close> and its kin: install an empty table and count it.\<close>

definition pt_alloc ::
  "table_src \<Rightarrow> pt_level \<Rightarrow> 'c pt_counts_scheme \<Rightarrow> bool \<times> 'c pt_counts_scheme" where
  "pt_alloc ts l c =
     (let c' = c\<lparr>ptick := Suc (ptick c)\<rparr>
      in if ts l (ptick c)
         then (True, case l of L_pte \<Rightarrow> c'\<lparr>nr_ptes := nr_ptes c' + 1\<rparr>
                      | L_pmd \<Rightarrow> c'\<lparr>nr_pmds := nr_pmds c' + 1\<rparr>
                      | L_pud \<Rightarrow> c'\<lparr>nr_puds := nr_puds c' + 1\<rparr>
                      | L_p4d \<Rightarrow> c')
         else (False, c'))"

definition table_or_alloc ::
  "table_src \<Rightarrow> pt_level \<Rightarrow> 'a \<Rightarrow> 'a entry \<Rightarrow> 'c pt_counts_scheme \<Rightarrow>
   bool \<times> 'a entry \<times> 'c pt_counts_scheme" where
  "table_or_alloc ts l new e c =
     (if e = ENone then
        (case pt_alloc ts l c of
           (True, c) \<Rightarrow> (True, ETab new, c)
         | (False, c) \<Rightarrow> (False, e, c))
      else (True, e, c))"

definition tab_of :: "'a entry \<Rightarrow> 'a option" where
  "tab_of e = (case e of ETab t \<Rightarrow> Some t | _ \<Rightarrow> None)"

definition my_pte_alloc where
  "my_pte_alloc ts e c = table_or_alloc ts L_pte ((\<lambda>_. None) :: pte_tab) e c"

definition my_pmd_alloc where
  "my_pmd_alloc ts e c = table_or_alloc ts L_pmd ((\<lambda>_. ENone) :: pmd_tab) e c"

definition my_pud_alloc where
  "my_pud_alloc ts e c = table_or_alloc ts L_pud ((\<lambda>_. ENone) :: pud_tab) e c"

text \<open>Without five-level paging \<open>pgd_none\<close> is constantly false.\<close>

definition my_p4d_alloc where
  "my_p4d_alloc l5 ts e c =
     (if l5 then table_or_alloc ts L_p4d ((\<lambda>_. ENone) :: p4d_tab) e c else (True, e, c))"

subsection \<open>Mapping a range\<close>

text \<open>The last level: \<open>do \<dots> while (pte++, addr += PAGE_SIZE, addr != end)\<close>.\<close>

function map_pte_loop ::
  "page option list \<Rightarrow> u64 \<Rightarrow> u64 \<Rightarrow> nat \<Rightarrow> u64 \<Rightarrow> pte_tab \<Rightarrow> pte_tab option" where
  "map_pte_loop ps start e idx addr t =
     (if idx < PTRS then
        (case aget ps (unat (drop_bit PAGE_SHIFT (addr - start))) of
           Some (Some p) \<Rightarrow>
             (if addr + PAGE_SIZE = e then Some (t(idx := Some p))
              else map_pte_loop ps start e (Suc idx) (addr + PAGE_SIZE) (t(idx := Some p)))
         | _ \<Rightarrow> None)
      else None)"
  by pat_completeness auto
termination
  by (relation "measure (\<lambda>(ps, start, e, idx, addr, t). PTRS - idx)") auto

declare map_pte_loop.simps [simp del]

definition map_pte_range ::
  "table_src \<Rightarrow> page option list \<Rightarrow> u64 \<Rightarrow> u64 \<Rightarrow> u64 \<Rightarrow> pte_tab entry \<Rightarrow> 'c pt_counts_scheme \<Rightarrow>
   (int \<times> pte_tab entry \<times> 'c pt_counts_scheme) option" where
  "map_pte_range ts ps start addr e ent c =
     (case my_pte_alloc ts ent c of
        (False, ent, c) \<Rightarrow> Some (- ENOMEM, ent, c)
      | (True, ent, c) \<Rightarrow> do {
          t \<leftarrow> tab_of ent;
          t \<leftarrow> map_pte_loop ps start e (pt_index PAGE_SHIFT PTRS addr) addr t;
          Some (0, ETab t, c) })"

text \<open>The loop the four upper levels share,
  \<open>do { next = p?d_addr_end(addr, end); if (body) return -ENOMEM; }
  while (p?d++, addr = next, addr != end)\<close>: \<open>body\<close> handles one entry and the range
  below it.\<close>

function level_loop ::
  "nat \<Rightarrow> nat \<Rightarrow> (u64 \<Rightarrow> u64 \<Rightarrow> 'e \<Rightarrow> 'c \<Rightarrow> (int \<times> 'e \<times> 'c) option) \<Rightarrow>
   u64 \<Rightarrow> nat \<Rightarrow> u64 \<Rightarrow> (nat \<Rightarrow> 'e) \<Rightarrow> 'c \<Rightarrow> (int \<times> (nat \<Rightarrow> 'e) \<times> 'c) option" where
  "level_loop sh ptrs body e idx addr t c =
     (if idx < ptrs then
        (case body addr (addr_end sh addr e) (t idx) c of
           None \<Rightarrow> None
         | Some (err, ent, c) \<Rightarrow>
             if err \<noteq> 0 then Some (- ENOMEM, t(idx := ent), c)
             else if addr_end sh addr e = e then Some (0, t(idx := ent), c)
             else level_loop sh ptrs body e (Suc idx) (addr_end sh addr e) (t(idx := ent)) c)
      else None)"
  by pat_completeness auto
termination
  by (relation "measure (\<lambda>(sh, ptrs, body, e, idx, addr, t, c). ptrs - idx)") auto

declare level_loop.simps [simp del]

definition map_pmd_range ::
  "table_src \<Rightarrow> page option list \<Rightarrow> u64 \<Rightarrow> u64 \<Rightarrow> u64 \<Rightarrow> pmd_tab entry \<Rightarrow> 'c pt_counts_scheme \<Rightarrow>
   (int \<times> pmd_tab entry \<times> 'c pt_counts_scheme) option" where
  "map_pmd_range ts ps start addr e ent c =
     (case my_pmd_alloc ts ent c of
        (False, ent, c) \<Rightarrow> Some (- ENOMEM, ent, c)
      | (True, ent, c) \<Rightarrow> do {
          t \<leftarrow> tab_of ent;
          (err, t, c) \<leftarrow> level_loop PMD_SHIFT PTRS (map_pte_range ts ps start) e
                           (pt_index PMD_SHIFT PTRS addr) addr t c;
          Some (err, ETab t, c) })"

definition map_pud_range ::
  "table_src \<Rightarrow> page option list \<Rightarrow> u64 \<Rightarrow> u64 \<Rightarrow> u64 \<Rightarrow> pud_tab entry \<Rightarrow> 'c pt_counts_scheme \<Rightarrow>
   (int \<times> pud_tab entry \<times> 'c pt_counts_scheme) option" where
  "map_pud_range ts ps start addr e ent c =
     (case my_pud_alloc ts ent c of
        (False, ent, c) \<Rightarrow> Some (- ENOMEM, ent, c)
      | (True, ent, c) \<Rightarrow> do {
          t \<leftarrow> tab_of ent;
          (err, t, c) \<leftarrow> level_loop PUD_SHIFT PTRS (map_pmd_range ts ps start) e
                           (pt_index PUD_SHIFT PTRS addr) addr t c;
          Some (err, ETab t, c) })"

definition map_p4d_range ::
  "bool \<Rightarrow> table_src \<Rightarrow> page option list \<Rightarrow> u64 \<Rightarrow> u64 \<Rightarrow> u64 \<Rightarrow> p4d_tab entry \<Rightarrow>
   'c pt_counts_scheme \<Rightarrow> (int \<times> p4d_tab entry \<times> 'c pt_counts_scheme) option" where
  "map_p4d_range l5 ts ps start addr e ent c =
     (case my_p4d_alloc l5 ts ent c of
        (False, ent, c) \<Rightarrow> Some (- ENOMEM, ent, c)
      | (True, ent, c) \<Rightarrow> do {
          t \<leftarrow> tab_of ent;
          (err, t, c) \<leftarrow> level_loop P4D_SHIFT (PTRS_PER_P4D l5) (map_pud_range ts ps start) e
                           (pt_index P4D_SHIFT (PTRS_PER_P4D l5) addr) addr t c;
          Some (err, ETab t, c) })"

text \<open>\<open>unmap_range\<close> only invalidates the TLB: the call that would clear the page-table
  entries is commented out in the source.\<close>

definition flush_tlb_mm_range :: "u64 \<Rightarrow> u64 \<Rightarrow> mm_struct \<Rightarrow> mm_struct" where
  "flush_tlb_mm_range addr e mm = mm\<lparr>tlb_flushes := tlb_flushes mm @ [(addr, e)]\<rparr>"

definition my_flush_tlb_mm :: "mm_struct \<Rightarrow> mm_struct" where
  "my_flush_tlb_mm mm = flush_tlb_mm_range 0 (- 1) mm"

definition unmap_range :: "u64 \<Rightarrow> u64 \<Rightarrow> mm_struct \<Rightarrow> mm_struct option" where
  "unmap_range addr e mm = do {
     ensure (mmap_locked mm);
     Some (flush_tlb_mm_range addr e mm) }"

text \<open>The top loop also yields the \<open>next\<close> at which it stopped: the failure path flushes
  the range from \<open>start\<close> to it.\<close>

function map_pgd_loop ::
  "bool \<Rightarrow> table_src \<Rightarrow> page option list \<Rightarrow> u64 \<Rightarrow> u64 \<Rightarrow> nat \<Rightarrow> u64 \<Rightarrow> pgd_tab \<Rightarrow>
   'c pt_counts_scheme \<Rightarrow> (int \<times> u64 \<times> pgd_tab \<times> 'c pt_counts_scheme) option" where
  "map_pgd_loop l5 ts ps start e idx addr t c =
     (if idx < PTRS then
        (case map_p4d_range l5 ts ps start addr (addr_end (PGDIR_SHIFT l5) addr e) (t idx) c of
           None \<Rightarrow> None
         | Some (err, ent, c) \<Rightarrow>
             if err \<noteq> 0 then Some (err, addr_end (PGDIR_SHIFT l5) addr e, t(idx := ent), c)
             else if addr_end (PGDIR_SHIFT l5) addr e = e then Some (0, e, t(idx := ent), c)
             else map_pgd_loop l5 ts ps start e (Suc idx) (addr_end (PGDIR_SHIFT l5) addr e)
                    (t(idx := ent)) c)
      else None)"
  by pat_completeness auto
termination
  by (relation "measure (\<lambda>(l5, ts, ps, start, e, idx, addr, t, c). PTRS - idx)") auto

declare map_pgd_loop.simps [simp del]

definition map_range ::
  "bool \<Rightarrow> table_src \<Rightarrow> u64 \<Rightarrow> u64 \<Rightarrow> sa_pagelist \<Rightarrow> mm_struct \<Rightarrow> (int \<times> mm_struct) option" where
  "map_range l5 ts addr e pl mm = do {
     ensure (mmap_locked mm);
     ps \<leftarrow> pages pl;
     (err, nxt, t, mm) \<leftarrow> map_pgd_loop l5 ts ps addr e
                            (pt_index (PGDIR_SHIFT l5) PTRS addr) addr (pgd mm) mm;
     let mm = mm\<lparr>pgd := t\<rparr>;
     if err < 0 then do { mm \<leftarrow> unmap_range addr nxt mm; Some (err, mm) }
     else Some (err, mm) }"

subsection \<open>The reference: translating an address through the tables\<close>

definition look_pte :: "pte_tab entry \<Rightarrow> u64 \<Rightarrow> page option" where
  "look_pte ent a = (case ent of ETab t \<Rightarrow> t (pt_index PAGE_SHIFT PTRS a) | _ \<Rightarrow> None)"

definition look_tab :: "nat \<Rightarrow> nat \<Rightarrow> ('e \<Rightarrow> u64 \<Rightarrow> page option) \<Rightarrow> (nat \<Rightarrow> 'e) entry \<Rightarrow> u64 \<Rightarrow> page option" where
  "look_tab sh ptrs look ent a =
     (case ent of ETab t \<Rightarrow> look (t (pt_index sh ptrs a)) a | _ \<Rightarrow> None)"

definition look_pmd where "look_pmd = look_tab PMD_SHIFT PTRS look_pte"
definition look_pud where "look_pud = look_tab PUD_SHIFT PTRS look_pmd"
definition look_p4d where "look_p4d l5 = look_tab P4D_SHIFT (PTRS_PER_P4D l5) look_pud"

definition translate :: "bool \<Rightarrow> pgd_tab \<Rightarrow> u64 \<Rightarrow> page option" where
  "translate l5 t a = look_p4d l5 (t (pt_index (PGDIR_SHIFT l5) PTRS a)) a"

subsection \<open>Blocks and indices\<close>

lemma unat_pow2 [simp]: "sh < 64 \<Longrightarrow> unat (2 ^ sh :: u64) = 2 ^ sh"
proof -
  assume "sh < 64"
  then have "(2 :: nat) ^ sh < 2 ^ 64" by (intro power_strict_increasing) auto
  then show ?thesis using unat_of_nat [of "2 ^ sh", where 'a = 64] by simp
qed

lemma pt_index_eq: "pt_index sh ptrs a = (unat a div 2 ^ sh) mod ptrs"
  by (simp only: pt_index_def unat_drop_bit_eq) (simp add: drop_bit_eq_div)

text \<open>The end of a block: it never exceeds the address space.\<close>

lemma next_block_le:
  fixes A :: nat
  assumes "A < 2 ^ 64" "sh < 64"
  shows "Suc (A div 2 ^ sh) * 2 ^ sh \<le> 2 ^ 64"
    and "Suc (A div 2 ^ sh) * 2 ^ sh \<noteq> 2 ^ 64 \<Longrightarrow> A + 2 ^ sh < 2 ^ 64"
proof -
  have split: "(2 :: nat) ^ 64 = 2 ^ (64 - sh) * 2 ^ sh"
    using assms(2) by (simp flip: power_add)
  then have "A div 2 ^ sh < 2 ^ (64 - sh)"
    using assms(1) by (intro less_mult_imp_div_less) simp
  then have "Suc (A div 2 ^ sh) * 2 ^ sh \<le> 2 ^ (64 - sh) * 2 ^ sh"
    by (intro mult_le_mono1) simp
  then show "Suc (A div 2 ^ sh) * 2 ^ sh \<le> 2 ^ 64"
    by (simp only: split)
  assume "Suc (A div 2 ^ sh) * 2 ^ sh \<noteq> 2 ^ 64"
  then have "Suc (A div 2 ^ sh) \<noteq> 2 ^ (64 - sh)"
    by (metis split)
  then have "Suc (Suc (A div 2 ^ sh)) * 2 ^ sh \<le> 2 ^ (64 - sh) * 2 ^ sh"
    using \<open>A div 2 ^ sh < 2 ^ (64 - sh)\<close> by (intro mult_le_mono1) simp
  moreover have "A < Suc (A div 2 ^ sh) * 2 ^ sh"
    by (metis dividend_less_div_times mult.commute mult_Suc zero_less_numeral zero_less_power)
  ultimately show "A + 2 ^ sh < 2 ^ 64"
    by (simp only: split) simp
qed

lemma idx_eq_iff:
  fixes x y B K :: nat
  assumes "x div (B * K) = y div (B * K)"
  shows "(x div B) mod K = (y div B) mod K \<longleftrightarrow> x div B = y div B"
  using assms by (metis div_mult2_eq div_mult_mod_eq)

lemma idx_Suc:
  fixes a n B K :: nat
  assumes "n div B = Suc (a div B)" "n div (B * K) = a div (B * K)"
  shows "(n div B) mod K = Suc ((a div B) mod K)"
proof -
  have "n div B div K = a div B div K"
    using assms(2) by (simp add: div_mult2_eq)
  then show ?thesis
    using assms(1) by (metis div_Suc mod_Suc n_not_Suc_n)
qed

lemma addr_end_unat:
  assumes "a < e" "sh < 64"
  shows "unat (addr_end sh a e) = min (unat e) (Suc (unat a div 2 ^ sh) * 2 ^ sh)"
proof -
  let ?b = "(a + 2 ^ sh) AND level_mask sh"
  let ?B = "Suc (unat a div 2 ^ sh) * 2 ^ sh"
  have lt: "unat a < unat e" "unat e < 2 ^ 64" "unat a < 2 ^ 64"
    using assms(1) u64_bound [of e] u64_bound [of a] by (simp_all add: word_less_nat_alt)
  then have e1: "unat (e - 1) = unat e - 1"
    by (intro unat_minus_one) auto
  have B: "?B \<le> 2 ^ 64"
    using lt(3) assms(2) by (rule next_block_le(1))
  have b: "unat ?b = ((unat a + 2 ^ sh) mod 2 ^ 64) div 2 ^ sh * 2 ^ sh"
    using assms(2) by (simp add: level_mask_def unat_and_not_mask unat_word_ariths)
  have lo: "?B \<le> unat a + 2 ^ sh"
    by simp
  show ?thesis
  proof (cases "?B = 2 ^ 64")
    case True
    then have "(unat a + 2 ^ sh) mod 2 ^ 64 = unat a + 2 ^ sh - 2 ^ 64"
      using lo lt assms(2) by (subst le_mod_geq) (auto simp: power_strict_increasing less_imp_le)
    also have "\<dots> < 2 ^ sh"
      using lt lo True by linarith
    finally have "?b = 0"
      using b by (metis div_less mult_0 unat_eq_zero)
    then show ?thesis
      using True lt by (simp add: addr_end_def min_def leD [OF word_m1_ge])
  next
    case False
    with lt(3) assms(2) have "unat a + 2 ^ sh < 2 ^ 64"
      by (rule next_block_le(2))
    then have ub: "unat ?b = ?B"
      using b by (simp add: div_add_self2)
    moreover have "unat (?b - 1) = ?B - 1"
      using ub by (subst unat_minus_one) auto
    moreover have "?B - 1 < unat e - 1 \<longleftrightarrow> ?B < unat e"
      using lt(1) by (intro less_diff_iff) (auto simp: Suc_le_eq)
    ultimately show ?thesis
      using lt e1 by (simp add: addr_end_def word_less_nat_alt Let_def min_def)
  qed
qed

lemma addr_end_step:
  assumes "a < e" "sh < 64" "n = addr_end sh a e"
  shows "a < n" "n \<le> e" "(unat n - 1) div 2 ^ sh = unat a div 2 ^ sh"
    "n \<noteq> e \<Longrightarrow> unat n = Suc (unat a div 2 ^ sh) * 2 ^ sh"
proof -
  let ?B = "Suc (unat a div 2 ^ sh) * 2 ^ sh"
  have n: "unat n = min (unat e) ?B"
    using assms addr_end_unat by simp
  have hi: "unat a < ?B"
    by (metis dividend_less_div_times mult.commute mult_Suc zero_less_numeral zero_less_power)
  have lt: "unat a < unat e"
    using assms(1) by (simp add: word_less_nat_alt)
  show "a < n" "n \<le> e"
    using n hi lt by (simp_all add: word_less_nat_alt word_le_nat_alt)
  show "n \<noteq> e \<Longrightarrow> unat n = ?B"
    using n by (metis min_def word_unat_eq_iff)
  have "unat a \<le> unat n - 1" "unat n - 1 < ?B"
    using n hi lt by auto
  then show "(unat n - 1) div 2 ^ sh = unat a div 2 ^ sh"
    by (metis div_le_mono le_antisym less_Suc_eq_le less_mult_imp_div_less)
qed

lemma block_between:
  fixes a x n :: u64
  assumes "a \<le> x" "x < n" "(unat n - 1) div 2 ^ sh = unat a div 2 ^ sh"
  shows "unat x div 2 ^ sh = unat a div 2 ^ sh"
proof (rule antisym)
  show "unat x div 2 ^ sh \<le> unat a div 2 ^ sh"
    using assms div_le_mono [of "unat x" "unat n - 1" "2 ^ sh"] by (simp add: word_less_nat_alt)
  show "unat a div 2 ^ sh \<le> unat x div 2 ^ sh"
    using assms(1) by (simp add: word_le_nat_alt div_le_mono)
qed

subsection \<open>What mapping a range does to the translation\<close>

text \<open>\<open>upd_at err a n x pg old new\<close>: how the translation of \<open>x\<close> may change when
  \<open>[a, n)\<close> is mapped. Outside the range it stays; inside, it is the new page on success
  and either the old or the new one on failure. \<open>maps_to\<close> says that a level function
  (\<open>body\<close>) is defined on every entry satisfying \<open>W\<close> and changes the translation
  below the entry (\<open>look\<close>) that way and nothing else (\<open>fr\<close>).\<close>

definition upd_at :: "int \<Rightarrow> u64 \<Rightarrow> u64 \<Rightarrow> u64 \<Rightarrow> page option \<Rightarrow> page option \<Rightarrow> page option \<Rightarrow> bool" where
  "upd_at err a n x pg old new \<longleftrightarrow>
     (if a \<le> x \<and> x < n then (if err = 0 then new = pg else new = old \<or> new = pg) else new = old)"

definition maps_to ::
  "nat \<Rightarrow> ('e \<Rightarrow> bool) \<Rightarrow> ('e \<Rightarrow> u64 \<Rightarrow> page option) \<Rightarrow> ('c \<Rightarrow> 'f) \<Rightarrow> (u64 \<Rightarrow> page option) \<Rightarrow> u64 \<Rightarrow> u64 \<Rightarrow>
   (u64 \<Rightarrow> u64 \<Rightarrow> 'e \<Rightarrow> 'c \<Rightarrow> (int \<times> 'e \<times> 'c) option) \<Rightarrow> bool" where
  "maps_to sh W look fr pg lo hi body \<longleftrightarrow>
     (\<forall>a n ent c. W ent \<longrightarrow> a < n \<longrightarrow> lo \<le> a \<longrightarrow> n \<le> hi \<longrightarrow> 4096 dvd unat a \<longrightarrow> 4096 dvd unat n \<longrightarrow>
        (unat n - 1) div 2 ^ sh = unat a div 2 ^ sh \<longrightarrow>
        (\<exists>err ent' c'. body a n ent c = Some (err, ent', c') \<and> W ent' \<and> fr c' = fr c \<and>
           (err = 0 \<or> err = - ENOMEM) \<and>
           (\<forall>x. unat x div 2 ^ sh = unat a div 2 ^ sh \<longrightarrow>
              upd_at err a n x (pg x) (look ent x) (look ent' x))))"

lemma maps_toD:
  assumes "maps_to sh W look fr pg lo hi body" "W ent" "a < n" "lo \<le> a" "n \<le> hi"
    "4096 dvd unat a" "4096 dvd unat n" "(unat n - 1) div 2 ^ sh = unat a div 2 ^ sh"
  obtains err ent' c' where "body a n ent c = Some (err, ent', c')" "W ent'" "fr c' = fr c"
    "err = 0 \<or> err = - ENOMEM"
    "\<And>x. unat x div 2 ^ sh = unat a div 2 ^ sh \<Longrightarrow>
       upd_at err a n x (pg x) (look ent x) (look ent' x)"
  using assms unfolding maps_to_def by blast

lemma level_loop_maps:
  fixes a e lo hi :: u64
  assumes "maps_to sh W look fr pg lo hi body"
    and "12 \<le> sh" "sh < 64" "ptrs = 2 ^ k"
    and "a < e" "lo \<le> a" "e \<le> hi" "4096 dvd unat a" "4096 dvd unat e"
    and "(unat e - 1) div 2 ^ (sh + k) = unat a div 2 ^ (sh + k)"
    and "\<forall>i. W (t i)" and "idx = pt_index sh ptrs a"
  shows "\<exists>err t' c'. level_loop sh ptrs body e idx a t c = Some (err, t', c') \<and>
    (\<forall>i. W (t' i)) \<and> fr c' = fr c \<and> (err = 0 \<or> err = - ENOMEM) \<and>
    (\<forall>x. unat x div 2 ^ (sh + k) = unat a div 2 ^ (sh + k) \<longrightarrow>
       upd_at err a e x (pg x) (look (t (pt_index sh ptrs x)) x) (look (t' (pt_index sh ptrs x)) x))"
  using assms
proof (induction sh ptrs body e idx a t c rule: level_loop.induct)
  case (1 sh ptrs body e idx a t c)
  let ?n = "addr_end sh a e"
  let ?ix = "pt_index sh ptrs"
  let ?blk = "\<lambda>x. unat x div 2 ^ (sh + k) = unat a div 2 ^ (sh + k)"
  have blk: "?blk x \<Longrightarrow> ?ix x = idx \<longleftrightarrow> unat x div 2 ^ sh = unat a div 2 ^ sh" for x
    using "1.prems"(4,12) idx_eq_iff [of "unat x" "2 ^ sh" "2 ^ k" "unat a"]
    by (simp add: pt_index_eq power_add)
  have idx: "idx < ptrs"
    using "1.prems"(4,12) by (simp add: pt_index_eq)
  note step = addr_end_step [OF "1.prems"(5,3) refl]
  have "(4096 :: nat) dvd 2 ^ sh"
    using le_imp_power_dvd [OF "1.prems"(2), of "2 :: nat"] by simp
  then have al: "4096 dvd unat ?n"
    using step(4) "1.prems"(9) by (cases "?n = e") (auto intro: dvd_mult)
  obtain err ent c' where body: "body a ?n (t idx) c = Some (err, ent, c')" "W ent" "fr c' = fr c"
      and err: "err = 0 \<or> err = - ENOMEM"
      and upd: "\<And>x. unat x div 2 ^ sh = unat a div 2 ^ sh \<Longrightarrow>
        upd_at err a ?n x (pg x) (look (t idx) x) (look ent x)"
    using "1.prems" step al by (elim maps_toD [where ent = "t idx" and c = c]) (auto intro: order_trans)
  have inside: "unat x div 2 ^ sh = unat a div 2 ^ sh" if "a \<le> x" "x < ?n" for x
    using that step(3) block_between [of a x ?n sh] by simp
  show ?case
  proof (cases "err \<noteq> 0 \<or> ?n = e")
    case True
    have "level_loop sh ptrs body e idx a t c = Some (err, t(idx := ent), c')"
      using True idx body(1) err by (subst level_loop.simps) auto
    moreover have "upd_at err a e x (pg x) (look (t (?ix x)) x) (look ((t(idx := ent)) (?ix x)) x)"
      if "?blk x" for x
      using that upd [of x] blk [of x] inside [of x] True step(2)
      by (cases "?ix x = idx") (auto simp: upd_at_def split: if_splits)
    moreover have "\<forall>i. W ((t(idx := ent)) i)"
      using body(2) "1.prems"(11) by simp
    ultimately show ?thesis
      using body(3) err by blast
  next
    case False
    have n: "unat ?n div 2 ^ sh = Suc (unat a div 2 ^ sh)" "?n < e"
      using False step(2,4) by auto
    have nblk: "?blk ?n"
      using block_between [of a ?n e "sh + k"] step(1) n(2) "1.prems"(10) by simp
    have ix: "?ix ?n = Suc idx"
      using idx_Suc [OF n(1), of "2 ^ k"] nblk "1.prems"(4,12) by (simp add: pt_index_eq power_add)
    have err0: "err = 0" using False err by simp
    have eb: "(unat e - 1) div 2 ^ (sh + k) = unat ?n div 2 ^ (sh + k)"
      using "1.prems"(10) nblk by simp
    have "\<exists>err' t' c''. level_loop sh ptrs body e (Suc idx) ?n (t(idx := ent)) c' = Some (err', t', c'') \<and>
      (\<forall>i. W (t' i)) \<and> fr c'' = fr c' \<and> (err' = 0 \<or> err' = - ENOMEM) \<and>
      (\<forall>x. unat x div 2 ^ (sh + k) = unat ?n div 2 ^ (sh + k) \<longrightarrow>
       upd_at err' ?n e x (pg x) (look ((t(idx := ent)) (?ix x)) x) (look (t' (?ix x)) x))"
      using "1.prems" body(2) step(1) n(2) al eb ix err0 False idx
      by (intro "1.IH" [OF idx body(1) refl refl]) (auto intro: order_trans less_imp_le)
    then obtain err' t' c'' where
      rec: "level_loop sh ptrs body e (Suc idx) ?n (t(idx := ent)) c' = Some (err', t', c'')"
      and r: "\<forall>i. W (t' i)" "fr c'' = fr c'" "err' = 0 \<or> err' = - ENOMEM"
      and upd': "\<And>x. ?blk x \<Longrightarrow>
       upd_at err' ?n e x (pg x) (look ((t(idx := ent)) (?ix x)) x) (look (t' (?ix x)) x)"
      using nblk by auto
    have "level_loop sh ptrs body e idx a t c = Some (err', t', c'')"
      using False idx body(1) err0 rec by (subst level_loop.simps) auto
    moreover have "upd_at err' a e x (pg x) (look (t (?ix x)) x) (look (t' (?ix x)) x)"
      if "?blk x" for x
      using upd' [OF that] upd [of x] blk [OF that] inside [of x] err0 step(1) n(2)
      by (cases "?ix x = idx") (auto simp: upd_at_def not_le split: if_splits)
    ultimately show ?thesis
      using r body(3) by auto
  qed
qed

subsection \<open>The last level\<close>

definition page_at :: "page option list \<Rightarrow> u64 \<Rightarrow> u64 \<Rightarrow> page option" where
  "page_at ps lo x = ps ! (unat (x - lo) div 4096)"

definition covers :: "page option list \<Rightarrow> u64 \<Rightarrow> u64 \<Rightarrow> bool" where
  "covers ps lo hi \<longleftrightarrow> 4096 dvd unat lo \<and>
     (\<forall>x. lo \<le> x \<longrightarrow> x < hi \<longrightarrow>
        unat (x - lo) div 4096 < length ps \<and> page_at ps lo x \<noteq> None)"

lemma page_at_block:
  assumes "4096 dvd unat lo" "lo \<le> a" "lo \<le> x" "unat x div 4096 = unat a div 4096"
  shows "page_at ps lo x = page_at ps lo a"
proof -
  obtain k where k: "unat lo = 4096 * k" using assms(1) by (elim dvdE)
  have "unat (x - lo) div 4096 = unat x div 4096 - k" if "lo \<le> x" for x
    using that k by (simp add: unat_sub)
  with assms show ?thesis by (simp add: page_at_def)
qed

lemma unat_add_page: "unat a + 4096 < 2 ^ 64 \<Longrightarrow> unat (a + 4096 :: u64) = unat a + 4096"
  by (simp add: unat_word_ariths)

lemma dvd_step:
  fixes a e :: nat
  assumes "4096 dvd a" "4096 dvd e" "a < e"
  shows "a + 4096 \<le> e"
  using assms by (elim dvdE) auto

lemma map_pte_loop_maps:
  assumes "covers ps lo hi" "a < e" "lo \<le> a" "e \<le> hi" "4096 dvd unat a" "4096 dvd unat e"
    "(unat e - 1) div 2 ^ 21 = unat a div 2 ^ 21" "idx = pt_index 12 512 a"
  shows "\<exists>t'. map_pte_loop ps lo e idx a t = Some t' \<and>
    (\<forall>x. unat x div 2 ^ 21 = unat a div 2 ^ 21 \<longrightarrow>
       upd_at 0 a e x (page_at ps lo x) (t (pt_index 12 512 x)) (t' (pt_index 12 512 x)))"
  using assms
proof (induction ps lo e idx a t rule: map_pte_loop.induct)
  case (1 ps lo e idx a t)
  let ?ix = "pt_index 12 512"
  let ?blk = "\<lambda>x. unat x div 2 ^ 21 = unat a div 2 ^ 21"
  let ?n = "a + PAGE_SIZE"
  have lt: "unat a < unat e" using "1.prems"(2) by (simp add: word_less_nat_alt)
  then have le: "unat a + 4096 \<le> unat e" using "1.prems"(5,6) by (intro dvd_step)
  then have n: "unat ?n = unat a + 4096"
    using u64_bound [of e] by (cases "unat a + 4096 = 2 ^ 64") (auto intro: unat_add_page)
  have blk: "?blk x \<Longrightarrow> ?ix x = idx \<longleftrightarrow> unat x div 2 ^ 12 = unat a div 2 ^ 12" for x
    using "1.prems"(8) idx_eq_iff [of "unat x" "2 ^ 12" "2 ^ 9" "unat a"]
    by (simp add: pt_index_eq)
  have idx: "idx < PTRS" using "1.prems"(8) by (simp add: pt_index_eq)
  have inpage: "unat x div 2 ^ 12 = unat a div 2 ^ 12 \<longleftrightarrow> a \<le> x \<and> x < ?n" for x
    using "1.prems"(5) n by (auto simp: word_le_nat_alt word_less_nat_alt)
  obtain p where p: "page_at ps lo a = Some p" "unat (a - lo) div 4096 < length ps"
    using "1.prems"(1-4) unfolding covers_def by (meson less_le_trans not_Some_eq)
  then have get: "aget ps (unat (drop_bit PAGE_SHIFT (a - lo))) = Some (Some p)"
    by (simp add: page_at_def unat_drop_bit_eq drop_bit_eq_div unat_div)
  have pg: "page_at ps lo x = Some p" if "a \<le> x" "x < ?n" for x
    using that p(1) "1.prems"(1,3) inpage [of x] page_at_block [of lo a x ps]
    by (auto simp: covers_def)
  show ?case
  proof (cases "?n = e")
    case True
    have "map_pte_loop ps lo e idx a t = Some (t(idx := Some p))"
      using True idx get by (subst map_pte_loop.simps) simp
    moreover have "upd_at 0 a e x (page_at ps lo x) (t (?ix x)) ((t(idx := Some p)) (?ix x))"
      if "?blk x" for x
      using blk [OF that] inpage [of x] pg [of x] True by (auto simp: upd_at_def)
    ultimately show ?thesis by blast
  next
    case False
    then have ne: "?n < e" "a < ?n"
      using le n by (auto simp: word_less_nat_alt word_unat_eq_iff)
    have nblk: "?blk ?n"
      using block_between [of a ?n e 21] ne "1.prems"(7) by simp
    have ix: "?ix ?n = Suc idx"
      using idx_Suc [of "unat ?n" "2 ^ 12" "unat a" "2 ^ 9"] nblk n "1.prems"(8)
      by (simp add: pt_index_eq div_add_self2)
    have "\<exists>t'. map_pte_loop ps lo e (Suc idx) ?n (t(idx := Some p)) = Some t' \<and>
      (\<forall>x. unat x div 2 ^ 21 = unat ?n div 2 ^ 21 \<longrightarrow>
       upd_at 0 ?n e x (page_at ps lo x) ((t(idx := Some p)) (?ix x)) (t' (?ix x)))"
      using "1.prems" ne nblk ix n False
      by (intro "1.IH" [OF idx get refl False]) (auto intro: order_trans less_imp_le)
    then obtain t' where rec: "map_pte_loop ps lo e (Suc idx) ?n (t(idx := Some p)) = Some t'"
      and upd: "\<And>x. ?blk x \<Longrightarrow>
        upd_at 0 ?n e x (page_at ps lo x) ((t(idx := Some p)) (?ix x)) (t' (?ix x))"
      using nblk by auto
    have "map_pte_loop ps lo e idx a t = Some t'"
      using False idx get rec by (subst map_pte_loop.simps) simp
    moreover have "upd_at 0 a e x (page_at ps lo x) (t (?ix x)) (t' (?ix x))" if "?blk x" for x
      using upd [OF that] blk [OF that] inpage [of x] pg [of x] ne
      by (auto simp: upd_at_def not_le split: if_splits)
    ultimately show ?thesis by blast
  qed
qed

text \<open>Tables without bad entries; with a folded p4d level every pgd slot is a table. A huge page counts
  as a bad entry, since the walks would take it for a table. This is asked of the whole pgd, more
  than the walks of the window need and more than the pgd of a running kernel has, whose direct map
  consists of huge pages.\<close>

definition wf_tab :: "('e \<Rightarrow> bool) \<Rightarrow> (nat \<Rightarrow> 'e) entry \<Rightarrow> bool" where
  "wf_tab W ent \<longleftrightarrow> ent \<noteq> EBad \<and> (\<forall>t i. ent = ETab t \<longrightarrow> W (t i))"

definition wf_pte :: "pte_tab entry \<Rightarrow> bool" where "wf_pte = wf_tab (\<lambda>_. True)"
definition wf_pmd :: "pmd_tab entry \<Rightarrow> bool" where "wf_pmd = wf_tab wf_pte"
definition wf_pud :: "pud_tab entry \<Rightarrow> bool" where "wf_pud = wf_tab wf_pmd"
definition wf_p4d :: "bool \<Rightarrow> p4d_tab entry \<Rightarrow> bool" where
  "wf_p4d l5 ent \<longleftrightarrow> wf_tab wf_pud ent \<and> (\<not> l5 \<longrightarrow> ent \<noteq> ENone)"
definition wf_pgd :: "bool \<Rightarrow> pgd_tab \<Rightarrow> bool" where
  "wf_pgd l5 t \<longleftrightarrow> (\<forall>i. wf_p4d l5 (t i))"

lemma pt_alloc_more [simp]: "pt_alloc ts l c = (b, c') \<Longrightarrow> pt_counts.more c' = pt_counts.more c"
  by (auto simp: pt_alloc_def Let_def split: if_splits pt_level.splits)

lemma table_or_alloc_cases:
  assumes "ent \<noteq> EBad"
  obtains (fail) c' where "table_or_alloc ts l new ent c = (False, ENone, c')" "ent = ENone"
      "pt_counts.more c' = pt_counts.more c"
  | (fresh) c' where "table_or_alloc ts l new ent c = (True, ETab new, c')" "ent = ENone"
      "pt_counts.more c' = pt_counts.more c"
  | (there) t where "table_or_alloc ts l new ent c = (True, ETab t, c)" "ent = ETab t"
proof (cases ent)
  case ENone
  obtain b c' where "pt_alloc ts l c = (b, c')" by fastforce
  with ENone that show ?thesis
    by (cases b) (auto simp: table_or_alloc_def)
qed (use assms that in \<open>auto simp: table_or_alloc_def\<close>)

subsection \<open>The upper levels\<close>

lemma look_pte_None [simp]: "look_pte ENone x = None"
  by (simp add: look_pte_def)

lemma look_tab_None [simp]: "look_tab sh ptrs look ENone x = None"
  by (simp add: look_tab_def)

lemma wf_tab_None [simp]: "wf_tab W ENone"
  by (simp add: wf_tab_def)

lemma wf_levels_None [simp]: "wf_pte ENone" "wf_pmd ENone" "wf_pud ENone"
  by (simp_all add: wf_pte_def wf_pmd_def wf_pud_def)

lemma look_levels_None [simp]: "look_pmd ENone x = None" "look_pud ENone x = None"
  by (simp_all add: look_pmd_def look_pud_def)

lemma table_level_maps:
  assumes "maps_to sh W look pt_counts.more pg lo hi body"
    and "12 \<le> sh" "sh < 64" "ptrs = 2 ^ k" "\<And>i. W (new i)" "\<And>i x. look (new i) x = None"
    and eq: "\<And>a n ent c. body' a n ent c = (case table_or_alloc ts l new ent c of
        (False, ent, c) \<Rightarrow> Some (- ENOMEM, ent, c)
      | (True, ent, c) \<Rightarrow> do {
          t \<leftarrow> tab_of ent;
          (err, t, c) \<leftarrow> level_loop sh ptrs body n (pt_index sh ptrs a) a t c;
          Some (err, ETab t, c) })"
  shows "maps_to (sh + k) (wf_tab W) (look_tab sh ptrs look) pt_counts.more pg lo hi body'"
  unfolding maps_to_def eq
proof (intro allI impI, goal_cases)
  case (1 a n ent c)
  note loop = level_loop_maps [OF assms(1-4) 1(2-7) _ refl]
  have main: "\<exists>err t' c'. level_loop sh ptrs body n (pt_index sh ptrs a) a t c1 = Some (err, t', c') \<and>
      wf_tab W (ETab t') \<and> pt_counts.more c' = pt_counts.more c1 \<and> (err = 0 \<or> err = - ENOMEM) \<and>
      (\<forall>x. unat x div 2 ^ (sh + k) = unat a div 2 ^ (sh + k) \<longrightarrow>
         upd_at err a n x (pg x) (look_tab sh ptrs look (ETab t) x) (look_tab sh ptrs look (ETab t') x))"
    if "wf_tab W (ETab t)" for t c1
    using loop [of t c1] that by (auto simp: wf_tab_def look_tab_def)
  have "ent \<noteq> EBad" using 1(1) by (simp add: wf_tab_def)
  then show ?case
  proof (cases rule: table_or_alloc_cases [where ts = ts and l = l and new = new and c = c])
    case (fail c')
    then show ?thesis by (simp add: upd_at_def 1(1))
  next
    case (fresh c')
    have "wf_tab W (ETab new)" using assms(5) by (simp add: wf_tab_def)
    from main [OF this, of c'] fresh show ?thesis
      by (fastforce simp: tab_of_def look_tab_def assms(6))
  next
    case (there t)
    from main [of t c] there 1(1) show ?thesis
      by (fastforce simp: tab_of_def)
  qed
qed

lemma map_pte_range_maps:
  assumes "covers ps lo hi"
  shows "maps_to PMD_SHIFT wf_pte look_pte pt_counts.more (page_at ps lo) lo hi (map_pte_range ts ps lo)"
  unfolding maps_to_def
proof (intro allI impI, goal_cases)
  case (1 a n ent c)
  note loop = map_pte_loop_maps [OF assms 1(2-7) refl]
  have "ent \<noteq> EBad" using 1(1) by (simp add: wf_tab_def wf_pte_def)
  then show ?case
  proof (cases rule: table_or_alloc_cases [where ts = ts and l = L_pte and new = "\<lambda>_. None" and c = c])
    case (fail c')
    then show ?thesis by (simp add: map_pte_range_def my_pte_alloc_def upd_at_def 1(1))
  next
    case (fresh c')
    with loop [of "\<lambda>_. None"] show ?thesis
      by (fastforce simp: map_pte_range_def my_pte_alloc_def tab_of_def look_pte_def wf_pte_def wf_tab_def)
  next
    case (there t)
    with loop [of t] show ?thesis
      by (fastforce simp: map_pte_range_def my_pte_alloc_def tab_of_def look_pte_def wf_pte_def wf_tab_def)
  qed
qed

lemma map_pmd_range_maps:
  assumes "covers ps lo hi"
  shows "maps_to PUD_SHIFT wf_pmd look_pmd pt_counts.more (page_at ps lo) lo hi (map_pmd_range ts ps lo)"
proof -
  have "maps_to (PMD_SHIFT + 9) (wf_tab wf_pte) (look_tab PMD_SHIFT PTRS look_pte) pt_counts.more
      (page_at ps lo) lo hi (map_pmd_range ts ps lo)"
    by (rule table_level_maps [OF map_pte_range_maps [OF assms]])
      (simp_all add: map_pmd_range_def my_pmd_alloc_def)
  then show ?thesis by (simp add: wf_pmd_def look_pmd_def)
qed

lemma map_pud_range_maps:
  assumes "covers ps lo hi"
  shows "maps_to P4D_SHIFT wf_pud look_pud pt_counts.more (page_at ps lo) lo hi (map_pud_range ts ps lo)"
proof -
  have "maps_to (PUD_SHIFT + 9) (wf_tab wf_pmd) (look_tab PUD_SHIFT PTRS look_pmd) pt_counts.more
      (page_at ps lo) lo hi (map_pud_range ts ps lo)"
    by (rule table_level_maps [OF map_pmd_range_maps [OF assms]])
      (simp_all add: map_pud_range_def my_pud_alloc_def)
  then show ?thesis by (simp add: wf_pud_def look_pud_def)
qed

lemma map_p4d_range_maps:
  assumes "covers ps lo hi"
  shows "maps_to (PGDIR_SHIFT l5) (wf_p4d l5) (look_p4d l5) pt_counts.more (page_at ps lo) lo hi
    (map_p4d_range l5 ts ps lo :: u64 \<Rightarrow> u64 \<Rightarrow> p4d_tab entry \<Rightarrow> 'c pt_counts_scheme \<Rightarrow> _)"
proof (cases l5)
  case True
  then have p: "PTRS_PER_P4D l5 = PTRS" by (simp add: PTRS_PER_P4D_def)
  have eq: "map_p4d_range l5 ts ps lo a n ent c = (case table_or_alloc ts L_p4d (\<lambda>_. ENone) ent c of
        (False, ent, c) \<Rightarrow> Some (- ENOMEM, ent, c)
      | (True, ent, c) \<Rightarrow> do {
          t \<leftarrow> tab_of ent;
          (err, t, c) \<leftarrow> level_loop P4D_SHIFT PTRS (map_pud_range ts ps lo) n (pt_index P4D_SHIFT PTRS a) a t c;
          Some (err, ETab t, c) })" for a n ent and c :: "'c pt_counts_scheme"
    unfolding map_p4d_range_def my_p4d_alloc_def p using True by simp
  have "maps_to (P4D_SHIFT + 9) (wf_tab wf_pud) (look_tab P4D_SHIFT PTRS look_pud) pt_counts.more
      (page_at ps lo) lo hi (map_p4d_range l5 ts ps lo :: u64 \<Rightarrow> u64 \<Rightarrow> _ \<Rightarrow> 'c pt_counts_scheme \<Rightarrow> _)"
    by (rule table_level_maps [OF map_pud_range_maps [OF assms] _ _ _ _ _ eq]) simp_all
  moreover have "wf_p4d l5 = wf_tab wf_pud"
    using True by (intro ext) (simp add: wf_p4d_def)
  ultimately show ?thesis
    using True by (simp add: look_p4d_def PGDIR_SHIFT_def PTRS_PER_P4D_def)
next
  case False
  let ?b = "\<lambda>a n ent (c :: 'c pt_counts_scheme). case table_or_alloc ts L_p4d (\<lambda>_. ENone) ent c of
        (False, ent, c) \<Rightarrow> Some (- ENOMEM, ent, c)
      | (True, ent, c) \<Rightarrow> do {
          t \<leftarrow> tab_of ent;
          (err, t, c) \<leftarrow> level_loop P4D_SHIFT 1 (map_pud_range ts ps lo) n (pt_index P4D_SHIFT 1 a) a t c;
          Some (err, ETab t, c) }"
  have b: "maps_to (P4D_SHIFT + 0) (wf_tab wf_pud) (look_tab P4D_SHIFT 1 look_pud) pt_counts.more
      (page_at ps lo) lo hi ?b"
    by (rule table_level_maps [OF map_pud_range_maps [OF assms]]) simp_all
  have eq: "map_p4d_range l5 ts ps lo a n (ETab t) c = ?b a n (ETab t) c" for a n t and c :: "'c pt_counts_scheme"
    by (simp add: map_p4d_range_def my_p4d_alloc_def table_or_alloc_def PTRS_PER_P4D_def False)
  have res: "ent' \<noteq> ENone" if "map_p4d_range l5 ts ps lo a n (ETab t) c = Some (err, ent', c')"
    for a n t err ent' and c c' :: "'c pt_counts_scheme"
    using that by (auto simp: map_p4d_range_def my_p4d_alloc_def False tab_of_def bind_eq_Some_conv)
  show ?thesis
    unfolding maps_to_def
  proof (intro allI impI, goal_cases)
    case (1 a n ent c)
    then obtain t where t: "ent = ETab t" "wf_tab wf_pud ent"
      using False by (cases ent) (auto simp: wf_p4d_def wf_tab_def)
    obtain err ent' c' where r: "?b a n ent c = Some (err, ent', c')" "wf_tab wf_pud ent'"
        "pt_counts.more c' = pt_counts.more c" "err = 0 \<or> err = - ENOMEM"
        "\<And>x. unat x div 2 ^ (P4D_SHIFT + 0) = unat a div 2 ^ (P4D_SHIFT + 0) \<Longrightarrow>
           upd_at err a n x (page_at ps lo x) (look_tab P4D_SHIFT 1 look_pud ent x)
             (look_tab P4D_SHIFT 1 look_pud ent' x)"
      using maps_toD [OF b t(2) 1(2-6), where c = c] 1(7) False
      by (simp add: PGDIR_SHIFT_def) blast
    then have "map_p4d_range l5 ts ps lo a n ent c = Some (err, ent', c')"
      using t(1) eq by simp
    moreover from this have "wf_p4d l5 ent'"
      using res [of a n t c err ent' c'] t(1) r(2) by (simp add: wf_p4d_def)
    moreover have "\<forall>x. unat x div 2 ^ PGDIR_SHIFT l5 = unat a div 2 ^ PGDIR_SHIFT l5 \<longrightarrow>
        upd_at err a n x (page_at ps lo x) (look_p4d l5 ent x) (look_p4d l5 ent' x)"
      using r(5) False by (simp add: PGDIR_SHIFT_def look_p4d_def PTRS_PER_P4D_def)
    ultimately show ?case
      using r(3,4) by blast
  qed
qed

definition may_fail :: "(u64 \<Rightarrow> u64 \<Rightarrow> 'e \<Rightarrow> 'c \<Rightarrow> (int \<times> 'e \<times> 'c) option) \<Rightarrow> bool" where
  "may_fail body \<longleftrightarrow> (\<exists>a n ent c err ent' c'. body a n ent c = Some (err, ent', c') \<and> err \<noteq> 0)"

text \<open>A loop fails only through its body.\<close>

lemma level_loop_err:
  "level_loop sh ptrs body e idx a t c = Some (err, t', c') \<Longrightarrow> err = 0 \<or> err = - ENOMEM \<and> may_fail body"
proof (induction sh ptrs body e idx a t c rule: level_loop.induct)
  case (1 sh ptrs body e idx a t c)
  let ?n = "addr_end sh a e"
  from "1.prems" obtain err1 ent c1 where b: "idx < ptrs" "body a ?n (t idx) c = Some (err1, ent, c1)"
    by (subst (asm) level_loop.simps) (auto split: if_splits option.splits)
  then have f: "err1 \<noteq> 0 \<Longrightarrow> may_fail body" unfolding may_fail_def by blast
  show ?case
  proof (cases "err1 \<noteq> 0 \<or> ?n = e")
    case True
    with "1.prems" b f show ?thesis by (subst (asm) level_loop.simps) (auto split: if_splits)
  next
    case False
    with "1.prems" b have "level_loop sh ptrs body e (Suc idx) ?n (t(idx := ent)) c1 = Some (err, t', c')"
      by (subst (asm) level_loop.simps) simp
    then show ?thesis
      using False by (intro "1.IH" [OF b refl refl]) (auto simp: fun_upd_def)
  qed
qed

lemma map_p4d_range_err:
  "map_p4d_range l5 ts ps lo a n ent c = Some (err, ent', c') \<Longrightarrow> err = 0 \<or> err = - ENOMEM"
  by (auto simp: map_p4d_range_def bind_eq_Some_conv dest: level_loop_err split: prod.splits bool.splits)

fun drop_next :: "int \<times> u64 \<times> 't \<times> 'c \<Rightarrow> int \<times> 't \<times> 'c" where
  "drop_next (err, nx, t, c) = (err, t, c)"

lemma map_pgd_loop_level:
  "map_option drop_next (map_pgd_loop l5 ts ps lo e idx a t c) =
    level_loop (PGDIR_SHIFT l5) PTRS (map_p4d_range l5 ts ps lo) e idx a t c"
proof (induction l5 ts ps lo e idx a t c rule: map_pgd_loop.induct)
  case (1 l5 ts ps lo e idx a t c)
  let ?n = "addr_end (PGDIR_SHIFT l5) a e"
  let ?r = "map_p4d_range l5 ts ps lo a ?n (t idx) c"
  show ?case
  proof (cases "idx < PTRS \<and> (\<exists>ent c'. ?r = Some (0, ent, c')) \<and> ?n \<noteq> e")
    case True
    then obtain ent c' where r: "idx < PTRS" "?r = Some (0, ent, c')" "?n \<noteq> e" by blast
    have "map_option drop_next (map_pgd_loop l5 ts ps lo e (Suc idx) ?n (t(idx := ent)) c') =
        level_loop (PGDIR_SHIFT l5) PTRS (map_p4d_range l5 ts ps lo) e (Suc idx) ?n (t(idx := ent)) c'"
      using "1.IH" [OF r(1,2) refl refl] r(3) by (simp add: fun_upd_def)
    with r show ?thesis
      by (subst map_pgd_loop.simps, subst level_loop.simps) simp
  next
    case False
    then show ?thesis
      by (subst map_pgd_loop.simps, subst level_loop.simps)
        (auto split: option.splits dest: map_p4d_range_err)
  qed
qed

definition top_block :: "bool \<Rightarrow> u64 \<Rightarrow> nat" where
  "top_block l5 a = unat a div 2 ^ (PGDIR_SHIFT l5 + 9)"

lemma map_range_outcome:
  assumes "mmap_locked mm" "wf_pgd l5 (pgd mm)" "pages pl = Some ps" "covers ps a e"
    "a < e" "4096 dvd unat a" "4096 dvd unat e" "top_block l5 (e - 1) = top_block l5 a"
  shows "\<exists>err mm'. map_range l5 ts a e pl mm = Some (err, mm') \<and> wf_pgd l5 (pgd mm') \<and>
    mmap_locked mm' \<and> mmap mm' = mmap mm \<and> (err = 0 \<or> err = - ENOMEM) \<and>
    (\<forall>x. top_block l5 x = top_block l5 a \<longrightarrow>
       upd_at err a e x (page_at ps a x) (translate l5 (pgd mm) x) (translate l5 (pgd mm') x))"
proof -
  let ?ix = "pt_index (PGDIR_SHIFT l5) PTRS"
  have "e \<noteq> 0" using assms(5) by auto
  then have "unat (e - 1) = unat e - 1" by (rule unat_minus_one)
  then have "(unat e - 1) div 2 ^ (PGDIR_SHIFT l5 + 9) = unat a div 2 ^ (PGDIR_SHIFT l5 + 9)"
    using assms(8) by (simp add: top_block_def)
  then have "\<exists>err t' mm'. level_loop (PGDIR_SHIFT l5) PTRS (map_p4d_range l5 ts ps a) e (?ix a) a (pgd mm) mm =
        Some (err, t', mm') \<and> (\<forall>i. wf_p4d l5 (t' i)) \<and> pt_counts.more mm' = pt_counts.more mm \<and>
      (err = 0 \<or> err = - ENOMEM) \<and>
      (\<forall>x. unat x div 2 ^ (PGDIR_SHIFT l5 + 9) = unat a div 2 ^ (PGDIR_SHIFT l5 + 9) \<longrightarrow>
       upd_at err a e x (page_at ps a x) (look_p4d l5 (pgd mm (?ix x)) x) (look_p4d l5 (t' (?ix x)) x))"
    using assms
    by (intro level_loop_maps [OF map_p4d_range_maps [OF assms(4)]])
      (auto simp: PGDIR_SHIFT_def wf_pgd_def)
  then obtain err t' mm1 where l:
      "level_loop (PGDIR_SHIFT l5) PTRS (map_p4d_range l5 ts ps a) e (?ix a) a (pgd mm) mm = Some (err, t', mm1)"
      "\<forall>i. wf_p4d l5 (t' i)" "pt_counts.more mm1 = pt_counts.more mm" "err = 0 \<or> err = - ENOMEM"
      "\<And>x. unat x div 2 ^ (PGDIR_SHIFT l5 + 9) = unat a div 2 ^ (PGDIR_SHIFT l5 + 9) \<Longrightarrow>
       upd_at err a e x (page_at ps a x) (look_p4d l5 (pgd mm (?ix x)) x) (look_p4d l5 (t' (?ix x)) x)"
    by blast
  then obtain nx where m: "map_pgd_loop l5 ts ps a e (?ix a) a (pgd mm) mm = Some (err, nx, t', mm1)"
    using map_pgd_loop_level [of l5 ts ps a e "?ix a" a "pgd mm" mm] by auto
  have mm1: "mmap_locked mm1" "mmap mm1 = mmap mm"
    using l(3) assms(1) by (cases mm1; cases mm; simp add: mm_struct.defs)+
  define mm2 where "mm2 = (if err < 0 then flush_tlb_mm_range a nx (mm1\<lparr>pgd := t'\<rparr>) else mm1\<lparr>pgd := t'\<rparr>)"
  have "map_range l5 ts a e pl mm = Some (err, mm2)"
    using assms(1,3) m mm1 by (simp add: map_range_def Let_def unmap_range_def mm2_def)
  moreover have "pgd mm2 = t'" "mmap_locked mm2" "mmap mm2 = mmap mm"
    using mm1 by (auto simp: mm2_def flush_tlb_mm_range_def)
  ultimately show ?thesis
    using l(2,4,5) by (auto simp: wf_pgd_def top_block_def translate_def)
qed

subsection \<open>When tables can be allocated, mapping succeeds\<close>

lemma table_or_alloc_ok: "\<forall>l t. ts l t \<Longrightarrow> table_or_alloc ts l new e c = (ok, e', c') \<Longrightarrow> ok"
  by (auto simp: table_or_alloc_def pt_alloc_def Let_def split: if_splits)

lemma map_levels_never_fail:
  assumes ts: "\<forall>l t. ts l t"
  shows "\<not> may_fail (map_pte_range ts ps start)" "\<not> may_fail (map_pmd_range ts ps start)"
    "\<not> may_fail (map_pud_range ts ps start)" "\<not> may_fail (map_p4d_range l5 ts ps start)"
proof -
  note ok = table_or_alloc_ok [OF ts]
    and sp = my_pte_alloc_def my_pmd_alloc_def my_pud_alloc_def my_p4d_alloc_def bind_eq_Some_conv
  show pte: "\<not> may_fail (map_pte_range ts ps start)"
    by (auto simp: may_fail_def map_pte_range_def sp split: prod.splits bool.splits dest: ok)
  show pmd: "\<not> may_fail (map_pmd_range ts ps start)"
    using pte by (subst may_fail_def)
      (auto simp: map_pmd_range_def sp split: prod.splits bool.splits dest!: level_loop_err dest: ok)
  show pud: "\<not> may_fail (map_pud_range ts ps start)"
    using pmd by (subst may_fail_def)
      (auto simp: map_pud_range_def sp split: prod.splits bool.splits dest!: level_loop_err dest: ok)
  show "\<not> may_fail (map_p4d_range l5 ts ps start)"
    using pud by (subst may_fail_def)
      (auto simp: map_p4d_range_def sp split: prod.splits bool.splits if_splits dest!: level_loop_err dest: ok)
qed

lemma map_range_ok:
  assumes ts: "\<forall>l t. ts l t" and run: "map_range l5 ts a e pl mm = Some (err, mm')"
  shows "err = 0"
proof -
  from run obtain ps nx t mm1 where
    "map_pgd_loop l5 ts ps a e (pt_index (PGDIR_SHIFT l5) PTRS a) a (pgd mm) mm = Some (err, nx, t, mm1)"
    by (auto simp: map_range_def Let_def bind_eq_Some_conv split: if_splits)
  then have "level_loop (PGDIR_SHIFT l5) PTRS (map_p4d_range l5 ts ps a) e
      (pt_index (PGDIR_SHIFT l5) PTRS a) a (pgd mm) mm = Some (err, t, mm1)"
    using map_pgd_loop_level [of l5 ts ps a e "pt_index (PGDIR_SHIFT l5) PTRS a" a "pgd mm" mm] by simp
  from level_loop_err [OF this] show ?thesis
    using map_levels_never_fail(4) [OF ts] by blast
qed

end
