(* ===== verification/Stack_Window.thy ===== *)
theory Stack_Window
  imports Page_Tables
begin

text \<open>
  The window of the address space that holds the shadow stacks (\<^verbatim>\<open>lkm/include/api.h\<close>)
  and the conversion between a thread's slot number and its address (\<open>addr_to_id\<close>,
  \<open>id_to_addr\<close> of \<^verbatim>\<open>lkm/core/api.c\<close>): the slots do not overlap, an address is
  accepted by \<open>sa_free\<close> exactly when it is the start of a slot, and mapping a stack into
  its slot meets the preconditions of \<open>map_range\<close>.
\<close>

definition SS_START :: u64 where
  "SS_START = 0xffffeb0000000000"

definition SS_END :: u64 where
  "SS_END = 0xfffffc0000000000"

definition THREADS_LIMIT :: u64 where
  "THREADS_LIMIT = (SS_END - SS_START) div SS_SIZE"

definition id_to_addr :: "u32 \<Rightarrow> u64" where
  "id_to_addr n = SS_START + ucast n * SS_SIZE"

definition addr_to_id :: "u64 \<Rightarrow> u32" where
  "addr_to_id addr = ucast ((addr - SS_START) div SS_SIZE)"

text \<open>The argument check of \<open>sa_free\<close>, negated.\<close>

definition addr_valid :: "u64 \<Rightarrow> bool" where
  "addr_valid addr \<longleftrightarrow> \<not> (addr < SS_START \<or> addr \<ge> SS_END \<or> (addr - SS_START) mod SS_SIZE \<noteq> 0)"

lemma window_consts:
  "unat SS_START = 0xffffeb0000000000" "unat SS_END = 0xfffffc0000000000"
  "unat SS_SIZE = 0x800000" "unat THREADS_LIMIT = 0x220000"
  by (simp_all add: SS_START_def SS_END_def SS_SIZE_def THREADS_LIMIT_def)

lemma unat_ucast_u32: "unat (ucast (n :: u32) :: u64) = unat n"
proof -
  have "unat n < 2 ^ 32" using unsigned_less [of n] by simp
  then show ?thesis by (simp add: unsigned_ucast_eq take_bit_nat_eq_self)
qed

lemma top_block_high:
  assumes "0xffff000000000000 \<le> unat a"
  shows "top_block l5 a = (if l5 then 127 else 65535)"
proof -
  have "unat a < 2 ^ 64" by (rule u64_bound)
  with assms have "unat a div 2 ^ 57 = 127" "unat a div 2 ^ 48 = 65535"
    by (intro div_nat_eqI; simp)+
  then show ?thesis by (simp add: top_block_def PGDIR_SHIFT_def)
qed

lemma unat_id_to_addr:
  assumes "unat n \<le> 0x220000"
  shows "unat (id_to_addr n) = 0xffffeb0000000000 + unat n * 0x800000"
proof -
  have "unat (ucast n * SS_SIZE :: u64) = unat n * 0x800000"
    using assms by (simp add: unat_word_ariths window_consts unat_ucast_u32)
  then show ?thesis
    using assms by (simp add: id_to_addr_def unat_word_ariths window_consts)
qed

lemma unat_stack_end:
  assumes "unat n \<le> 0x220000"
  shows "unat (id_to_addr n + SS_SIZE) = unat (id_to_addr n) + 0x800000"
  using unat_id_to_addr [OF assms] assms by (simp add: unat_word_ariths window_consts)

lemma id_to_addr_range:
  assumes "unat n \<le> 0x220000"
  defines "a \<equiv> id_to_addr n"
  shows "a < a + SS_SIZE" "4096 dvd unat a" "4096 dvd unat (a + SS_SIZE)"
    "top_block l5 (a + SS_SIZE - 1) = top_block l5 a"
proof -
  note u = unat_id_to_addr [OF assms(1)] and e = unat_stack_end [OF assms(1)]
  show "a < a + SS_SIZE"
    using e by (simp add: word_less_nat_alt a_def)
  show "4096 dvd unat a" "4096 dvd unat (a + SS_SIZE)"
    unfolding a_def e u by simp_all
  have "a + SS_SIZE \<noteq> 0" using e by (auto simp: a_def)
  then have "unat (a + SS_SIZE - 1) = unat a + 0x7fffff"
    using e by (simp add: unat_minus_one a_def)
  then show "top_block l5 (a + SS_SIZE - 1) = top_block l5 a"
    using u by (simp add: top_block_high a_def)
qed

text \<open>A stack of 2048 pages fills its slot.\<close>

lemma covers_stack:
  assumes "wf_pagelist STACK_PAGES pl" "unat n \<le> 0x220000"
  defines "a \<equiv> id_to_addr n"
  shows "pages pl = Some (map Some (frames pl))" "covers (map Some (frames pl)) a (a + SS_SIZE)"
    "a \<le> x \<Longrightarrow> x < a + SS_SIZE \<Longrightarrow>
       page_at (map Some (frames pl)) a x = Some (frames pl ! (unat (x - a) div 4096))"
proof -
  have len: "length (frames pl) = 2048"
    using assms(1) by (simp add: wf_pagelist_def STACK_PAGES_eq)
  show "pages pl = Some (map Some (frames pl))"
    using assms(1) by (simp add: wf_pagelist_def)
  have ix: "unat (x - a) div 4096 < 2048" if "a \<le> x" "x < a + SS_SIZE" for x
  proof -
    have "unat (x - a) < 0x800000"
      using that unat_stack_end [OF assms(2)]
      by (simp add: unat_sub a_def word_le_nat_alt word_less_nat_alt)
    then show ?thesis by (intro less_mult_imp_div_less) simp
  qed
  then show "a \<le> x \<Longrightarrow> x < a + SS_SIZE \<Longrightarrow>
      page_at (map Some (frames pl)) a x = Some (frames pl ! (unat (x - a) div 4096))"
    by (simp add: page_at_def len)
  show "covers (map Some (frames pl)) a (a + SS_SIZE)"
    using ix len id_to_addr_range(2) [OF assms(2)]
    by (auto simp: covers_def page_at_def a_def)
qed

lemma map_stack_outcome:
  assumes "mmap_locked mm" "wf_pgd l5 (pgd mm)" "wf_pagelist STACK_PAGES pl" "unat n \<le> 0x220000"
  defines "a \<equiv> id_to_addr n"
  shows "\<exists>err mm'. map_range l5 ts a (a + SS_SIZE) pl mm = Some (err, mm') \<and> wf_pgd l5 (pgd mm') \<and>
    mmap_locked mm' \<and> mmap mm' = mmap mm \<and> (err = 0 \<or> err = - ENOMEM) \<and>
    (\<forall>x. top_block l5 x = top_block l5 a \<longrightarrow>
       upd_at err a (a + SS_SIZE) x (page_at (map Some (frames pl)) a x)
         (translate l5 (pgd mm) x) (translate l5 (pgd mm') x))"
  unfolding a_def
  using assms(1,2) covers_stack [OF assms(3,4)] id_to_addr_range [OF assms(4)]
  by (intro map_range_outcome)

subsection \<open>Slots and addresses\<close>

lemma id_to_addr_valid:
  assumes "unat n < 0x220000"
  shows "addr_valid (id_to_addr n)"
proof -
  have u: "unat (id_to_addr n) = 0xffffeb0000000000 + unat n * 0x800000"
    using assms by (intro unat_id_to_addr) simp
  then have "unat (id_to_addr n - SS_START) = unat n * 0x800000"
    by (simp add: unat_sub word_le_nat_alt window_consts)
  then have "unat ((id_to_addr n - SS_START) mod SS_SIZE) = 0"
    by (simp add: unat_mod window_consts)
  then show ?thesis
    using u assms
    by (simp add: addr_valid_def word_less_nat_alt word_le_nat_alt window_consts unat_eq_zero)
qed

lemma addr_to_id_id_to_addr:
  assumes "unat n \<le> 0x220000"
  shows "addr_to_id (id_to_addr n) = n"
proof -
  have "unat ((id_to_addr n - SS_START) div SS_SIZE) = unat n"
    using unat_id_to_addr [OF assms]
    by (simp add: unat_sub word_le_nat_alt window_consts unat_div)
  then show ?thesis
    using assms
    by (simp add: addr_to_id_def word_unat_eq_iff unsigned_ucast_eq take_bit_nat_eq_self)
qed

lemma addr_valid_slot:
  assumes "addr_valid a"
  shows "unat (addr_to_id a) < 0x220000" "id_to_addr (addr_to_id a) = a"
proof -
  have r: "0xffffeb0000000000 \<le> unat a" "unat a < 0xfffffc0000000000"
    using assms by (simp_all add: addr_valid_def word_less_nat_alt word_le_nat_alt window_consts)
  have s: "unat (a - SS_START) = unat a - 0xffffeb0000000000"
    using r by (simp add: unat_sub word_le_nat_alt window_consts)
  have m: "unat (a - SS_START) mod 0x800000 = 0"
    using assms by (simp add: addr_valid_def word_unat_eq_iff unat_mod window_consts)
  define q where "q = unat (a - SS_START) div 0x800000"
  have q: "unat a = 0xffffeb0000000000 + q * 0x800000" "q < 0x220000"
    using m r s unfolding q_def by auto
  have "unat ((a - SS_START) div SS_SIZE) = q"
    by (simp add: q_def unat_div window_consts)
  then have "unat (addr_to_id a) = q"
    using q(2) by (simp add: addr_to_id_def unsigned_ucast_eq take_bit_nat_eq_self)
  then show "unat (addr_to_id a) < 0x220000" "id_to_addr (addr_to_id a) = a"
    using q by (simp_all add: word_unat_eq_iff unat_id_to_addr)
qed

subsection \<open>Slots in the page tables\<close>

definition in_slot :: "u32 \<Rightarrow> u64 \<Rightarrow> bool" where
  "in_slot n x \<longleftrightarrow> id_to_addr n \<le> x \<and> x < id_to_addr n + SS_SIZE"

text \<open>The pages of a stack, in order, at the addresses from \<open>a\<close>.\<close>

definition stack_mapped :: "bool \<Rightarrow> pgd_tab \<Rightarrow> u32 \<Rightarrow> sa_pagelist \<Rightarrow> bool" where
  "stack_mapped l5 t n pl \<longleftrightarrow> (\<forall>x. in_slot n x \<longrightarrow>
     translate l5 t x = Some (frames pl ! (unat (x - id_to_addr n) div 4096)))"

text \<open>Only the translations of the addresses of slot \<open>n\<close> may differ.\<close>

definition slot_only :: "bool \<Rightarrow> u32 \<Rightarrow> pgd_tab \<Rightarrow> pgd_tab \<Rightarrow> bool" where
  "slot_only l5 n t t' \<longleftrightarrow> (\<forall>x. top_block l5 x = top_block l5 (id_to_addr n) \<longrightarrow> \<not> in_slot n x \<longrightarrow>
     translate l5 t' x = translate l5 t x)"

lemma slot_only_refl [simp]: "slot_only l5 n t t"
  by (simp add: slot_only_def)

lemma slots_apart:
  assumes "unat n \<le> 0x220000" "unat m \<le> 0x220000" "n \<noteq> m" "in_slot n x"
  shows "\<not> in_slot m x"
proof -
  have "unat n \<noteq> unat m"
    using assms(3) by (simp add: word_unat_eq_iff)
  then show ?thesis
    using assms(4) unat_id_to_addr [OF assms(1)] unat_id_to_addr [OF assms(2)]
      unat_stack_end [OF assms(1)] unat_stack_end [OF assms(2)]
    by (auto simp: in_slot_def word_le_nat_alt word_less_nat_alt)
qed

lemma slot_block:
  assumes "unat n \<le> 0x220000" "unat m \<le> 0x220000" "in_slot n x"
  shows "top_block l5 x = top_block l5 (id_to_addr m)"
  using assms(3) unat_id_to_addr [OF assms(1)] unat_id_to_addr [OF assms(2)]
  by (simp add: in_slot_def top_block_high word_le_nat_alt)

lemma stack_mapped_kept:
  assumes "slot_only l5 n t t'" "unat n \<le> 0x220000" "unat k \<le> 0x220000" "k \<noteq> n"
    "stack_mapped l5 t k pl"
  shows "stack_mapped l5 t' k pl"
  using assms slots_apart [of k n] slot_block [of k n]
  by (simp add: stack_mapped_def slot_only_def)

lemma map_slot_outcome:
  assumes "mmap_locked mm" "wf_pgd l5 (pgd mm)" "wf_pagelist STACK_PAGES pl" "unat n \<le> 0x220000"
  shows "\<exists>err mm'. map_range l5 ts (id_to_addr n) (id_to_addr n + SS_SIZE) pl mm = Some (err, mm') \<and>
    wf_pgd l5 (pgd mm') \<and> mmap_locked mm' \<and> (err = 0 \<or> err = - ENOMEM) \<and>
    (err = 0 \<longrightarrow> stack_mapped l5 (pgd mm') n pl) \<and> slot_only l5 n (pgd mm) (pgd mm')"
proof -
  let ?a = "id_to_addr n"
  obtain err mm' where m: "map_range l5 ts ?a (?a + SS_SIZE) pl mm = Some (err, mm')"
    "wf_pgd l5 (pgd mm')" "mmap_locked mm'" "err = 0 \<or> err = - ENOMEM"
    and upd: "\<And>x. top_block l5 x = top_block l5 ?a \<Longrightarrow>
       upd_at err ?a (?a + SS_SIZE) x (page_at (map Some (frames pl)) ?a x)
         (translate l5 (pgd mm) x) (translate l5 (pgd mm') x)"
    using map_stack_outcome [OF assms, of ts] by blast
  have "translate l5 (pgd mm') x = Some (frames pl ! (unat (x - ?a) div 4096))"
    if "in_slot n x" "err = 0" for x
    using upd [OF slot_block [OF assms(4) assms(4) that(1)]] that covers_stack(3) [OF assms(3,4)]
    by (simp add: upd_at_def in_slot_def)
  moreover have "translate l5 (pgd mm') x = translate l5 (pgd mm) x"
    if "top_block l5 x = top_block l5 ?a" "\<not> in_slot n x" for x
    using upd [OF that(1)] that(2) by (simp only: upd_at_def in_slot_def if_False)
  ultimately show ?thesis
    using m by (auto simp: stack_mapped_def slot_only_def)
qed

subsection \<open>Properties\<close>

definition empty_pgd :: "bool \<Rightarrow> pgd_tab" where
  "empty_pgd l5 = (\<lambda>_. if l5 then ENone else ETab (\<lambda>_. ENone))"

definition init_mm :: mm_struct where
  "init_mm = \<lparr>nr_ptes = 0, nr_pmds = 0, nr_puds = 0, ptick = 0, pgd = empty_pgd False,
     mmap_locked = False, tlb_flushes = [], start_stack = 0, arg_start = 0, arg_end = 0,
     env_start = 0, env_end = 0, saved_auxv = [], mmap = []\<rparr>"

lemma wf_empty_pgd: "wf_pgd l5 (empty_pgd l5)"
  by (simp add: wf_pgd_def wf_p4d_def wf_tab_def empty_pgd_def)

text \<open>C27: the check of \<open>sa_free\<close> accepts exactly the start addresses of the slots
  below \<open>THREADS_LIMIT\<close>, and \<open>addr_to_id\<close> recovers the slot number.\<close>

theorem addr_valid_iff_slot:
  "addr_valid a \<longleftrightarrow> (\<exists>n. unat n < unat THREADS_LIMIT \<and> a = id_to_addr n \<and> addr_to_id a = n)"
  using addr_valid_slot [of a] id_to_addr_valid addr_to_id_id_to_addr
  by (auto simp: window_consts) metis

text \<open>Two different slots never overlap, for every slot number \<open>xa_alloc\<close> can
  return (the bound is inclusive).\<close>

lemma slots_disjoint:
  assumes "unat n \<le> unat THREADS_LIMIT" and "unat m \<le> unat THREADS_LIMIT" and "n \<noteq> m"
    and "id_to_addr n \<le> x" and "x < id_to_addr n + SS_SIZE"
  shows "\<not> (id_to_addr m \<le> x \<and> x < id_to_addr m + SS_SIZE)"
  using slots_apart [of n m x] assms by (simp add: window_consts in_slot_def)

text \<open>The inclusive bound \<open>XA_LIMIT(0, THREADS_LIMIT)\<close> admits one slot too many:
  the last one starts at \<open>SS_END\<close>, outside the window, and \<open>sa_free\<close> rejects it.\<close>

lemma last_slot_outside_window:
  "id_to_addr (ucast THREADS_LIMIT) = SS_END \<and> \<not> addr_valid (id_to_addr (ucast THREADS_LIMIT))"
  by (simp add: id_to_addr_def THREADS_LIMIT_def SS_START_def SS_END_def SS_SIZE_def addr_valid_def)

end
