(* ===== verification/Table_Free.thy ===== *)
theory Table_Free
  imports Stack_Window
begin

unbundle bit_operations_syntax

text \<open>
  Freeing page tables (\<^verbatim>\<open>lkm/core/api.c\<close>, \<open>sa_tlb_add\<close> to
  \<open>__free_pgd_range\<close>): the batch of tables waiting to be freed, and the walk that
  detaches the tables of a range. A detached pte table is identified by its contents; the
  batch is one page, a counter followed by the array \<open>tables[]\<close>, so a write beyond slot
  510 leaves the page. Whether \<open>__get_free_page\<close> succeeds is the parameter
  \<open>gs\<close>.
\<close>

text \<open>\<open>(PAGE_SIZE - sizeof(struct sa_batch)) / sizeof(void *)\<close>, with the counter padded
  to the alignment of the pointers.\<close>

definition MAX_BATCH_SIZE :: nat where
  "MAX_BATCH_SIZE = (4096 - 8) div 8"

record sa_batch =
  nr :: nat
  tables :: "pte_tab list"

record sa_tlb =
  tlb_start :: u64
  tlb_end :: u64
  free_tables :: bool
  clear_ptes :: bool
  clear_pmds :: bool
  clear_puds :: bool
  clear_p4ds :: bool
  batch :: "sa_batch option"
  freed :: "pte_tab list"
  gtick :: nat

text \<open>The initializer \<open>(struct sa_tlb){ .mm = alloc->mm }\<close> zeroes everything else.\<close>

definition sa_tlb_init :: sa_tlb where
  "sa_tlb_init = \<lparr>tlb_start = 0, tlb_end = 0, free_tables = False, clear_ptes = False,
     clear_pmds = False, clear_puds = False, clear_p4ds = False, batch = None, freed = [],
     gtick = 0\<rparr>"

text \<open>The array store \<open>tables[nr++] = page\<close>: slots are written in order, so the list
  has \<open>nr\<close> elements, and a page holds \<open>MAX_BATCH_SIZE\<close> of them. After the batch is
  full every table in it is freed; the counter is not reset.\<close>

definition sa_tlb_add :: "(nat \<Rightarrow> bool) \<Rightarrow> pte_tab \<Rightarrow> sa_tlb \<Rightarrow> sa_tlb option" where
  "sa_tlb_add gs page tlb =
     (let r = (case batch tlb of
                 Some b \<Rightarrow> Inr (b, tlb)
               | None \<Rightarrow>
                   let tlb' = tlb\<lparr>gtick := Suc (gtick tlb)\<rparr>
                   in if gs (gtick tlb) then Inr (\<lparr>nr = 0, tables = []\<rparr>, tlb') else Inl tlb')
      in case r of
           Inl tlb \<Rightarrow> Some (tlb\<lparr>freed := freed tlb @ [page]\<rparr>)
         | Inr (b, tlb) \<Rightarrow> do {
             ensure (nr b < MAX_BATCH_SIZE);
             let b = \<lparr>nr = Suc (nr b), tables = tables b @ [page]\<rparr>;
             Some (if nr b = MAX_BATCH_SIZE
                   then tlb\<lparr>batch := Some b, freed := freed tlb @ tables b\<rparr>
                   else tlb\<lparr>batch := Some b\<rparr>) })"

definition tlb_adjust_range :: "u64 \<Rightarrow> u64 \<Rightarrow> sa_tlb \<Rightarrow> sa_tlb" where
  "tlb_adjust_range addr sz tlb =
     tlb\<lparr>tlb_start := min (tlb_start tlb) addr, tlb_end := max (tlb_end tlb) (addr + sz)\<rparr>"

definition tlb_free_pte :: "(nat \<Rightarrow> bool) \<Rightarrow> pte_tab \<Rightarrow> u64 \<Rightarrow> sa_tlb \<Rightarrow> sa_tlb option" where
  "tlb_free_pte gs pte addr tlb =
     sa_tlb_add gs pte ((tlb_adjust_range addr PAGE_SIZE tlb)\<lparr>clear_pmds := True\<rparr>)"

text \<open>A level function takes the entry it works on and returns what it leaves there.\<close>

definition free_pte_range ::
  "(nat \<Rightarrow> bool) \<Rightarrow> u64 \<Rightarrow> u64 \<Rightarrow> pte_tab entry \<Rightarrow> sa_tlb \<times> 'c pt_counts_scheme \<Rightarrow>
   (pte_tab entry \<times> sa_tlb \<times> 'c pt_counts_scheme) option" where
  "free_pte_range gs addr e ent st = do {
     pte \<leftarrow> tab_of ent;
     tlb \<leftarrow> tlb_free_pte gs pte addr (fst st);
     Some (ENone, tlb, (snd st)\<lparr>nr_ptes := nr_ptes (snd st) - 1\<rparr>) }"

text \<open>The loops \<open>do { next = \<dots>; if (none || bad) continue; body; }
  while (p?d++, addr = next, addr != end)\<close>; \<open>continue\<close> jumps to the condition.\<close>

function free_loop ::
  "nat \<Rightarrow> nat \<Rightarrow> (u64 \<Rightarrow> u64 \<Rightarrow> 'a entry \<Rightarrow> 's \<Rightarrow> ('a entry \<times> 's) option) \<Rightarrow>
   u64 \<Rightarrow> nat \<Rightarrow> u64 \<Rightarrow> (nat \<Rightarrow> 'a entry) \<Rightarrow> 's \<Rightarrow> ((nat \<Rightarrow> 'a entry) \<times> 's) option" where
  "free_loop sh ptrs body e idx addr t st =
     (if idx < ptrs then
        (case (case t idx of
                 ETab _ \<Rightarrow> body addr (addr_end sh addr e) (t idx) st
               | _ \<Rightarrow> Some (t idx, st)) of
           None \<Rightarrow> None
         | Some (ent, st) \<Rightarrow>
             if addr_end sh addr e = e then Some (t(idx := ent), st)
             else free_loop sh ptrs body e (Suc idx) (addr_end sh addr e) (t(idx := ent)) st)
      else None)"
  by pat_completeness auto
termination
  by (relation "measure (\<lambda>(sh, ptrs, body, e, idx, addr, t, st). ptrs - idx)") auto

declare free_loop.simps [simp del]

text \<open>The tail every level shares: may the table above the range be detached?\<close>

definition may_clear :: "nat \<Rightarrow> u64 \<Rightarrow> u64 \<Rightarrow> u64 \<Rightarrow> u64 \<Rightarrow> bool" where
  "may_clear sh start e flr ceiling =
     (if start AND level_mask sh < flr then False
      else if ceiling \<noteq> 0 \<and> ceiling AND level_mask sh = 0 then False
      else \<not> (e - 1 > (if ceiling \<noteq> 0 then ceiling AND level_mask sh else ceiling) - 1))"

definition free_pmd_range ::
  "(nat \<Rightarrow> bool) \<Rightarrow> u64 \<Rightarrow> u64 \<Rightarrow> u64 \<Rightarrow> u64 \<Rightarrow> pmd_tab entry \<Rightarrow> sa_tlb \<times> 'c pt_counts_scheme \<Rightarrow>
   (pmd_tab entry \<times> sa_tlb \<times> 'c pt_counts_scheme) option" where
  "free_pmd_range gs flr ceiling addr e ent st = do {
     t \<leftarrow> tab_of ent;
     (t, tlb, c) \<leftarrow> free_loop PMD_SHIFT PTRS (free_pte_range gs) e (pt_index PMD_SHIFT PTRS addr) addr t st;
     Some (if may_clear PUD_SHIFT addr e flr ceiling
           then (ENone, tlb, c\<lparr>nr_pmds := nr_pmds c - 1\<rparr>)
           else (ETab t, tlb, c)) }"

text \<open>The loop of \<open>free_pud_range\<close> tests \<open>addr = next, addr != next\<close>, which is
  always false: it looks at one entry only.\<close>

definition free_pud_range ::
  "(nat \<Rightarrow> bool) \<Rightarrow> u64 \<Rightarrow> u64 \<Rightarrow> u64 \<Rightarrow> u64 \<Rightarrow> pud_tab entry \<Rightarrow> sa_tlb \<times> 'c pt_counts_scheme \<Rightarrow>
   (pud_tab entry \<times> sa_tlb \<times> 'c pt_counts_scheme) option" where
  "free_pud_range gs flr ceiling addr e ent st = do {
     t \<leftarrow> tab_of ent;
     let idx = pt_index PUD_SHIFT PTRS addr;
     (ent', tlb, c) \<leftarrow> (case t idx of
          ETab _ \<Rightarrow> free_pmd_range gs flr ceiling addr (addr_end PUD_SHIFT addr e) (t idx) st
        | _ \<Rightarrow> Some (t idx, st));
     Some (if may_clear P4D_SHIFT addr e flr ceiling
           then (ENone, tlb, c\<lparr>nr_puds := nr_puds c - 1\<rparr>)
           else (ETab (t(idx := ent')), tlb, c)) }"

text \<open>\<open>pgd_clear\<close> does nothing when the p4d level is folded.\<close>

definition free_p4d_range ::
  "bool \<Rightarrow> (nat \<Rightarrow> bool) \<Rightarrow> u64 \<Rightarrow> u64 \<Rightarrow> u64 \<Rightarrow> u64 \<Rightarrow> p4d_tab entry \<Rightarrow>
   sa_tlb \<times> 'c pt_counts_scheme \<Rightarrow> (p4d_tab entry \<times> sa_tlb \<times> 'c pt_counts_scheme) option" where
  "free_p4d_range l5 gs flr ceiling addr e ent st = do {
     t \<leftarrow> tab_of ent;
     (t, tlb, c) \<leftarrow> free_loop P4D_SHIFT (PTRS_PER_P4D l5) (free_pud_range gs flr ceiling) e
                      (pt_index P4D_SHIFT (PTRS_PER_P4D l5) addr) addr t st;
     Some (if may_clear (PGDIR_SHIFT l5) addr e flr ceiling \<and> l5
           then (ENone, tlb, c)
           else (ETab t, tlb, c)) }"

definition free_pgd_range ::
  "bool \<Rightarrow> (nat \<Rightarrow> bool) \<Rightarrow> u64 \<Rightarrow> u64 \<Rightarrow> u64 \<Rightarrow> u64 \<Rightarrow> sa_tlb \<Rightarrow> mm_struct \<Rightarrow>
   (sa_tlb \<times> mm_struct) option" where
  "free_pgd_range l5 gs addr e flr ceiling tlb mm = do {
     ensure (mmap_locked mm);
     let addr = addr AND level_mask PMD_SHIFT;
     if addr < flr \<and> addr + 2 ^ PMD_SHIFT = 0 then Some (tlb, mm)
     else do {
       let addr = (if addr < flr then addr + 2 ^ PMD_SHIFT else addr);
       if ceiling \<noteq> 0 \<and> ceiling AND level_mask PMD_SHIFT = 0 then Some (tlb, mm)
       else do {
         let ceiling = (if ceiling \<noteq> 0 then ceiling AND level_mask PMD_SHIFT else ceiling);
         let e = (if e - 1 > ceiling - 1 then e - 2 ^ PMD_SHIFT else e);
         if addr > e - 1 then Some (tlb, mm)
         else do {
           (t, tlb, mm) \<leftarrow> free_loop (PGDIR_SHIFT l5) PTRS (free_p4d_range l5 gs flr ceiling) e
                             (pt_index (PGDIR_SHIFT l5) PTRS addr) addr (pgd mm) (tlb, mm);
           Some (tlb, mm\<lparr>pgd := t\<rparr>) } } } }"

subsection \<open>The batch\<close>

fun sa_tlb_add_all :: "(nat \<Rightarrow> bool) \<Rightarrow> pte_tab list \<Rightarrow> sa_tlb \<Rightarrow> sa_tlb option" where
  "sa_tlb_add_all gs [] tlb = Some tlb"
| "sa_tlb_add_all gs (p # ps) tlb = do { tlb \<leftarrow> sa_tlb_add gs p tlb; sa_tlb_add_all gs ps tlb }"

lemma MAX_BATCH_SIZE_eq: "MAX_BATCH_SIZE = 511"
  by (simp add: MAX_BATCH_SIZE_def)

lemma sa_tlb_add_all_batch:
  assumes "batch tlb = Some b" "nr b + length ps < MAX_BATCH_SIZE"
  shows "sa_tlb_add_all gs ps tlb =
    Some (tlb\<lparr>batch := Some \<lparr>nr = nr b + length ps, tables = tables b @ ps\<rparr>\<rparr>)"
  using assms
proof (induction ps arbitrary: b tlb)
  case (Cons p ps)
  let ?b = "\<lparr>nr = Suc (nr b), tables = tables b @ [p]\<rparr>"
  have "sa_tlb_add gs p tlb = Some (tlb\<lparr>batch := Some ?b\<rparr>)"
    using Cons.prems by (simp add: sa_tlb_add_def)
  moreover have "sa_tlb_add_all gs ps (tlb\<lparr>batch := Some ?b\<rparr>) = Some (tlb\<lparr>batch := Some ?b,
      batch := Some \<lparr>nr = nr ?b + length ps, tables = tables ?b @ ps\<rparr>\<rparr>)"
    using Cons.prems by (intro Cons.IH) simp_all
  ultimately show ?case by simp
qed simp

lemma sa_tlb_add_all_first:
  assumes "batch tlb = None" "gs (gtick tlb)" "0 < length ps" "length ps < MAX_BATCH_SIZE"
  shows "sa_tlb_add_all gs ps tlb = Some (tlb\<lparr>gtick := Suc (gtick tlb),
    batch := Some \<lparr>nr = length ps, tables = ps\<rparr>\<rparr>)"
proof (cases ps)
  case (Cons p qs)
  let ?tlb = "tlb\<lparr>gtick := Suc (gtick tlb), batch := Some \<lparr>nr = 1, tables = [p]\<rparr>\<rparr>"
  have "sa_tlb_add gs p tlb = Some ?tlb"
    using assms Cons by (simp add: sa_tlb_add_def MAX_BATCH_SIZE_eq)
  moreover have "sa_tlb_add_all gs qs ?tlb = Some (?tlb\<lparr>batch := Some \<lparr>nr = 1 + length qs, tables = [p] @ qs\<rparr>\<rparr>)"
    using assms(4) Cons
    by (subst sa_tlb_add_all_batch [where b = "\<lparr>nr = 1, tables = [p]\<rparr>"]) simp_all
  ultimately show ?thesis using Cons by simp
qed (use assms in simp)

lemma sa_tlb_add_full:
  assumes "batch tlb = Some b" "nr b = MAX_BATCH_SIZE"
  shows "sa_tlb_add gs p tlb = None"
  using assms by (simp add: sa_tlb_add_def)

lemma sa_tlb_add_last:
  assumes "batch tlb = Some b" "Suc (nr b) = MAX_BATCH_SIZE"
  shows "sa_tlb_add gs p tlb = Some (tlb\<lparr>batch := Some \<lparr>nr = MAX_BATCH_SIZE, tables = tables b @ [p]\<rparr>,
    freed := freed tlb @ tables b @ [p]\<rparr>)"
  using assms by (simp add: sa_tlb_add_def)

text \<open>The first 510 tables handed to \<open>sa_tlb_add\<close> stay in the batch and none is
  freed (nothing drains the batch later); the 511th fills the batch and frees all of them;
  since the counter is not reset, the 512th is stored outside the batch page.\<close>

lemma sa_tlb_add_batching:
  assumes "batch tlb = None" and "gs (gtick tlb)" and "length ps = 510"
  shows "\<exists>tlb1 tlb2. sa_tlb_add_all gs ps tlb = Some tlb1 \<and> freed tlb1 = freed tlb \<and>
    sa_tlb_add gs q tlb1 = Some tlb2 \<and> freed tlb2 = freed tlb @ ps @ [q] \<and>
    sa_tlb_add gs r tlb2 = None"
proof -
  let ?t1 = "tlb\<lparr>gtick := Suc (gtick tlb), batch := Some \<lparr>nr = 510, tables = ps\<rparr>\<rparr>"
  let ?t2 = "?t1\<lparr>batch := Some \<lparr>nr = MAX_BATCH_SIZE, tables = ps @ [q]\<rparr>, freed := freed tlb @ ps @ [q]\<rparr>"
  have "sa_tlb_add_all gs ps tlb = Some ?t1"
    using sa_tlb_add_all_first [of tlb gs ps] assms by (simp add: MAX_BATCH_SIZE_eq)
  moreover have "sa_tlb_add gs q ?t1 = Some ?t2"
    by (subst sa_tlb_add_last [where b = "\<lparr>nr = 510, tables = ps\<rparr>"]) (simp_all add: MAX_BATCH_SIZE_eq)
  moreover have "sa_tlb_add gs r ?t2 = None"
    by (rule sa_tlb_add_full [where b = "\<lparr>nr = MAX_BATCH_SIZE, tables = ps @ [q]\<rparr>"]) simp_all
  ultimately show ?thesis by fastforce
qed

subsection \<open>The walk over the whole address space\<close>

lemma addr_end_full:
  assumes "S \<in> {39, 48}" "i < 512"
  shows "addr_end S (of_nat (i * 2 ^ S)) 0 = of_nat (Suc i * 2 ^ S)" "of_nat (Suc i * 2 ^ S) \<noteq> (0 :: u64)"
proof -
  have S: "S < 64" using assms(1) by auto
  have lt: "Suc i * 2 ^ S < 2 ^ 64"
  proof -
    have "Suc i * 2 ^ S \<le> 512 * 2 ^ 48"
      using assms by (intro mult_le_mono) auto
    then show ?thesis by simp
  qed
  show nz: "of_nat (Suc i * 2 ^ S) \<noteq> (0 :: u64)"
    using lt by (subst word_of_nat_eq_0_iff) (auto dest: dvd_imp_le)
  have "of_nat (i * 2 ^ S) + 2 ^ S = (of_nat (Suc i * 2 ^ S) :: u64)"
    by (simp add: algebra_simps)
  moreover have "of_nat (Suc i * 2 ^ S) AND level_mask S = (of_nat (Suc i * 2 ^ S) :: u64)"
    using lt by (simp add: word_unat_eq_iff level_mask_def unat_and_not_mask unat_of_nat del: mult_Suc of_nat_mult)
  moreover have "of_nat (Suc i * 2 ^ S) - 1 < (0 :: u64) - 1"
  proof -
    have "of_nat (Suc i * 2 ^ S) - 1 \<noteq> (0 :: u64) - 1"
      using nz by (simp add: diff_eq_eq del: mult_Suc of_nat_mult)
    moreover have "of_nat (Suc i * 2 ^ S) - 1 \<le> (0 :: u64) - 1"
      by simp
    ultimately show ?thesis by (rule order_neq_le_trans)
  qed
  ultimately show "addr_end S (of_nat (i * 2 ^ S)) 0 = of_nat (Suc i * 2 ^ S)"
    by (simp add: addr_end_def Let_def del: mult_Suc of_nat_mult)
qed

lemma free_loop_full:
  assumes "S \<in> {39, 48}" "i \<le> 512"
  shows "free_loop S 512 body 0 i (of_nat (i * 2 ^ S)) t st = None"
  using assms(2)
proof (induction "512 - i" arbitrary: i t st)
  case 0
  then show ?case by (subst free_loop.simps) simp
next
  case (Suc k)
  then have i: "i < 512" by simp
  note n = addr_end_full [OF assms(1) i]
  have "free_loop S 512 body 0 (Suc i) (of_nat (Suc i * 2 ^ S)) t' st' = None" for t' st'
    using Suc i by (intro Suc.hyps(1)) simp_all
  then show ?case
    using n i by (subst free_loop.simps)
      (auto split: option.splits entry.splits simp del: mult_Suc of_nat_mult)
qed

text \<open>The call \<open>__free_pgd_range(&tlb, 0, 0, 0, 0)\<close> with which the destructor of
  an allocator frees the tables of its process always has undefined behaviour: an \<open>end\<close>
  of 0 stands for \<open>2 ^ 64\<close>, and the walk leaves the pgd page after its 512 entries.\<close>

lemma free_pgd_whole:
  "free_pgd_range l5 gs 0 0 0 0 tlb mm = None"
proof -
  have S: "PGDIR_SHIFT l5 \<in> {39, 48}" by (simp add: PGDIR_SHIFT_def)
  have "free_loop (PGDIR_SHIFT l5) 512 (free_p4d_range l5 gs 0 0) 0 0 0 (pgd mm) (tlb, mm) = None"
    using free_loop_full [OF S, of 0] by simp
  then show ?thesis
    by (simp add: free_pgd_range_def Let_def pt_index_def leD [OF word_m1_ge])
qed

text \<open>\<open>free_pud_range\<close> touches the first pud entry of its range only, however many
  entries the range spans.\<close>

lemma free_pud_range_one_entry:
  assumes "free_pud_range gs flr ceiling addr e (ETab t) st = Some (ETab t', st')"
    and "i \<noteq> pt_index PUD_SHIFT PTRS addr"
  shows "t' i = t i"
  using assms by (auto simp: free_pud_range_def tab_of_def Let_def bind_eq_Some_conv split: if_splits)

end
