(* ===== verification/Shadow_Api.thy ===== *)
theory Shadow_Api
  imports Table_Free
begin

text \<open>
  The interface of the module, \<^verbatim>\<open>lkm/core/api.c\<close> from \<open>alloc_create\<close> to
  \<open>sa_free\<close>: the registry of allocators (one per thread group, reference counted), and
  the operations that give a thread its shadow stack, duplicate it after a fork and take it
  back.

  Allocator descriptors are shared between threads, so they live in an explicit heap
  \<open>allocs\<close> from pointers to descriptors; a pointer outside its domain dangles and
  dereferencing it is undefined. The registry \<open>sa_allocators\<close> and the array
  \<open>threads\<close> are xarrays, that is maps; a slot of \<open>threads\<close> reserved by
  \<open>xa_alloc\<close> with a NULL entry holds \<open>None\<close>, and \<open>xa_for_each\<close> skips it.
  Thread descriptors and page lists have one owner and are passed by value. The caller is
  the record \<open>task\<close> (\<open>current\<close>).

  Which free index \<open>xa_alloc\<close> returns, and whether an xarray operation runs out of
  memory, are the parameters \<open>xa_pick\<close> and \<open>xa_nomem\<close>; the contract
  \<open>api_src_ok\<close> says that a returned index was free and within the limit. All services
  of the kernel together are the record \<open>api_src\<close>.

  Every address space has page tables of its own, down from the pgd. With four levels that is so
  for the window, whose pgd entries belong to the process; with five levels the window lies under
  the last pgd entry, whose p4d table the kernel shares between all processes, and this sharing is
  not modelled.
\<close>

record sa_thread_desc =
  tid :: int
  thread_addr :: u64
  pagelist :: sa_pagelist

record sa_allocator_desc =
  tgid :: int
  alloc_mm :: "nat option"
  al_lock :: bool
  threads :: "u32 \<rightharpoonup> sa_thread_desc option"
  max_id :: int
  kref :: nat

record kernel = gl_state +
  mms :: "nat \<rightharpoonup> mm_struct"
  allocs :: "nat \<rightharpoonup> sa_allocator_desc"
  sa_allocators :: "int \<rightharpoonup> nat"

record task =
  task_mm :: "nat option"
  task_tgid :: int
  task_pid :: int

record api_src =
  src :: ksrc
  max_order :: nat
  junk :: sa_pagelist
  five_level :: bool
  table_ok :: table_src
  batch_ok :: "nat \<Rightarrow> bool"
  xa_pick :: "u64 \<Rightarrow> u32 set \<Rightarrow> nat \<Rightarrow> int + u32"
  xa_nomem :: "nat \<Rightarrow> bool"

definition api_src_ok :: "api_src \<Rightarrow> bool" where
  "api_src_ok K \<longleftrightarrow> ksrc_ok (src K) \<and>
     (\<forall>lim U t. case xa_pick K lim U t of
        Inl err \<Rightarrow> err < 0
      | Inr n \<Rightarrow> n \<notin> U \<and> unat n \<le> unat lim)"

subsection \<open>Access to the shared objects\<close>

definition upd_alloc ::
  "nat \<Rightarrow> (sa_allocator_desc \<Rightarrow> sa_allocator_desc) \<Rightarrow> 'a kernel_scheme \<Rightarrow> 'a kernel_scheme option" where
  "upd_alloc p f s = do { a \<leftarrow> allocs s p; Some (s\<lparr>allocs := (allocs s)(p \<mapsto> f a)\<rparr>) }"

definition with_mm ::
  "nat \<Rightarrow> (mm_struct \<Rightarrow> ('r \<times> mm_struct) option) \<Rightarrow> 'a kernel_scheme \<Rightarrow> ('r \<times> 'a kernel_scheme) option" where
  "with_mm p f s = do {
     mm \<leftarrow> mms s p;
     (r, mm) \<leftarrow> f mm;
     Some (r, s\<lparr>mms := (mms s)(p \<mapsto> mm)\<rparr>) }"

definition mmap_write_lock :: "mm_struct \<Rightarrow> mm_struct option" where
  "mmap_write_lock mm = do { ensure (\<not> mmap_locked mm); Some (mm\<lparr>mmap_locked := True\<rparr>) }"

definition mmap_write_unlock :: "mm_struct \<Rightarrow> mm_struct option" where
  "mmap_write_unlock mm = do { ensure (mmap_locked mm); Some (mm\<lparr>mmap_locked := False\<rparr>) }"

subsection \<open>The registry of allocators\<close>

text \<open>\<open>WARN_ONCE\<close> only prints. The tables of the process are freed over the range
  \<open>(0, 0)\<close>; \<open>mmdrop\<close> drops the reference to the mm, whose lifetime is the kernel's.\<close>

definition alloc_destroy_callback ::
  "api_src \<Rightarrow> nat \<Rightarrow> 'a kernel_scheme \<Rightarrow> 'a kernel_scheme option" where
  "alloc_destroy_callback K p s = do {
     a \<leftarrow> allocs s p;
     s \<leftarrow> (case alloc_mm a of
             None \<Rightarrow> Some s
           | Some m \<Rightarrow> do {
               (_, s) \<leftarrow> with_mm m (\<lambda>mm. do {
                   mm \<leftarrow> mmap_write_lock mm;
                   (_, mm) \<leftarrow> free_pgd_range (five_level K) (batch_ok K) 0 0 0 0 sa_tlb_init mm;
                   mm \<leftarrow> mmap_write_unlock mm;
                   Some ((), mm) }) s;
               Some s });
     Some (s\<lparr>allocs := (allocs s)(p := None)\<rparr>) }"

text \<open>\<open>kref_put\<close>: the last reference runs the destructor; putting a count of zero is
  undefined.\<close>

definition alloc_put :: "api_src \<Rightarrow> nat \<Rightarrow> 'a kernel_scheme \<Rightarrow> 'a kernel_scheme option" where
  "alloc_put K p s = do {
     a \<leftarrow> allocs s p;
     ensure (kref a > 0);
     s \<leftarrow> upd_alloc p (\<lambda>a. a\<lparr>kref := kref a - 1\<rparr>) s;
     if kref a = 1 then alloc_destroy_callback K p s else Some s }"

text \<open>The pointer \<open>kmalloc\<close> returns is the argument \<open>p\<close>; it is not in use.\<close>

definition alloc_create ::
  "api_src \<Rightarrow> nat \<Rightarrow> int \<Rightarrow> nat option \<Rightarrow> 'a kernel_scheme \<Rightarrow> (nat option \<times> 'a kernel_scheme) option" where
  "alloc_create K p tg m s =
     (case kmalloc (src K) s of
        (False, s) \<Rightarrow> Some (None, s)
      | (True, s) \<Rightarrow> do {
          ensure (allocs s p = None);
          let s = s\<lparr>allocs := (allocs s)(p \<mapsto>
            \<lparr>tgid = tg, alloc_mm = m, al_lock = False, threads = Map.empty, max_id = 0, kref = 1\<rparr>)\<rparr>;
          if sa_allocators s tg \<noteq> None \<or> xa_nomem K (tick s)
          then Some (None, s\<lparr>allocs := (allocs s)(p := None)\<rparr>)
          else Some (Some p, s\<lparr>sa_allocators := (sa_allocators s)(tg \<mapsto> p)\<rparr>) })"

definition alloc_destroy :: "api_src \<Rightarrow> nat option \<Rightarrow> 'a kernel_scheme \<Rightarrow> 'a kernel_scheme option" where
  "alloc_destroy K q s =
     (case q of
        None \<Rightarrow> Some s
      | Some p \<Rightarrow> do {
          a \<leftarrow> allocs s p;
          alloc_put K p (s\<lparr>sa_allocators := (sa_allocators s)(tgid a := None)\<rparr>) })"

definition alloc_find :: "int \<Rightarrow> 'a kernel_scheme \<Rightarrow> nat option" where
  "alloc_find tg s = sa_allocators s tg"

definition alloc_get :: "int \<Rightarrow> 'a kernel_scheme \<Rightarrow> (nat option \<times> 'a kernel_scheme) option" where
  "alloc_get tg s =
     (case alloc_find tg s of
        None \<Rightarrow> Some (None, s)
      | Some p \<Rightarrow> do {
          a \<leftarrow> allocs s p;
          if kref a \<noteq> 0 then do { s \<leftarrow> upd_alloc p (\<lambda>a. a\<lparr>kref := kref a + 1\<rparr>) s; Some (Some p, s) }
          else Some (None, s) })"

subsection \<open>The maximum slot number\<close>

text \<open>The compare-and-exchange loop of \<open>atomic64_max\<close>. \<open>seen\<close> lists the values
  other processors leave in the counter, one per attempt, before the attempt reads it; when
  the list ends nobody interferes any more. The result is the counter's value after the
  function returns.\<close>

fun atomic64_max_loop :: "int list \<Rightarrow> int \<Rightarrow> int \<Rightarrow> int \<Rightarrow> int" where
  "atomic64_max_loop seen old val n =
     (if old \<ge> n then val
      else if val = old then n
      else (case seen of
              [] \<Rightarrow> (if val \<ge> n then val else n)
            | v # seen \<Rightarrow> atomic64_max_loop seen val v n))"

declare atomic64_max_loop.simps [simp del]

definition atomic64_max :: "int \<Rightarrow> int \<Rightarrow> int" where
  "atomic64_max val n = atomic64_max_loop [] val val n"

subsection \<open>Allocating a stack\<close>

text \<open>\<open>xa_alloc\<close> with a NULL entry reserves a free slot.\<close>

definition xa_alloc_thread ::
  "api_src \<Rightarrow> nat \<Rightarrow> 'a kernel_scheme \<Rightarrow> ((int + u32) \<times> 'a kernel_scheme) option" where
  "xa_alloc_thread K p s = do {
     a \<leftarrow> allocs s p;
     case xa_pick K THREADS_LIMIT (dom (threads a)) (tick s) of
       Inl err \<Rightarrow> Some (Inl err, s\<lparr>tick := Suc (tick s)\<rparr>)
     | Inr n \<Rightarrow> do {
         s \<leftarrow> upd_alloc p (\<lambda>a. a\<lparr>threads := (threads a)(n \<mapsto> None)\<rparr>) (s\<lparr>tick := Suc (tick s)\<rparr>);
         Some (Inr n, s) } }"

definition xa_erase_thread :: "nat \<Rightarrow> u32 \<Rightarrow> 'a kernel_scheme \<Rightarrow> (sa_thread_desc option \<times> 'a kernel_scheme) option" where
  "xa_erase_thread p n s = do {
     a \<leftarrow> allocs s p;
     s \<leftarrow> upd_alloc p (\<lambda>a. a\<lparr>threads := (threads a)(n := None)\<rparr>) s;
     Some (case threads a n of Some r \<Rightarrow> r | None \<Rightarrow> None, s) }"

text \<open>Lock the address space, map the stack, unlock, flush.\<close>

definition map_stack ::
  "api_src \<Rightarrow> nat \<Rightarrow> u64 \<Rightarrow> sa_pagelist \<Rightarrow> 'a kernel_scheme \<Rightarrow> (int \<times> 'a kernel_scheme) option" where
  "map_stack K m addr pl s =
     with_mm m (\<lambda>mm. do {
       mm \<leftarrow> mmap_write_lock mm;
       (err, mm) \<leftarrow> map_range (five_level K) (table_ok K) addr (addr + SS_SIZE) pl mm;
       mm \<leftarrow> mmap_write_unlock mm;
       Some (err, my_flush_tlb_mm mm) }) s"

text \<open>The status and what was stored through the pointer \<open>addr\<close> (\<open>None\<close>: nothing).
  The tail of the function releases, in reverse order, what was acquired before the
  failure: labels \<open>err_stack\<close>, \<open>err_thread\<close>, \<open>err_erase\<close>, \<open>err_put\<close>. The second
  half of the function, once slot and pages are there, is \<open>sa_alloc_map\<close>.\<close>

definition sa_alloc_map ::
  "api_src \<Rightarrow> task \<Rightarrow> nat \<Rightarrow> nat \<Rightarrow> u32 \<Rightarrow> sa_pagelist \<Rightarrow> 'a kernel_scheme \<Rightarrow>
   (int \<times> u64 option \<times> 'a kernel_scheme) option" where
  "sa_alloc_map K cur m p n pl s = do {
     let addr = id_to_addr n;
     (err, s) \<leftarrow> map_stack K m addr pl s;
     if err \<noteq> 0 then do {
       s \<leftarrow> gl_free pl s;
       (_, s) \<leftarrow> xa_erase_thread p n s;
       s \<leftarrow> alloc_put K p s;
       Some (err, Some addr, s) }
     else do {
       s \<leftarrow> upd_alloc p (\<lambda>a. a\<lparr>max_id := atomic64_max (max_id a) (int (unat n)),
               threads := (threads a)(n \<mapsto> Some
                 \<lparr>tid = task_pid cur, thread_addr = addr, pagelist = pl\<rparr>)\<rparr>) s;
       Some (err, Some addr, s) } }"

definition sa_alloc ::
  "api_src \<Rightarrow> task \<Rightarrow> 'a kernel_scheme \<Rightarrow> (int \<times> u64 option \<times> 'a kernel_scheme) option" where
  "sa_alloc K cur s =
     (case task_mm cur of
        None \<Rightarrow> Some (- EINVAL, None, s)
      | Some m \<Rightarrow> do {
          (r, s) \<leftarrow> alloc_get (task_tgid cur) s;
          case r of
            None \<Rightarrow> Some (- ENOMEM, None, s)
          | Some p \<Rightarrow> do {
              (r, s) \<leftarrow> xa_alloc_thread K p s;
              case r of
                Inl err \<Rightarrow> do { s \<leftarrow> alloc_put K p s; Some (err, None, s) }
              | Inr n \<Rightarrow>
                  (case kmalloc (src K) s of
                     (False, s) \<Rightarrow> do {
                       (_, s) \<leftarrow> xa_erase_thread p n s;
                       s \<leftarrow> alloc_put K p s;
                       Some (- ENOMEM, None, s) }
                   | (True, s) \<Rightarrow> do {
                       (err, r, s) \<leftarrow> gl_alloc_stack (src K) (max_order K) (junk K) s;
                       case r of
                         None \<Rightarrow> do {
                           (_, s) \<leftarrow> xa_erase_thread p n s;
                           s \<leftarrow> alloc_put K p s;
                           Some (err, None, s) }
                       | Some pl \<Rightarrow> sa_alloc_map K cur m p n pl s }) } })"

subsection \<open>Freeing a stack\<close>

definition sa_free :: "api_src \<Rightarrow> task \<Rightarrow> u64 \<Rightarrow> 'a kernel_scheme \<Rightarrow> (int \<times> 'a kernel_scheme) option" where
  "sa_free K cur addr s =
     (case task_mm cur of
        None \<Rightarrow> Some (- EINVAL, s)
      | Some m \<Rightarrow>
          if \<not> addr_valid addr then Some (- EINVAL, s)
          else (case alloc_find (task_tgid cur) s of
            None \<Rightarrow> Some (- EINVAL, s)
          | Some p \<Rightarrow> do {
              a \<leftarrow> allocs s p;
              ensure (\<not> al_lock a);
              (r, s) \<leftarrow> xa_erase_thread p (addr_to_id addr) s;
              case r of
                None \<Rightarrow> Some (- EINVAL, s)
              | Some t \<Rightarrow> do {
                  (_, s) \<leftarrow> with_mm m (\<lambda>mm. do {
                      mm \<leftarrow> mmap_write_lock mm;
                      mm \<leftarrow> unmap_range addr (addr + SS_SIZE) mm;
                      mm \<leftarrow> mmap_write_unlock mm;
                      Some ((), mm) }) s;
                  s \<leftarrow> gl_free (pagelist t) s;
                  s \<leftarrow> alloc_put K p s;
                  Some (0, s) } }))"

subsection \<open>Duplicating a stack after a fork\<close>

text \<open>\<open>xa_for_each\<close> visits the present entries in the order of their index.\<close>

fun find_thread :: "int \<Rightarrow> (u32 \<rightharpoonup> sa_thread_desc option) \<Rightarrow> u32 list \<Rightarrow> (u32 \<times> sa_thread_desc) option" where
  "find_thread pid ths [] = None"
| "find_thread pid ths (n # ns) =
     (case ths n of
        Some (Some t) \<Rightarrow> if tid t \<noteq> pid then find_thread pid ths ns else Some (n, t)
      | _ \<Rightarrow> find_thread pid ths ns)"

text \<open>\<open>for (i = 0; i < nr_pages; ++i) copy_highpage(stack->pages[i], t->pagelist->pages[i])\<close>.\<close>

function copy_pages_loop ::
  "nat \<Rightarrow> nat \<Rightarrow> page option list \<Rightarrow> page option list \<Rightarrow> 'a pmem_scheme \<Rightarrow> 'a pmem_scheme option" where
  "copy_pages_loop i n dst from s =
     (if i < n then
        (case (aget dst i, aget from i) of
           (Some (Some d), Some (Some p)) \<Rightarrow>
             (case copy_highpage d p s of
                None \<Rightarrow> None
              | Some s \<Rightarrow> copy_pages_loop (Suc i) n dst from s)
         | _ \<Rightarrow> None)
      else Some s)"
  by pat_completeness auto
termination
  by (relation "measure (\<lambda>(i, n, dst, from, s). n - i)") auto

declare copy_pages_loop.simps [simp del]

definition copy_stack :: "sa_pagelist \<Rightarrow> sa_pagelist \<Rightarrow> 'a pmem_scheme \<Rightarrow> 'a pmem_scheme option" where
  "copy_stack dst from s =
     (if nr_pages from \<le> 0 then Some s
      else do {
        d \<leftarrow> pages dst;
        p \<leftarrow> pages from;
        copy_pages_loop 0 (nat (nr_pages from)) d p s })"

text \<open>\<open>xa_insert\<close> refuses an occupied slot.\<close>

definition xa_insert_thread ::
  "api_src \<Rightarrow> nat \<Rightarrow> u32 \<Rightarrow> sa_thread_desc \<Rightarrow> 'a kernel_scheme \<Rightarrow> (int \<times> 'a kernel_scheme) option" where
  "xa_insert_thread K p n t s = do {
     a \<leftarrow> allocs s p;
     if threads a n \<noteq> None then Some (- EBUSY, s)
     else if xa_nomem K (tick s) then Some (- ENOMEM, s)
     else do {
       s \<leftarrow> upd_alloc p (\<lambda>a. a\<lparr>threads := (threads a)(n \<mapsto> Some t)\<rparr>) s;
       Some (0, s) } }"

text \<open>The second half of \<open>sa_fork\<close>, once the parent's stack has been copied.\<close>

definition sa_fork_map ::
  "api_src \<Rightarrow> task \<Rightarrow> nat \<Rightarrow> nat \<Rightarrow> u32 \<Rightarrow> sa_pagelist \<Rightarrow> 'a kernel_scheme \<Rightarrow> (int \<times> 'a kernel_scheme) option" where
  "sa_fork_map K cur m child n stack s = do {
     let addr = id_to_addr n;
     (err, s) \<leftarrow> xa_insert_thread K child n
        \<lparr>tid = task_pid cur, thread_addr = addr, pagelist = stack\<rparr> s;
     if err \<noteq> 0 then do {
       s \<leftarrow> gl_free stack s;
       s \<leftarrow> alloc_put K child s;
       Some (err, s) }
     else do {
       (err, s) \<leftarrow> map_stack K m addr stack s;
       if err \<noteq> 0 then do {
         (_, s) \<leftarrow> xa_erase_thread child n s;
         s \<leftarrow> gl_free stack s;
         s \<leftarrow> alloc_put K child s;
         Some (err, s) }
       else do {
         s \<leftarrow> upd_alloc child (\<lambda>a. a\<lparr>max_id := atomic64_max (max_id a) (int (unat n))\<rparr>) s;
         Some (0, s) } } }"

definition sa_fork ::
  "api_src \<Rightarrow> task \<Rightarrow> int \<Rightarrow> int \<Rightarrow> 'a kernel_scheme \<Rightarrow> (int \<times> 'a kernel_scheme) option" where
  "sa_fork K cur parent_tgid parent_pid s =
     (case task_mm cur of
        None \<Rightarrow> Some (- EINVAL, s)
      | Some m \<Rightarrow> do {
          (r, s) \<leftarrow> alloc_get (task_tgid cur) s;
          case r of
            None \<Rightarrow> Some (- ENOMEM, s)
          | Some child \<Rightarrow>
              (case alloc_find parent_tgid s of
                 None \<Rightarrow> do { s \<leftarrow> alloc_put K child s; Some (- ENOENT, s) }
               | Some parent \<Rightarrow>
                   (case kmalloc (src K) s of
                      (False, s) \<Rightarrow> do { s \<leftarrow> alloc_put K child s; Some (- ENOMEM, s) }
                    | (True, s) \<Rightarrow> do {
                        (err, r, s) \<leftarrow> gl_alloc_stack (src K) (max_order K) (junk K) s;
                        case r of
                          None \<Rightarrow> do { s \<leftarrow> alloc_put K child s; Some (err, s) }
                        | Some stack \<Rightarrow> do {
                            a \<leftarrow> allocs s parent;
                            ensure (\<not> al_lock a);
                            case find_thread parent_pid (threads a) (sorted_list_of_set (dom (threads a))) of
                              None \<Rightarrow> do {
                                s \<leftarrow> gl_free stack s;
                                s \<leftarrow> alloc_put K child s;
                                Some (- ENOENT, s) }
                            | Some (n, t) \<Rightarrow> do {
                                s \<leftarrow> copy_stack stack (pagelist t) s;
                                sa_fork_map K cur m child n stack s } } })) })"

end
