(* ===== verification/Api_Invariant.thy ===== *)
theory Api_Invariant
  imports Shadow_Api
begin

text \<open>
  The system invariant of the module and its preservation by the operations of
  \<open>Shadow_Api\<close>. Between two requests: the free list is well formed; every registered
  allocator exists, is unlocked, and its reference count is one more than the number of its
  threads; no slot is left reserved; every thread's stack occupies its slot, is held (its
  pages are in use and not on the free list) and is what the page tables of the process map
  there; no page belongs to two threads.
\<close>

subsection \<open>What an update of one part leaves alone\<close>

lemma gl_parts [simp, frame_simps]:
  "gl_inv (s\<lparr>allocs := x\<rparr>) = gl_inv s" "gl_inv (s\<lparr>mms := y\<rparr>) = gl_inv s"
  "gl_inv (s\<lparr>sa_allocators := z\<rparr>) = gl_inv s" "gl_inv (s\<lparr>tick := t\<rparr>) = gl_inv s"
  "owned (s\<lparr>allocs := x\<rparr>) = owned s" "owned (s\<lparr>mms := y\<rparr>) = owned s"
  "owned (s\<lparr>sa_allocators := z\<rparr>) = owned s" "owned (s\<lparr>tick := t\<rparr>) = owned s"
  "held (s\<lparr>allocs := x\<rparr>) pl = held s pl" "held (s\<lparr>mms := y\<rparr>) pl = held s pl"
  "held (s\<lparr>sa_allocators := z\<rparr>) pl = held s pl" "held (s\<lparr>tick := t\<rparr>) pl = held s pl"
  by (simp_all add: gl_inv_def owned_def held_def gl_frames_def)

lemma given_parts [simp, frame_simps]:
  "stack_given (s\<lparr>allocs := x\<rparr>) pl s' = stack_given s pl s'"
  "stack_given (s\<lparr>tick := t\<rparr>) pl s' = stack_given s pl s'"
  "stack_given s pl (s'\<lparr>allocs := x\<rparr>) = stack_given s pl s'"
  "stack_given s pl (s'\<lparr>mms := y\<rparr>) = stack_given s pl s'"
  "stack_refused (s\<lparr>allocs := x\<rparr>) s' = stack_refused s s'"
  "stack_refused (s\<lparr>tick := t\<rparr>) s' = stack_refused s s'"
  "stack_refused s (s'\<lparr>allocs := x\<rparr>) = stack_refused s s'"
  "stack_returned pl (s\<lparr>mms := y\<rparr>) s' = stack_returned pl s s'"
  "stack_returned pl (s\<lparr>allocs := x\<rparr>) s' = stack_returned pl s s'"
  "stack_returned pl s (s'\<lparr>allocs := x\<rparr>) = stack_returned pl s s'"
  by (simp_all add: stack_given_def stack_refused_def stack_returned_def)

lemma more_kernelD:
  "gl_state.more s' = gl_state.more s \<Longrightarrow>
    mms s' = mms s \<and> allocs s' = allocs s \<and> sa_allocators s' = sa_allocators s \<and>
    kernel.more s' = kernel.more s"
  by (cases s; cases s') (simp add: kernel.defs)

text \<open>What every thread other than those concerned observes of a failed or a foreign
  request: its pages stay its own, with their contents.\<close>

definition pages_kept :: "'a gl_state_scheme \<Rightarrow> 'a gl_state_scheme \<Rightarrow> bool" where
  "pages_kept s s' \<longleftrightarrow> owned s' = owned s \<and> unsplit s' = unsplit s \<and>
     (\<forall>q \<in> owned s. content s' q = content s q)"

lemma pages_kept_refl [simp]: "pages_kept s s"
  by (simp add: pages_kept_def)

lemma pages_kept_parts [simp, frame_simps]:
  "pages_kept s (s'\<lparr>allocs := x\<rparr>) = pages_kept s s'" "pages_kept s (s'\<lparr>tick := t\<rparr>) = pages_kept s s'"
  by (simp_all add: pages_kept_def)

lemma pages_kept_refused: "stack_refused s s' \<Longrightarrow> pages_kept s s'"
  by (simp add: pages_kept_def stack_refused_def)

text \<open>The client owns a new stack, with whatever contents.\<close>

definition stack_taken :: "'a gl_state_scheme \<Rightarrow> sa_pagelist \<Rightarrow> 'a gl_state_scheme \<Rightarrow> bool" where
  "stack_taken s pl s' \<longleftrightarrow> wf_pagelist STACK_PAGES pl \<and> set (frames pl) \<inter> owned s = {} \<and>
     owned s' = owned s \<union> set (frames pl) \<and>
     unsplit s' = unsplit s \<and> set (frames pl) \<inter> unsplit s = {} \<and>
     (\<forall>q \<in> owned s. content s' q = content s q)"

lemma stack_given_taken: "stack_given s pl s' \<Longrightarrow> stack_taken s pl s'"
  by (simp add: stack_taken_def stack_given_def)

lemma stack_taken_held: "stack_taken s pl s' \<Longrightarrow> held s' pl"
  by (auto simp: stack_taken_def held_def)

lemma stack_taken_parts [simp, frame_simps]:
  "stack_taken s pl (s'\<lparr>allocs := x\<rparr>) = stack_taken s pl s'"
  "stack_taken s pl (s'\<lparr>mms := y\<rparr>) = stack_taken s pl s'"
  by (simp_all add: stack_taken_def)

lemma pages_kept_undo:
  assumes "stack_taken s pl s1" "stack_returned pl s1 s2"
  shows "pages_kept s s2"
proof -
  have "owned s2 = owned s"
    using assms unfolding stack_taken_def stack_returned_def by blast
  then show ?thesis
    using assms by (simp add: pages_kept_def stack_taken_def stack_returned_def)
qed

lemma held_pages_kept: "pages_kept s s' \<Longrightarrow> held s pl \<Longrightarrow> held s' pl"
  by (simp add: pages_kept_def held_def)

subsection \<open>Runs of the building blocks\<close>

lemma alloc_get_run:
  assumes "sa_allocators s g = Some p" "allocs s p = Some a" "kref a > 0"
  shows "alloc_get g s = Some (Some p, s\<lparr>allocs := (allocs s)(p \<mapsto> a\<lparr>kref := Suc (kref a)\<rparr>)\<rparr>)"
  using assms by (simp add: alloc_get_def alloc_find_def upd_alloc_def)

lemma alloc_put_run:
  assumes "allocs s p = Some a" "kref a = Suc (Suc k)"
  shows "alloc_put K p s = Some (s\<lparr>allocs := (allocs s)(p \<mapsto> a\<lparr>kref := Suc k\<rparr>)\<rparr>)"
  using assms by (simp add: alloc_put_def upd_alloc_def)

lemma xa_erase_thread_run:
  assumes "allocs s p = Some a"
  shows "xa_erase_thread p n s = Some (Option.bind (threads a n) (\<lambda>r. r),
    s\<lparr>allocs := (allocs s)(p \<mapsto> a\<lparr>threads := (threads a)(n := None)\<rparr>)\<rparr>)"
  using assms by (auto simp: xa_erase_thread_def upd_alloc_def split: option.splits)

lemma map_stack_run:
  assumes "mms s m = Some mm" "\<not> mmap_locked mm" "wf_pgd (five_level K) (pgd mm)"
    "wf_pagelist STACK_PAGES pl" "unat n \<le> 0x220000"
  shows "\<exists>err mm'. map_stack K m (id_to_addr n) pl s = Some (err, s\<lparr>mms := (mms s)(m \<mapsto> mm')\<rparr>) \<and>
    \<not> mmap_locked mm' \<and> wf_pgd (five_level K) (pgd mm') \<and> (err = 0 \<or> err = - ENOMEM) \<and>
    (err = 0 \<longrightarrow> stack_mapped (five_level K) (pgd mm') n pl) \<and>
    slot_only (five_level K) n (pgd mm) (pgd mm')"
proof -
  let ?mm = "mm\<lparr>mmap_locked := True\<rparr>"
  obtain err mm' where
    "map_range (five_level K) (table_ok K) (id_to_addr n) (id_to_addr n + SS_SIZE) pl ?mm = Some (err, mm')"
    "wf_pgd (five_level K) (pgd mm')" "mmap_locked mm'" "err = 0 \<or> err = - ENOMEM"
    "err = 0 \<longrightarrow> stack_mapped (five_level K) (pgd mm') n pl"
    "slot_only (five_level K) n (pgd mm) (pgd mm')"
    using map_slot_outcome [of ?mm "five_level K" pl n "table_ok K"] assms by auto
  with assms(1,2) show ?thesis
    by (auto simp: map_stack_def with_mm_def mmap_write_lock_def mmap_write_unlock_def
        my_flush_tlb_mm_def flush_tlb_mm_range_def)
qed

subsection \<open>One allocation\<close>

definition mm_ok :: "bool \<Rightarrow> mm_struct \<Rightarrow> bool" where
  "mm_ok l5 mm \<longleftrightarrow> \<not> mmap_locked mm \<and> wf_pgd l5 (pgd mm)"

text \<open>A request that fails: what it leaves behind differs at most in the translation of the
  slot it had reserved, which was free.\<close>

definition alloc_failed ::
  "bool \<Rightarrow> nat \<Rightarrow> sa_allocator_desc \<Rightarrow> 'a kernel_scheme \<Rightarrow> 'a kernel_scheme \<Rightarrow> bool" where
  "alloc_failed l5 m a s s' \<longleftrightarrow> gl_inv s' \<and> sa_allocators s' = sa_allocators s \<and>
     allocs s' = allocs s \<and> pages_kept s s' \<and>
     (mms s' = mms s \<or> (\<exists>n mm mm'. mms s m = Some mm \<and> mms s' = (mms s)(m \<mapsto> mm') \<and> mm_ok l5 mm' \<and>
        n \<notin> dom (threads a) \<and> unat n \<le> 0x220000 \<and> slot_only l5 n (pgd mm) (pgd mm')))"

definition thread_added ::
  "bool \<Rightarrow> nat \<Rightarrow> nat \<Rightarrow> sa_allocator_desc \<Rightarrow> u32 \<Rightarrow> sa_thread_desc \<Rightarrow>
   'a kernel_scheme \<Rightarrow> 'a kernel_scheme \<Rightarrow> bool" where
  "thread_added l5 m p a n t s s' \<longleftrightarrow> gl_inv s' \<and> sa_allocators s' = sa_allocators s \<and>
     allocs s' = (allocs s)(p \<mapsto> a\<lparr>kref := Suc (kref a),
        max_id := max (max_id a) (int (unat n)), threads := (threads a)(n \<mapsto> Some t)\<rparr>) \<and>
     n \<notin> dom (threads a) \<and> unat n \<le> 0x220000 \<and> thread_addr t = id_to_addr n \<and>
     stack_taken s (pagelist t) s' \<and>
     (\<exists>mm mm'. mms s m = Some mm \<and> mms s' = (mms s)(m \<mapsto> mm') \<and> mm_ok l5 mm' \<and>
        stack_mapped l5 (pgd mm') n (pagelist t) \<and> slot_only l5 n (pgd mm) (pgd mm'))"

lemma atomic64_max_eq: "atomic64_max v n = max v n"
  by (simp add: atomic64_max_def max_def atomic64_max_loop.simps)

lemma api_src_okD:
  assumes "api_src_ok K"
  shows "ksrc_ok (src K)" "xa_pick K lim U t = Inl err \<Longrightarrow> err < 0"
    "xa_pick K lim U t = Inr n \<Longrightarrow> n \<notin> U \<and> unat n \<le> unat lim"
  using assms by (auto simp: api_src_ok_def dest!: spec [where x = lim] spec [where x = U] spec [where x = t])

lemma release_slot:
  assumes "allocs u p = Some (a\<lparr>kref := Suc (kref a), threads := (threads a)(n \<mapsto> None)\<rparr>)"
    "kref a > 0" "n \<notin> dom (threads a)"
  shows "Option.bind (xa_erase_thread p n u) (\<lambda>(_, s). Option.bind (alloc_put K p s) f) =
    f (u\<lparr>allocs := (allocs u)(p \<mapsto> a)\<rparr>)"
proof -
  have "(threads a)(n := None) = threads a" using assms(3) by (auto simp: fun_eq_iff)
  then show ?thesis
    using assms(1,2)
    by (subst xa_erase_thread_run [OF assms(1)], simp, subst alloc_put_run [where k = "kref a - 1"]) auto
qed

lemma sa_alloc_map_outcome:
  assumes a: "allocs s1 = (allocs s)(p \<mapsto> a\<lparr>kref := Suc (kref a), threads := (threads a)(n \<mapsto> None)\<rparr>)"
      "allocs s p = Some a" "kref a > 0" and n: "n \<notin> dom (threads a)" "unat n \<le> 0x220000"
    and s1: "mms s1 = mms s" "sa_allocators s1 = sa_allocators s" "gl_inv s1"
    and tk: "stack_taken s pl s1" and mm: "mms s m = Some mm" "mm_ok (five_level K) mm"
  shows "\<exists>err s'. sa_alloc_map K cur m p n pl s1 = Some (err, Some (id_to_addr n), s') \<and>
    ((err = 0 \<and> thread_added (five_level K) m p a n
        \<lparr>tid = task_pid cur, thread_addr = id_to_addr n, pagelist = pl\<rparr> s s' \<and>
        content s' = content s1) \<or>
     (err < 0 \<and> alloc_failed (five_level K) m a s s'))"
proof -
  let ?l5 = "five_level K"
  have wf: "wf_pagelist STACK_PAGES pl" using tk by (simp add: stack_taken_def)
  obtain err mm' where m: "map_stack K m (id_to_addr n) pl s1 = Some (err, s1\<lparr>mms := (mms s)(m \<mapsto> mm')\<rparr>)"
    "mm_ok ?l5 mm'" "err = 0 \<or> err = - ENOMEM" "err = 0 \<longrightarrow> stack_mapped ?l5 (pgd mm') n pl"
    "slot_only ?l5 n (pgd mm) (pgd mm')"
    using map_stack_run [of s1 m mm K pl n] mm wf n(2) s1(1) by (auto simp: mm_ok_def)
  let ?s2 = "s1\<lparr>mms := (mms s)(m \<mapsto> mm')\<rparr>"
  show ?thesis
  proof (cases "err = 0")
    case True
    let ?t = "\<lparr>tid = task_pid cur, thread_addr = id_to_addr n, pagelist = pl\<rparr>"
    let ?s3 = "?s2\<lparr>allocs := (allocs s)(p \<mapsto> a\<lparr>kref := Suc (kref a),
      max_id := max (max_id a) (int (unat n)), threads := (threads a)(n \<mapsto> Some ?t)\<rparr>)\<rparr>"
    have "sa_alloc_map K cur m p n pl s1 = Some (0, Some (id_to_addr n), ?s3)"
      using a m(1) True by (simp add: sa_alloc_map_def upd_alloc_def Let_def atomic64_max_eq)
    moreover have "thread_added ?l5 m p a n ?t s ?s3"
      using m True s1 n mm tk by (auto simp: thread_added_def)
    ultimately show ?thesis by auto
  next
    case False
    obtain s3 where f: "gl_free pl ?s2 = Some s3" "gl_inv s3" "stack_returned pl s1 s3"
      "gl_state.more s3 = gl_state.more ?s2"
      using gl_free_outcome [of ?s2 pl] s1(3) stack_taken_held [OF tk] unfolding gl_parts given_parts by blast
    have s3: "mms s3 = (mms s)(m \<mapsto> mm')" "allocs s3 = allocs s1" "sa_allocators s3 = sa_allocators s"
      using more_kernelD [OF f(4)] s1 by simp_all
    have "(allocs s)(p \<mapsto> a) = allocs s" using a(2) by auto
    then have "sa_alloc_map K cur m p n pl s1 = Some (err, Some (id_to_addr n), s3\<lparr>allocs := allocs s\<rparr>)"
      using a n s3(2) m(1) f(1) False
      by (simp add: sa_alloc_map_def Let_def release_slot [where a = a])
    then show ?thesis
      using f(2) m False s3 n mm pages_kept_undo [OF tk f(3)] by (auto simp: alloc_failed_def)
  qed
qed

lemma sa_alloc_outcome:
  assumes K: "api_src_ok K" and inv: "gl_inv s"
    and cur: "task_mm cur = Some m" "sa_allocators s (task_tgid cur) = Some p"
    and a: "allocs s p = Some a" "kref a > 0"
    and mm: "mms s m = Some mm" "mm_ok (five_level K) mm"
  shows "\<exists>err r s'. sa_alloc K cur s = Some (err, r, s') \<and>
    ((err = 0 \<and> (\<exists>n pl. r = Some (id_to_addr n) \<and>
        thread_added (five_level K) m p a n \<lparr>tid = task_pid cur, thread_addr = id_to_addr n, pagelist = pl\<rparr> s s' \<and>
        (\<forall>q \<in> set (frames pl). content s' q = zero_page))) \<or>
     (err < 0 \<and> alloc_failed (five_level K) m a s s'))"
proof -
  note get = alloc_get_run [OF cur(2) a]
    and defs = sa_alloc_def cur xa_alloc_thread_def upd_alloc_def kmalloc_def
  have same: "(allocs s)(p \<mapsto> a) = allocs s" using a(1) by auto
  show ?thesis
  proof (cases "xa_pick K THREADS_LIMIT (dom (threads a)) (tick s)")
    case (Inl err)
    have "sa_alloc K cur s = Some (err, None, s\<lparr>tick := Suc (tick s)\<rparr>)"
      using Inl a same by (simp add: defs get alloc_put_run [where k = "kref a - 1"])
    then show ?thesis
      using inv api_src_okD(2) [OF K Inl] by (simp add: alloc_failed_def)
  next
    case (Inr n)
    have n: "n \<notin> dom (threads a)" "unat n \<le> 0x220000"
      using api_src_okD(3) [OF K Inr] by (simp_all add: window_consts)
    let ?a2 = "a\<lparr>kref := Suc (kref a), threads := (threads a)(n \<mapsto> None)\<rparr>"
    let ?s2 = "s\<lparr>allocs := (allocs s)(p \<mapsto> ?a2), tick := Suc (Suc (tick s))\<rparr>"
    note rel = release_slot [where a = a, OF _ a(2) n(1)]
    show ?thesis
    proof (cases "ks_kmalloc (src K) (Suc (tick s))")
      case False
      have "sa_alloc K cur s = Some (- ENOMEM, None, ?s2\<lparr>allocs := allocs s\<rparr>)"
        using False Inr a same by (simp add: defs get rel)
      then show ?thesis
        using inv by (simp add: alloc_failed_def)
    next
      case True
      obtain err r s3 where g: "gl_alloc_stack (src K) (max_order K) (junk K) ?s2 = Some (err, r, s3)"
         "gl_inv s3" "gl_state.more s3 = gl_state.more ?s2"
         "case r of Some pl \<Rightarrow> err = 0 \<and> stack_given s pl s3 | None \<Rightarrow> err = - ENOMEM \<and> stack_refused s s3"
        using gl_alloc_stack_outcome [OF api_src_okD(1) [OF K], of ?s2 "max_order K" "junk K"] inv
        unfolding gl_parts given_parts by blast
      have s3: "mms s3 = mms s" "allocs s3 = (allocs s)(p \<mapsto> ?a2)" "sa_allocators s3 = sa_allocators s"
        using more_kernelD [OF g(3)] by simp_all
      have run: "sa_alloc K cur s = (case r of
          None \<Rightarrow> Some (err, None, s3\<lparr>allocs := allocs s\<rparr>) | Some pl \<Rightarrow> sa_alloc_map K cur m p n pl s3)"
        using True Inr a same g(1) s3(2) by (simp add: defs get rel split: option.split)
      show ?thesis
      proof (cases r)
        case None
        then show ?thesis
          using run g(2,4) s3 by (simp add: alloc_failed_def pages_kept_refused)
      next
        case (Some pl)
        then have gv: "stack_given s pl s3" using g(4) by simp
        obtain err' s' where "sa_alloc_map K cur m p n pl s3 = Some (err', Some (id_to_addr n), s')"
          "(err' = 0 \<and> thread_added (five_level K) m p a n
              \<lparr>tid = task_pid cur, thread_addr = id_to_addr n, pagelist = pl\<rparr> s s' \<and> content s' = content s3) \<or>
           (err' < 0 \<and> alloc_failed (five_level K) m a s s')"
          using sa_alloc_map_outcome [OF s3(2) a n s3(1,3) g(2) stack_given_taken [OF gv] mm] by blast
        then show ?thesis
          using run Some gv unfolding stack_given_def by simp metis
      qed
    qed
  qed
qed

subsection \<open>The invariant\<close>

text \<open>The thread at slot \<open>n\<close> of an allocator whose process has the page tables
  \<open>t\<close>.\<close>

definition thread_ok ::
  "bool \<Rightarrow> 'a kernel_scheme \<Rightarrow> pgd_tab \<Rightarrow> u32 \<Rightarrow> sa_thread_desc \<Rightarrow> bool" where
  "thread_ok l5 s tab n t \<longleftrightarrow> unat n \<le> 0x220000 \<and> thread_addr t = id_to_addr n \<and>
     held s (pagelist t) \<and> stack_mapped l5 tab n (pagelist t)"

definition alloc_ok ::
  "bool \<Rightarrow> 'a kernel_scheme \<Rightarrow> nat \<Rightarrow> sa_allocator_desc \<Rightarrow> bool" where
  "alloc_ok l5 s p a \<longleftrightarrow> sa_allocators s (tgid a) = Some p \<and> \<not> al_lock a \<and>
     finite (dom (threads a)) \<and> kref a = Suc (card (dom (threads a))) \<and>
     (\<forall>n. threads a n \<noteq> Some None) \<and>
     (\<exists>m mm. alloc_mm a = Some m \<and> mms s m = Some mm \<and>
        (\<forall>n t. threads a n = Some (Some t) \<longrightarrow> thread_ok l5 s (pgd mm) n t))"

definition live :: "'a kernel_scheme \<Rightarrow> nat \<times> u32 \<Rightarrow> sa_thread_desc \<Rightarrow> bool" where
  "live s i t \<longleftrightarrow> (\<exists>a. allocs s (fst i) = Some a \<and> threads a (snd i) = Some (Some t))"

definition api_inv :: "bool \<Rightarrow> 'a kernel_scheme \<Rightarrow> bool" where
  "api_inv l5 s \<longleftrightarrow> gl_inv s \<and>
     (\<forall>m mm. mms s m = Some mm \<longrightarrow> mm_ok l5 mm) \<and>
     (\<forall>p a. allocs s p = Some a \<longrightarrow> alloc_ok l5 s p a) \<and>
     (\<forall>g p. sa_allocators s g = Some p \<longrightarrow> (\<exists>a. allocs s p = Some a \<and> tgid a = g)) \<and>
     (\<forall>p q a b. allocs s p = Some a \<longrightarrow> allocs s q = Some b \<longrightarrow> alloc_mm a = alloc_mm b \<longrightarrow> p = q) \<and>
     (\<forall>i j t u. live s i t \<longrightarrow> live s j u \<longrightarrow> i \<noteq> j \<longrightarrow>
        set (frames (pagelist t)) \<inter> set (frames (pagelist u)) = {})"

text \<open>The caller's address space exists and is the one its allocator was created for.\<close>

definition caller_ok :: "task \<Rightarrow> 'a kernel_scheme \<Rightarrow> bool" where
  "caller_ok cur s \<longleftrightarrow> (\<forall>m. task_mm cur = Some m \<longrightarrow> m \<in> dom (mms s) \<and>
     (\<forall>p a. sa_allocators s (task_tgid cur) = Some p \<longrightarrow> allocs s p = Some a \<longrightarrow> alloc_mm a = Some m))"

lemma api_invD:
  assumes "api_inv l5 s"
  shows "gl_inv s" "mms s m = Some mm \<Longrightarrow> mm_ok l5 mm" "allocs s p = Some a \<Longrightarrow> alloc_ok l5 s p a"
    "sa_allocators s g = Some p \<Longrightarrow> \<exists>a. allocs s p = Some a \<and> tgid a = g"
    "allocs s p = Some a \<Longrightarrow> allocs s q = Some b \<Longrightarrow> alloc_mm a = alloc_mm b \<Longrightarrow> p = q"
    "live s i t \<Longrightarrow> live s j u \<Longrightarrow> i \<noteq> j \<Longrightarrow>
       set (frames (pagelist t)) \<inter> set (frames (pagelist u)) = {}"
  using assms unfolding api_inv_def by blast+

lemma api_invI:
  assumes "gl_inv s" "\<And>m mm. mms s m = Some mm \<Longrightarrow> mm_ok l5 mm"
    "\<And>p a. allocs s p = Some a \<Longrightarrow> alloc_ok l5 s p a"
    "\<And>g p. sa_allocators s g = Some p \<Longrightarrow> \<exists>a. allocs s p = Some a \<and> tgid a = g"
    "\<And>p q a b. allocs s p = Some a \<Longrightarrow> allocs s q = Some b \<Longrightarrow> alloc_mm a = alloc_mm b \<Longrightarrow> p = q"
    "\<And>i j t u. live s i t \<Longrightarrow> live s j u \<Longrightarrow> i \<noteq> j \<Longrightarrow>
       set (frames (pagelist t)) \<inter> set (frames (pagelist u)) = {}"
  shows "api_inv l5 s"
  using assms unfolding api_inv_def by blast

lemma live_held:
  assumes "api_inv l5 s" "live s i t"
  shows "held s (pagelist t)"
  using assms(2) api_invD(3) [OF assms(1)]
  by (fastforce simp: live_def alloc_ok_def thread_ok_def)

lemma live_owned: "api_inv l5 s \<Longrightarrow> live s i t \<Longrightarrow> set (frames (pagelist t)) \<subseteq> owned s"
  using live_held by (fastforce simp: held_def)

subsection \<open>Preservation\<close>

text \<open>An allocator stays well formed when its threads' pages and mappings do.\<close>

lemma alloc_ok_kept:
  assumes "alloc_ok l5 s q b" "sa_allocators s' (tgid b) = sa_allocators s (tgid b)"
    and "\<And>n t. threads b n = Some (Some t) \<Longrightarrow> held s' (pagelist t)"
    and "\<And>m mm. alloc_mm b = Some m \<Longrightarrow> mms s m = Some mm \<Longrightarrow>
      \<exists>mm'. mms s' m = Some mm' \<and> (\<forall>n t. threads b n = Some (Some t) \<longrightarrow> unat n \<le> 0x220000 \<longrightarrow>
        stack_mapped l5 (pgd mm) n (pagelist t) \<longrightarrow> stack_mapped l5 (pgd mm') n (pagelist t))"
  shows "alloc_ok l5 s' q b"
proof -
  obtain m mm where m: "alloc_mm b = Some m" "mms s m = Some mm"
    "\<forall>n t. threads b n = Some (Some t) \<longrightarrow> thread_ok l5 s (pgd mm) n t"
    using assms(1) by (auto simp: alloc_ok_def)
  obtain mm' where "mms s' m = Some mm'" "\<forall>n t. threads b n = Some (Some t) \<longrightarrow> unat n \<le> 0x220000 \<longrightarrow>
        stack_mapped l5 (pgd mm) n (pagelist t) \<longrightarrow> stack_mapped l5 (pgd mm') n (pagelist t)"
    using assms(4) [OF m(1,2)] by blast
  then show ?thesis
    using assms(1-3) m by (auto simp: alloc_ok_def thread_ok_def)
qed

text \<open>Changing the tables of one process only inside one slot keeps the mappings of every
  other process, and of the threads of the same process at other slots.\<close>

lemma tables_kept:
  assumes "mms s m = Some mm" "mms s' = (mms s)(m \<mapsto> mm')" "slot_only l5 n (pgd mm) (pgd mm')"
    "unat n \<le> 0x220000" "alloc_mm b = Some m \<longrightarrow> n \<notin> dom (threads b)"
    and b: "alloc_mm b = Some k" "mms s k = Some mmk"
  shows "\<exists>mm'. mms s' k = Some mm' \<and> (\<forall>i t. threads b i = Some (Some t) \<longrightarrow> unat i \<le> 0x220000 \<longrightarrow>
        stack_mapped l5 (pgd mmk) i (pagelist t) \<longrightarrow> stack_mapped l5 (pgd mm') i (pagelist t))"
proof (cases "k = m")
  case True
  then have "mmk = mm" using b assms(1) by simp
  then show ?thesis
    using True assms stack_mapped_kept [OF assms(3,4)] by (metis domI fun_upd_same)
qed (use b assms(2) in auto)

text \<open>A request changes one allocator and the tables of its process.\<close>

lemma api_inv_replace:
  assumes inv: "api_inv l5 s" and a: "allocs s p = Some a"
    and new: "allocs s' = (allocs s)(p \<mapsto> a')" "tgid a' = tgid a" "alloc_mm a' = alloc_mm a"
      "sa_allocators s' = sa_allocators s" "gl_inv s'"
    and mms: "\<And>m mm. mms s' m = Some mm \<Longrightarrow> mm_ok l5 mm"
    and ok: "\<And>q b. q \<noteq> p \<Longrightarrow> allocs s q = Some b \<Longrightarrow> alloc_ok l5 s' q b" "alloc_ok l5 s' p a'"
    and dis: "\<And>i j t u. live s' i t \<Longrightarrow> live s' j u \<Longrightarrow> i \<noteq> j \<Longrightarrow>
       set (frames (pagelist t)) \<inter> set (frames (pagelist u)) = {}"
  shows "api_inv l5 s'"
proof (rule api_invI [OF new(5)])
  show "alloc_ok l5 s' q b" if "allocs s' q = Some b" for q b
    using that new(1) ok by (cases "q = p") auto
  show "\<exists>b. allocs s' q = Some b \<and> tgid b = g" if r: "sa_allocators s' g = Some q" for g q
  proof -
    obtain b where "allocs s q = Some b" "tgid b = g"
      using r new(4) api_invD(4) [OF inv] by fastforce
    then show ?thesis
      using new(1,2) a by (cases "q = p") auto
  qed
  show "q = r" if "allocs s' q = Some b" "allocs s' r = Some c" "alloc_mm b = alloc_mm c" for q r b c
  proof -
    have "\<exists>b'. allocs s q = Some b' \<and> alloc_mm b' = alloc_mm b"
      using that(1) new(1,3) a by (cases "q = p") auto
    moreover have "\<exists>c'. allocs s r = Some c' \<and> alloc_mm c' = alloc_mm c"
      using that(2) new(1,3) a by (cases "r = p") auto
    ultimately show ?thesis
      using api_invD(5) [OF inv] that(3) by fastforce
  qed
qed (fact mms, fact dis)

lemma api_inv_failed:
  assumes inv: "api_inv l5 s" and a: "allocs s p = Some a" "alloc_mm a = Some m"
    and f: "alloc_failed l5 m a s s'"
  shows "api_inv l5 s'"
proof -
  have al: "allocs s' = allocs s" "sa_allocators s' = sa_allocators s" "pages_kept s s'" "gl_inv s'"
    using f by (simp_all add: alloc_failed_def)
  then have lv: "live s' = live s" by (simp add: live_def fun_eq_iff)
  have "alloc_ok l5 s' q b" if b: "allocs s q = Some b" for q b
  proof (rule alloc_ok_kept [OF api_invD(3) [OF inv b]])
    have own: "alloc_mm b = Some m \<Longrightarrow> b = a"
      using api_invD(5) [OF inv a(1) b] a b by auto
    show "\<exists>mm'. mms s' k = Some mm' \<and> (\<forall>i t. threads b i = Some (Some t) \<longrightarrow> unat i \<le> 0x220000 \<longrightarrow>
        stack_mapped l5 (pgd mmk) i (pagelist t) \<longrightarrow> stack_mapped l5 (pgd mm') i (pagelist t))"
      if k: "alloc_mm b = Some k" "mms s k = Some mmk" for k mmk
    proof (cases "mms s' = mms s")
      case True
      then show ?thesis using k by simp
    next
      case False
      then obtain n mm mm' where "mms s m = Some mm" "mms s' = (mms s)(m \<mapsto> mm')"
        "slot_only l5 n (pgd mm) (pgd mm')" "unat n \<le> 0x220000" "n \<notin> dom (threads a)"
        using f by (auto simp: alloc_failed_def)
      then show ?thesis
        using own by (intro tables_kept [OF _ _ _ _ _ k]) auto
    qed
    show "held s' (pagelist t)" if "threads b n = Some (Some t)" for n t
      using held_pages_kept [OF al(3)] live_held [OF inv, of "(q, n)"] b that by (simp add: live_def)
  qed (use al in simp)
  moreover have "mm_ok l5 mm" if "mms s' k = Some mm" for k mm
    using f that api_invD(2) [OF inv] by (auto simp: alloc_failed_def split: if_splits)
  ultimately show ?thesis
    using al a(1) by (intro api_inv_replace [OF inv a(1)]) (auto simp: lv dest: api_invD(6) [OF inv])
qed

lemma api_inv_added:
  assumes inv: "api_inv l5 s" and a: "allocs s p = Some a" "alloc_mm a = Some m"
    and f: "thread_added l5 m p a n t s s'"
  shows "api_inv l5 s'"
proof -
  let ?a = "a\<lparr>kref := Suc (kref a), max_id := max (max_id a) (int (unat n)), threads := (threads a)(n \<mapsto> Some t)\<rparr>"
  have al: "allocs s' = (allocs s)(p \<mapsto> ?a)" "sa_allocators s' = sa_allocators s" "gl_inv s'"
     and n: "n \<notin> dom (threads a)" "unat n \<le> 0x220000" 
     and fr: "set (frames (pagelist t)) \<inter> owned s = {}" "held s' (pagelist t)"
    using f by (auto simp: thread_added_def stack_taken_def held_def)
  have lv: "live s' i u \<longleftrightarrow> (if i = (p, n) then u = t else live s i u)" for i u
    using al(1) a(1) by (cases i) (auto simp: live_def)
  have hk: "held s' (pagelist u)" if "live s i u" for i u
    using live_held [OF inv that] f by (auto simp: thread_added_def stack_taken_def held_def)
  obtain mm mm' where mm: "mms s m = Some mm" "mms s' = (mms s)(m \<mapsto> mm')" "mm_ok l5 mm'"
    "stack_mapped l5 (pgd mm') n (pagelist t)" "slot_only l5 n (pgd mm) (pgd mm')"
    using f by (auto simp: thread_added_def)
  have old: "alloc_ok l5 s' q b" if b: "allocs s q = Some b" for q b
  proof (rule alloc_ok_kept [OF api_invD(3) [OF inv b]])
    have own: "alloc_mm b = Some m \<Longrightarrow> b = a"
      using api_invD(5) [OF inv a(1) b] a b by auto
    show "\<exists>mm'. mms s' k = Some mm' \<and> (\<forall>i t. threads b i = Some (Some t) \<longrightarrow> unat i \<le> 0x220000 \<longrightarrow>
        stack_mapped l5 (pgd mmk) i (pagelist t) \<longrightarrow> stack_mapped l5 (pgd mm') i (pagelist t))"
      if k: "alloc_mm b = Some k" "mms s k = Some mmk" for k mmk
      using tables_kept [OF mm(1,2,5) n(2) _ k] own n(1) by blast
    show "held s' (pagelist t)" if "threads b n = Some (Some t)" for n t
      using hk [of "(q, n)"] b that by (simp add: live_def)
  qed (use al in simp)
  have "thread_ok l5 s' (pgd mm') n t"
    using f mm fr by (simp add: thread_ok_def thread_added_def)
  then have new: "alloc_ok l5 s' p ?a"
    using old [OF a(1)] a(2) n(1) mm(2) by (auto simp: alloc_ok_def)
  show ?thesis
  proof (rule api_inv_replace [OF inv a(1) al(1) _ _ al(2,3) _ old new])
    show "mm_ok l5 mmk" if "mms s' k = Some mmk" for k mmk
      using that mm(2,3) api_invD(2) [OF inv] by (auto split: if_splits)
    show "set (frames (pagelist t1)) \<inter> set (frames (pagelist t2)) = {}"
      if "live s' i t1" "live s' j t2" "i \<noteq> j" for i j t1 t2
      using that fr(1) live_owned [OF inv, of i t1] live_owned [OF inv, of j t2] api_invD(6) [OF inv, of i t1 j t2]
      by (auto simp: lv split: if_splits)
  qed simp_all
qed

subsection \<open>One release\<close>

definition thread_removed ::
  "bool \<Rightarrow> nat \<Rightarrow> nat \<Rightarrow> sa_allocator_desc \<Rightarrow> u32 \<Rightarrow> sa_thread_desc \<Rightarrow>
   'a kernel_scheme \<Rightarrow> 'a kernel_scheme \<Rightarrow> bool" where
  "thread_removed l5 m p a n t s s' \<longleftrightarrow> gl_inv s' \<and> sa_allocators s' = sa_allocators s \<and>
     threads a n = Some (Some t) \<and>
     allocs s' = (allocs s)(p \<mapsto> a\<lparr>kref := kref a - 1, threads := (threads a)(n := None)\<rparr>) \<and>
     stack_returned (pagelist t) s s' \<and>
     (\<exists>mm mm'. mms s m = Some mm \<and> mms s' = (mms s)(m \<mapsto> mm') \<and> mm_ok l5 mm' \<and> pgd mm' = pgd mm)"

lemma api_inv_removed:
  assumes inv: "api_inv l5 s" and a: "allocs s p = Some a" "alloc_mm a = Some m"
    and f: "thread_removed l5 m p a n t s s'"
  shows "api_inv l5 s'"
proof -
  let ?a = "a\<lparr>kref := kref a - 1, threads := (threads a)(n := None)\<rparr>"
  have al: "allocs s' = (allocs s)(p \<mapsto> ?a)" "sa_allocators s' = sa_allocators s" "gl_inv s'"
    and t: "threads a n = Some (Some t)" and ret: "stack_returned (pagelist t) s s'"
    using f by (auto simp: thread_removed_def)
  obtain mm mm' where mm: "mms s m = Some mm" "mms s' = (mms s)(m \<mapsto> mm')" "mm_ok l5 mm'" "pgd mm' = pgd mm"
    using f by (auto simp: thread_removed_def)
  have lv: "live s' i u \<longleftrightarrow> i \<noteq> (p, n) \<and> live s i u" for i u
    using al(1) a(1) by (cases i) (auto simp: live_def)
  have pn: "live s (p, n) t" using a(1) t by (simp add: live_def)
  have hk: "held s' (pagelist u)" if "live s i u" "i \<noteq> (p, n)" for i u
    using held_kept(3) [OF live_held [OF inv that(1)] ret] api_invD(6) [OF inv that(1) pn that(2)] .
  have tabs: "\<exists>mm'. mms s' k = Some mm' \<and> pgd mm' = pgd mmk" if "mms s k = Some mmk" for k mmk
    using that mm by (cases "k = m") auto
  have "alloc_ok l5 s' q b" if b: "q \<noteq> p" "allocs s q = Some b" for q b
    using tabs hk b al(2)
    by (intro alloc_ok_kept [OF api_invD(3) [OF inv b(2)]]) (fastforce simp: live_def)+
  moreover have "card (dom (threads a)) > 0"
    using t by (auto simp: card_gt_0_iff)
  then have "alloc_ok l5 s p ?a"
    using api_invD(3) [OF inv a(1)] t by (auto simp: alloc_ok_def card_Diff_singleton domI)
  then have "alloc_ok l5 s' p ?a"
  proof (rule alloc_ok_kept)
    show "held s' (pagelist u)" if "threads ?a k = Some (Some u)" for k u
      using that hk [of "(p, k)" u] a(1) by (auto simp: live_def split: if_splits)
  qed (use tabs al(2) in fastforce)+
  moreover have "mm_ok l5 mmk" if "mms s' k = Some mmk" for k mmk
    using that mm(2,3) api_invD(2) [OF inv] by (auto split: if_splits)
  ultimately show ?thesis
    using al by (intro api_inv_replace [OF inv a(1) al(1) _ _ al(2,3)]) (auto simp: lv dest: api_invD(6) [OF inv])
qed

text \<open>The outcomes of \<open>sa_free\<close>.\<close>

lemma sa_free_refused:
  assumes inv: "api_inv l5 s"
    and "task_mm cur = None \<or> \<not> addr_valid addr \<or> alloc_find (task_tgid cur) s = None \<or>
      (\<exists>p a. sa_allocators s (task_tgid cur) = Some p \<and> allocs s p = Some a \<and> threads a (addr_to_id addr) = None)"
  shows "sa_free K cur addr s = Some (- EINVAL, s)"
proof -
  have "\<not> al_lock a \<and> s\<lparr>allocs := (allocs s)(p \<mapsto> a\<lparr>threads := (threads a)(n := None)\<rparr>)\<rparr> = s"
    if a: "allocs s p = Some a" "threads a n = None" for p a n
  proof -
    have "a\<lparr>threads := (threads a)(n := None)\<rparr> = a"
      using a(2) by (cases a) (simp add: fun_upd_idem)
    then show ?thesis
      using a(1) api_invD(3) [OF inv a(1)] by (cases s) (simp add: fun_upd_idem alloc_ok_def)
  qed
  then show ?thesis
    using assms(2) api_invD(4) [OF inv]
    by (auto simp: sa_free_def alloc_find_def xa_erase_thread_run split: option.splits)
qed

lemma sa_free_outcome:
  assumes inv: "api_inv (five_level K) s" and cur: "task_mm cur = Some m" "caller_ok cur s"
    and p: "sa_allocators s (task_tgid cur) = Some p" "allocs s p = Some a"
    and n: "unat n < 0x220000" "threads a n = Some (Some t)"
  shows "\<exists>s'. sa_free K cur (id_to_addr n) s = Some (0, s') \<and>
    thread_removed (five_level K) m p a n t s s'"
proof -
  have ok: "alloc_ok (five_level K) s p a" using api_invD(3) [OF inv p(2)] .
  obtain mm where mm: "mms s m = Some mm" "mm_ok (five_level K) mm"
    using cur api_invD(2) [OF inv] by (auto simp: caller_ok_def)
  have v: "addr_valid (id_to_addr n)" "addr_to_id (id_to_addr n) = n"
    using n(1) by (simp_all add: id_to_addr_valid addr_to_id_id_to_addr)
  have h: "held s (pagelist t)"
    using live_held [OF inv, of "(p, n)"] p(2) n(2) by (simp add: live_def)
  let ?a = "a\<lparr>threads := (threads a)(n := None)\<rparr>"
  let ?mm = "mm\<lparr>tlb_flushes := tlb_flushes mm @ [(id_to_addr n, id_to_addr n + SS_SIZE)], mmap_locked := False\<rparr>"
  let ?s = "s\<lparr>allocs := (allocs s)(p \<mapsto> ?a), mms := (mms s)(m \<mapsto> ?mm)\<rparr>"
  obtain s1 where f: "gl_free (pagelist t) ?s = Some s1" "gl_inv s1" "stack_returned (pagelist t) s s1"
    "gl_state.more s1 = gl_state.more ?s"
    using gl_free_outcome [of ?s "pagelist t"] h api_invD(1) [OF inv] unfolding gl_parts given_parts by blast
  have s1: "mms s1 = (mms s)(m \<mapsto> ?mm)" "allocs s1 = (allocs s)(p \<mapsto> ?a)" "sa_allocators s1 = sa_allocators s"
    using more_kernelD [OF f(4)] by simp_all
  have "card (dom (threads a)) > 0"
    using n(2) by (auto simp: card_gt_0_iff)
  then have put: "alloc_put K p s1 = Some (s1\<lparr>allocs := (allocs s1)(p \<mapsto> ?a\<lparr>kref := kref a - 1\<rparr>)\<rparr>)"
    using ok s1(2) alloc_put_run [of s1 p ?a "card (dom (threads a)) - 1" K] by (simp add: alloc_ok_def)
  have "sa_free K cur (id_to_addr n) s = Some (0, s1\<lparr>allocs := (allocs s1)(p \<mapsto> ?a\<lparr>kref := kref a - 1\<rparr>)\<rparr>)"
    using cur(1) v p n ok mm f(1) put
    by (simp add: sa_free_def alloc_find_def alloc_ok_def xa_erase_thread_run with_mm_def mm_ok_def
        mmap_write_lock_def mmap_write_unlock_def unmap_range_def flush_tlb_mm_range_def)
  then show ?thesis
    using f(2,3) s1 n(2) mm by (auto simp: thread_removed_def mm_ok_def)
qed

subsection \<open>One fork\<close>

lemma find_thread_Some:
  "find_thread pid ths ns = Some (n, t) \<Longrightarrow> n \<in> set ns \<and> ths n = Some (Some t) \<and> tid t = pid"
  by (induction ns) (auto split: option.splits if_splits)

lemma copy_pages_loop_run:
  assumes "length ds = n" "length ps = n" "distinct ds" "set ds \<inter> set ps = {}"
    "set ds \<subseteq> inuse s" "set ps \<subseteq> inuse s"
  shows "\<exists>c. copy_pages_loop i n (map Some ds) (map Some ps) s = Some (s\<lparr>content := c\<rparr>) \<and>
    (\<forall>j. i \<le> j \<longrightarrow> j < n \<longrightarrow> c (ds ! j) = content s (ps ! j)) \<and>
    (\<forall>q. q \<notin> set (drop i ds) \<longrightarrow> c q = content s q)"
  using assms
proof (induction "n - i" arbitrary: i s)
  case 0
  then show ?case
    by (intro exI [of _ "content s"]) (simp add: copy_pages_loop.simps)
next
  case (Suc k)
  then have i: "i < n" and k: "k = n - Suc i" by simp_all
  let ?s = "s\<lparr>content := (content s)(ds ! i := content s (ps ! i))\<rparr>"
  have m: "ds ! i \<in> set ds" "ps ! i \<in> set ps" using i Suc.prems(1,2) by auto
  then have cp: "copy_highpage (ds ! i) (ps ! i) s = Some ?s"
    using Suc.prems(5,6) by (auto simp: copy_highpage_def)
  obtain c where c: "copy_pages_loop (Suc i) n (map Some ds) (map Some ps) ?s = Some (?s\<lparr>content := c\<rparr>)"
    "\<And>j. Suc i \<le> j \<Longrightarrow> j < n \<Longrightarrow> c (ds ! j) = content ?s (ps ! j)"
    "\<And>q. q \<notin> set (drop (Suc i) ds) \<Longrightarrow> c q = content ?s q"
    using Suc.hyps(1) [OF k, of ?s] Suc.prems by auto
  have run: "copy_pages_loop i n (map Some ds) (map Some ps) s = Some (s\<lparr>content := c\<rparr>)"
    using i c(1) cp Suc.prems(1,2) by (subst copy_pages_loop.simps) simp
  have dr: "drop i ds = ds ! i # drop (Suc i) ds" using i Suc.prems(1) by (simp add: Cons_nth_drop_Suc)
  then have "ds ! i \<notin> set (drop (Suc i) ds)"
    using Suc.prems(3) distinct_drop [of ds i] by simp
  then have "c (ds ! i) = content s (ps ! i)" using c(3) by simp
  moreover have "c (ds ! j) = content s (ps ! j)" if "Suc i \<le> j" "j < n" for j
  proof -
    have "ps ! j \<in> set ps" using that Suc.prems(2) by simp
    then have "ps ! j \<noteq> ds ! i" using Suc.prems(4) m(1) by auto
    then show ?thesis using c(2) [OF that] by simp
  qed
  ultimately have "\<forall>j. i \<le> j \<longrightarrow> j < n \<longrightarrow> c (ds ! j) = content s (ps ! j)"
    by (metis Suc_leI le_neq_implies_less)
  then show ?case
    using run c(3) dr by auto
qed

lemma gl_inv_content:
  assumes "gl_inv s" "\<And>q. q \<notin> owned s \<Longrightarrow> c q = content s q"
  shows "gl_inv (s\<lparr>content := c\<rparr>)"
  using assms by (auto simp: gl_inv_def owned_def gl_frames_def)

lemma copy_stack_outcome:
  assumes inv: "gl_inv s1" and tk: "stack_taken s pl s1" and h: "held s from"
  shows "\<exists>c. copy_stack pl from s1 = Some (s1\<lparr>content := c\<rparr>) \<and> gl_inv (s1\<lparr>content := c\<rparr>) \<and>
    stack_taken s pl (s1\<lparr>content := c\<rparr>) \<and>
    (\<forall>i < 2048. c (frames pl ! i) = content s (frames from ! i))"
proof -
  have wf: "wf_pagelist 2048 pl" "wf_pagelist 2048 from"
    using tk h by (simp_all add: stack_taken_def held_def STACK_PAGES_eq)
  have own: "set (frames from) \<subseteq> owned s" "set (frames pl) \<inter> owned s = {}"
    "owned s1 = owned s \<union> set (frames pl)" and ct: "\<And>q. q \<in> owned s \<Longrightarrow> content s1 q = content s q"
    using tk h by (auto simp: stack_taken_def held_def)
  moreover have "owned s1 \<subseteq> inuse s1" by (auto simp: owned_def)
  ultimately have "set (frames pl) \<subseteq> inuse s1" "set (frames from) \<subseteq> inuse s1"
      "set (frames pl) \<inter> set (frames from) = {}" by blast+
  then obtain c where c: "copy_pages_loop 0 2048 (map Some (frames pl)) (map Some (frames from)) s1 =
      Some (s1\<lparr>content := c\<rparr>)" "\<forall>j < 2048. c (frames pl ! j) = content s1 (frames from ! j)"
      "\<And>q. q \<notin> set (frames pl) \<Longrightarrow> c q = content s1 q"
    using wf copy_pages_loop_run [of "frames pl" 2048 "frames from" s1 0] by (auto simp: wf_pagelist_def)
  have "copy_stack pl from s1 = Some (s1\<lparr>content := c\<rparr>)"
    using wf c(1) by (simp add: copy_stack_def wf_pagelist_def)
  moreover have "gl_inv (s1\<lparr>content := c\<rparr>)"
    using inv c(3) own by (intro gl_inv_content) auto
  moreover have "stack_taken s pl (s1\<lparr>content := c\<rparr>)"
  proof -
    have "c q = content s q" if "q \<in> owned s" for q
      using c(3) ct that own(2) by (metis IntI emptyE)
    moreover have "owned (s1\<lparr>content := c\<rparr>) = owned s1" by (simp add: owned_def gl_frames_def)
    ultimately show ?thesis using tk by (simp add: stack_taken_def)
  qed
  moreover have "content s1 (frames from ! i) = content s (frames from ! i)" if "i < 2048" for i
    using that wf(2) own(1) by (intro ct) (auto simp: wf_pagelist_def subset_iff)
  ultimately show ?thesis
    using c(2) by auto
qed

lemma put_back:
  assumes "allocs u p = Some (a\<lparr>kref := Suc (kref a)\<rparr>)" "kref a > 0"
  shows "alloc_put K p u = Some (u\<lparr>allocs := (allocs u)(p \<mapsto> a)\<rparr>)"
  using alloc_put_run [of u p "a\<lparr>kref := Suc (kref a)\<rparr>" "kref a - 1"] assms by simp

lemma gl_free_taken:
  assumes "gl_inv s1" "stack_taken s pl s1"
  shows "\<exists>s'. gl_free pl s1 = Some s' \<and> gl_inv s' \<and> pages_kept s s' \<and>
    mms s' = mms s1 \<and> allocs s' = allocs s1 \<and> sa_allocators s' = sa_allocators s1"
  using gl_free_outcome [OF assms(1) stack_taken_held [OF assms(2)]] pages_kept_undo [OF assms(2)]
    more_kernelD by metis

lemma threads_max_id: "a\<lparr>threads := x, max_id := y\<rparr> = a\<lparr>max_id := y, threads := x\<rparr>"
  by (cases a) simp

lemma sa_fork_map_outcome:
  assumes a: "allocs s1 = (allocs s)(p \<mapsto> a\<lparr>kref := Suc (kref a)\<rparr>)" "allocs s p = Some a" "kref a > 0"
    and n: "unat n \<le> 0x220000"
    and s1: "mms s1 = mms s" "sa_allocators s1 = sa_allocators s" "gl_inv s1"
    and tk: "stack_taken s pl s1" and mm: "mms s m = Some mm" "mm_ok (five_level K) mm"
  shows "\<exists>err s'. sa_fork_map K cur m p n pl s1 = Some (err, s') \<and>
    ((err = 0 \<and> thread_added (five_level K) m p a n
        \<lparr>tid = task_pid cur, thread_addr = id_to_addr n, pagelist = pl\<rparr> s s' \<and>
        content s' = content s1) \<or>
     (err < 0 \<and> alloc_failed (five_level K) m a s s'))"
proof -
  let ?l5 = "five_level K" and ?t = "\<lparr>tid = task_pid cur, thread_addr = id_to_addr n, pagelist = pl\<rparr>"
  have same: "(allocs s)(p \<mapsto> a) = allocs s" using a(2) by auto
  show ?thesis
  proof (cases "threads a n = None \<and> \<not> xa_nomem K (tick s1)")
    case False
    obtain s2 where f: "gl_free pl s1 = Some s2" "gl_inv s2" "pages_kept s s2" "mms s2 = mms s1"
      "allocs s2 = allocs s1" "sa_allocators s2 = sa_allocators s1"
      using gl_free_taken [OF s1(3) tk] by blast
    then have "sa_fork_map K cur m p n pl s1 =
        Some (if threads a n \<noteq> None then - EBUSY else - ENOMEM, s2\<lparr>allocs := allocs s\<rparr>)"
      using False a same by (auto simp: sa_fork_map_def xa_insert_thread_def put_back [where a = a])
    then show ?thesis
      using f s1 by (auto simp: alloc_failed_def)
  next
    case True
    then have nn: "n \<notin> dom (threads a)" by auto
    let ?s2 = "s1\<lparr>allocs := (allocs s)(p \<mapsto> a\<lparr>kref := Suc (kref a), threads := (threads a)(n \<mapsto> Some ?t)\<rparr>)\<rparr>"
    have wf: "wf_pagelist STACK_PAGES pl" using tk by (simp add: stack_taken_def)
    obtain err mm' where m: "map_stack K m (id_to_addr n) pl ?s2 = Some (err, ?s2\<lparr>mms := (mms s)(m \<mapsto> mm')\<rparr>)"
      "mm_ok ?l5 mm'" "err = 0 \<or> err = - ENOMEM" "err = 0 \<longrightarrow> stack_mapped ?l5 (pgd mm') n pl"
      "slot_only ?l5 n (pgd mm) (pgd mm')"
      using map_stack_run [of ?s2 m mm K pl n] mm wf n s1(1) by (auto simp: mm_ok_def)
    show ?thesis
    proof (cases "err = 0")
      case True
      let ?s3 = "?s2\<lparr>mms := (mms s)(m \<mapsto> mm'), allocs := (allocs s)(p \<mapsto> a\<lparr>kref := Suc (kref a),
        max_id := max (max_id a) (int (unat n)), threads := (threads a)(n \<mapsto> Some ?t)\<rparr>)\<rparr>"
      have "sa_fork_map K cur m p n pl s1 = Some (0, ?s3)"
        using a m(1) True \<open>threads a n = None \<and> _\<close>
        by (simp add: sa_fork_map_def xa_insert_thread_def upd_alloc_def Let_def atomic64_max_eq
            threads_max_id)
      moreover have "thread_added ?l5 m p a n ?t s ?s3"
        using m True s1 n nn mm tk by (auto simp: thread_added_def)
      ultimately show ?thesis by auto
    next
      case False
      let ?s3 = "?s2\<lparr>mms := (mms s)(m \<mapsto> mm'), allocs := (allocs s)(p \<mapsto> a\<lparr>kref := Suc (kref a)\<rparr>)\<rparr>"
      have "gl_inv ?s3" "stack_taken s pl ?s3" using s1(3) tk by simp_all
      then obtain s4 where f: "gl_free pl ?s3 = Some s4" "gl_inv s4" "pages_kept s s4"
        "mms s4 = (mms s)(m \<mapsto> mm')" "allocs s4 = (allocs s)(p \<mapsto> a\<lparr>kref := Suc (kref a)\<rparr>)"
        "sa_allocators s4 = sa_allocators s1"
        using gl_free_taken [of ?s3 s pl] by auto
      have "(threads a)(n := None) = threads a" using nn by (auto simp: fun_eq_iff)
      then have "sa_fork_map K cur m p n pl s1 = Some (err, s4\<lparr>allocs := allocs s\<rparr>)"
        using a same m(1) False \<open>threads a n = None \<and> _\<close> f
        by (simp add: sa_fork_map_def xa_insert_thread_def upd_alloc_def xa_erase_thread_def put_back [where a = a])
      then show ?thesis
        using f m False n nn mm s1(2) by (auto simp: alloc_failed_def)
    qed
  qed
qed

lemma sa_fork_copy_outcome:
  assumes a: "allocs s1 = (allocs s)(p \<mapsto> a\<lparr>kref := Suc (kref a)\<rparr>)" "allocs s p = Some a" "kref a > 0"
    and n: "unat n \<le> 0x220000"
    and s1: "mms s1 = mms s" "sa_allocators s1 = sa_allocators s" "gl_inv s1"
    and tk: "stack_taken s pl s1" and h: "held s from"
    and mm: "mms s m = Some mm" "mm_ok (five_level K) mm"
  shows "\<exists>err s'. do { s \<leftarrow> copy_stack pl from s1; sa_fork_map K cur m p n pl s } = Some (err, s') \<and>
    ((err = 0 \<and> thread_added (five_level K) m p a n
        \<lparr>tid = task_pid cur, thread_addr = id_to_addr n, pagelist = pl\<rparr> s s' \<and>
        (\<forall>i < 2048. content s' (frames pl ! i) = content s (frames from ! i))) \<or>
     (err < 0 \<and> alloc_failed (five_level K) m a s s'))"
proof -
  obtain c where c: "copy_stack pl from s1 = Some (s1\<lparr>content := c\<rparr>)"
    "gl_inv (s1\<lparr>content := c\<rparr>)" "stack_taken s pl (s1\<lparr>content := c\<rparr>)"
    "\<forall>i < 2048. c (frames pl ! i) = content s (frames from ! i)"
    using copy_stack_outcome [OF s1(3) tk h] by blast
  have "allocs (s1\<lparr>content := c\<rparr>) = (allocs s)(p \<mapsto> a\<lparr>kref := Suc (kref a)\<rparr>)"
    "mms (s1\<lparr>content := c\<rparr>) = mms s" "sa_allocators (s1\<lparr>content := c\<rparr>) = sa_allocators s"
    using a s1 by simp_all
  from sa_fork_map_outcome [OF this(1) a(2,3) n this(2,3) c(2,3) mm, of cur]
  show ?thesis
    using c(1,4) by auto
qed

text \<open>The requests the child may make, and its two possible outcomes.\<close>

lemma sa_fork_outcome:
  assumes K: "api_src_ok K" and inv: "api_inv (five_level K) s"
    and cur: "task_mm cur = Some m" "sa_allocators s (task_tgid cur) = Some p"
    and a: "allocs s p = Some a" and mm: "mms s m = Some mm"
  shows "\<exists>err s'. sa_fork K cur pg pp s = Some (err, s') \<and>
    ((err = 0 \<and> (\<exists>q b n t pl. sa_allocators s pg = Some q \<and> allocs s q = Some b \<and>
        threads b n = Some (Some t) \<and> tid t = pp \<and>
        thread_added (five_level K) m p a n \<lparr>tid = task_pid cur, thread_addr = id_to_addr n, pagelist = pl\<rparr> s s' \<and>
        (\<forall>i < 2048. content s' (frames pl ! i) = content s (frames (pagelist t) ! i)))) \<or>
     (err < 0 \<and> alloc_failed (five_level K) m a s s'))"
proof -
  let ?a1 = "a\<lparr>kref := Suc (kref a)\<rparr>"
  have ok: "alloc_ok (five_level K) s p a" "kref a > 0"
    using api_invD(3) [OF inv a] by (simp_all add: alloc_ok_def)
  have gl: "gl_inv s" using api_invD(1) [OF inv] .
  note get = alloc_get_run [OF cur(2) a ok(2)] and mm_ok = api_invD(2) [OF inv mm]
  have same: "(allocs s)(p \<mapsto> a) = allocs s" using a by auto
  show ?thesis
  proof (cases "sa_allocators s pg")
    case None
    then have "sa_fork K cur pg pp s = Some (- ENOENT, s)"
      using same by (simp add: sa_fork_def cur get alloc_find_def put_back [OF _ ok(2)])
    then show ?thesis
      using gl by (simp add: alloc_failed_def)
  next
    case (Some q)
    obtain b where b: "allocs s q = Some b" using api_invD(4) [OF inv Some] by blast
    let ?s1 = "s\<lparr>allocs := (allocs s)(p \<mapsto> ?a1), tick := Suc (tick s)\<rparr>"
    show ?thesis
    proof (cases "ks_kmalloc (src K) (tick s)")
      case False
      then have "sa_fork K cur pg pp s = Some (- ENOMEM, s\<lparr>tick := Suc (tick s)\<rparr>)"
        using same Some by (simp add: sa_fork_def cur get alloc_find_def kmalloc_def put_back [OF _ ok(2)])
      then show ?thesis
        using gl by (simp add: alloc_failed_def)
    next
      case True
      obtain err r s2 where g: "gl_alloc_stack (src K) (max_order K) (junk K) ?s1 = Some (err, r, s2)"
         "gl_inv s2" "gl_state.more s2 = gl_state.more ?s1"
         "case r of Some pl \<Rightarrow> err = 0 \<and> stack_given s pl s2 | None \<Rightarrow> err = - ENOMEM \<and> stack_refused s s2"
        using gl_alloc_stack_outcome [OF api_src_okD(1) [OF K], of ?s1 "max_order K" "junk K"] gl
        unfolding gl_parts given_parts by blast
      have s2: "mms s2 = mms s" "allocs s2 = (allocs s)(p \<mapsto> ?a1)" "sa_allocators s2 = sa_allocators s"
        using more_kernelD [OF g(3)] by simp_all
      have "\<not> al_lock b" using api_invD(3) [OF inv b] by (simp add: alloc_ok_def)
      then obtain b' where b': "allocs s2 q = Some b'" "threads b' = threads b" "\<not> al_lock b'"
        using s2(2) b a by (cases "q = p") auto
      let ?find = "find_thread pp (threads b) (sorted_list_of_set (dom (threads b)))"
      have run: "sa_fork K cur pg pp s = (case r of
          None \<Rightarrow> Some (err, s2\<lparr>allocs := allocs s\<rparr>)
        | Some pl \<Rightarrow> (case ?find of
            None \<Rightarrow> do { s \<leftarrow> gl_free pl s2; s \<leftarrow> alloc_put K p s; Some (- ENOENT, s) }
          | Some (n, t) \<Rightarrow> do { s \<leftarrow> copy_stack pl (pagelist t) s2; sa_fork_map K cur m p n pl s }))"
        using True Some same g(1) b' s2(2)
        by (simp add: sa_fork_def cur get alloc_find_def kmalloc_def put_back [OF _ ok(2)] split: option.split)
      show ?thesis
      proof (cases r)
        case None
        then show ?thesis
          using run g(2,4) s2 by (simp add: alloc_failed_def pages_kept_refused)
      next
        case (Some pl)
        then have tk: "stack_taken s pl s2" using g(4) by (simp add: stack_given_taken)
        show ?thesis
        proof (cases ?find)
          case None
          obtain s3 where f: "gl_free pl s2 = Some s3" "gl_inv s3" "pages_kept s s3" "mms s3 = mms s2"
            "allocs s3 = allocs s2" "sa_allocators s3 = sa_allocators s2"
            using gl_free_taken [OF g(2) tk] by blast
          then have "sa_fork K cur pg pp s = Some (- ENOENT, s3\<lparr>allocs := allocs s\<rparr>)"
            using run Some None s2(2) same by (simp add: put_back [OF _ ok(2)])
          then show ?thesis
            using f s2 by (simp add: alloc_failed_def)
        next
          case (Some nt)
          obtain n t where nt: "nt = (n, t)" by (cases nt)
          then have t: "threads b n = Some (Some t)" "tid t = pp"
            using find_thread_Some Some by blast+
          have lt: "live s (q, n) t" using b t by (simp add: live_def)
          have n: "unat n \<le> 0x220000"
            using api_invD(3) [OF inv b] t by (auto simp: alloc_ok_def thread_ok_def)
          from sa_fork_copy_outcome [OF s2(2) a ok(2) n s2(1,3) g(2) tk live_held [OF inv lt] mm mm_ok, of cur]
          show ?thesis
            using run \<open>r = Some pl\<close> Some nt \<open>sa_allocators s pg = Some q\<close> b t by auto metis
        qed
      qed
    qed
  qed
qed

subsection \<open>The interface as a system of requests\<close>

text \<open>Any task may issue any request at any time; the environment only promises that the
  caller runs in the address space its allocator was created for, and that an allocator is
  created at a fresh pointer for an address space that has none.\<close>

datatype request = Create nat int nat | Alloc task | Free task u64 | Fork task int int

definition enabled :: "request \<Rightarrow> 'a kernel_scheme \<Rightarrow> bool" where
  "enabled r s = (case r of
     Create p g m \<Rightarrow> allocs s p = None \<and> m \<in> dom (mms s) \<and>
       (\<forall>q b. allocs s q = Some b \<longrightarrow> alloc_mm b \<noteq> Some m)
   | Alloc cur \<Rightarrow> caller_ok cur s
   | Free cur addr \<Rightarrow> caller_ok cur s
   | Fork cur pg pp \<Rightarrow> caller_ok cur s)"

definition serve :: "api_src \<Rightarrow> request \<Rightarrow> 'a kernel_scheme \<Rightarrow> (int \<times> 'a kernel_scheme) option" where
  "serve K r s = (case r of
     Create p g m \<Rightarrow> do {
       (q, s) \<leftarrow> alloc_create K p g (Some m) s;
       Some (case q of None \<Rightarrow> - ENOMEM | Some _ \<Rightarrow> 0, s) }
   | Alloc cur \<Rightarrow> do { (err, r, s) \<leftarrow> sa_alloc K cur s; Some (err, s) }
   | Free cur addr \<Rightarrow> sa_free K cur addr s
   | Fork cur pg pp \<Rightarrow> sa_fork K cur pg pp s)"

lemma api_inv_tick [simp]: "api_inv l5 (s\<lparr>tick := t\<rparr>) = api_inv l5 s"
  by (simp add: api_inv_def alloc_ok_def thread_ok_def live_def)

lemma api_inv_create:
  assumes inv: "api_inv l5 s" and en: "allocs s p = None" "m \<in> dom (mms s)"
    "\<And>q b. allocs s q = Some b \<Longrightarrow> alloc_mm b \<noteq> Some m" and g: "sa_allocators s g = None"
    and s': "s' = s\<lparr>allocs := (allocs s)(p \<mapsto>
      \<lparr>tgid = g, alloc_mm = Some m, al_lock = False, threads = Map.empty, max_id = 0, kref = 1\<rparr>),
      sa_allocators := (sa_allocators s)(g \<mapsto> p)\<rparr>"
  shows "api_inv l5 s'"
proof (rule api_invI)
  have lv: "live s' = live s"
    using en(1) s' by (auto simp: live_def fun_eq_iff split: if_splits)
  show "alloc_ok l5 s' q b" if "allocs s' q = Some b" for q b
  proof (cases "q = p")
    case True
    then show ?thesis using that en(2) s' by (auto simp: alloc_ok_def)
  next
    case False
    then have "alloc_ok l5 s q b" using that s' api_invD(3) [OF inv] by simp
    then show ?thesis using s' g by (auto simp: alloc_ok_def thread_ok_def)
  qed
  show "\<exists>a. allocs s' q = Some a \<and> tgid a = h" if "sa_allocators s' h = Some q" for h q
  proof (cases "h = g")
    case False
    then have "sa_allocators s h = Some q" using that s' by simp
    from api_invD(4) [OF inv this] show ?thesis using s' en(1) by auto
  qed (use that s' in auto)
  show "q = r" if "allocs s' q = Some b" "allocs s' r = Some c" "alloc_mm b = alloc_mm c" for q r b c
    using that en(3) [of q b] en(3) [of r c] api_invD(5) [OF inv, of q b r c] s' by (auto split: if_splits)
  show "set (frames (pagelist t)) \<inter> set (frames (pagelist u)) = {}"
    if "live s' i t" "live s' j u" "i \<noteq> j" for i j t u
    using that api_invD(6) [OF inv] by (simp add: lv)
qed (use s' api_invD(1,2) [OF inv] in auto)

lemma alloc_create_outcome:
  assumes "api_inv l5 s" "allocs s p = None" "m \<in> dom (mms s)"
    "\<And>q b. allocs s q = Some b \<Longrightarrow> alloc_mm b \<noteq> Some m"
  shows "\<exists>r s'. alloc_create K p g (Some m) s = Some (r, s') \<and> api_inv l5 s'"
proof -
  let ?s = "s\<lparr>tick := Suc (tick s)\<rparr>"
  have undo: "(allocs s)(p := None) = allocs s" using assms(2) by (simp add: fun_upd_idem)
  show ?thesis
  proof (cases "ks_kmalloc (src K) (tick s) \<and> sa_allocators s g = None \<and> \<not> xa_nomem K (Suc (tick s))")
    case True
    let ?s' = "?s\<lparr>allocs := (allocs ?s)(p \<mapsto>
      \<lparr>tgid = g, alloc_mm = Some m, al_lock = False, threads = Map.empty, max_id = 0, kref = 1\<rparr>),
      sa_allocators := (sa_allocators ?s)(g \<mapsto> p)\<rparr>"
    have "alloc_create K p g (Some m) s = Some (Some p, ?s')"
      using True assms(2) by (simp add: alloc_create_def kmalloc_def Let_def)
    moreover have "api_inv l5 ?s'"
      by (rule api_inv_create [of l5 ?s p m g, OF _ _ _ _ _ refl]) (use assms True in auto)
    ultimately show ?thesis by blast
  next
    case False
    have "alloc_create K p g (Some m) s = Some (None, ?s)"
      using False assms(2) undo by (auto simp: alloc_create_def kmalloc_def Let_def split: bool.split)
    then show ?thesis using assms(1) by simp
  qed
qed

lemma alloc_get_none: "sa_allocators s g = None \<Longrightarrow> alloc_get g s = Some (None, s)"
  by (simp add: alloc_get_def alloc_find_def)

lemma caller_allocator:
  assumes "api_inv l5 s" "caller_ok cur s" "task_mm cur = Some m" "sa_allocators s (task_tgid cur) = Some p"
  obtains a mm where "allocs s p = Some a" "alloc_mm a = Some m" "kref a > 0" "mms s m = Some mm"
    "mm_ok l5 mm"
proof -
  obtain a where a: "allocs s p = Some a" using api_invD(4) [OF assms(1,4)] by blast
  obtain mm where mm: "mms s m = Some mm" using assms(2,3) by (auto simp: caller_ok_def)
  have "alloc_mm a = Some m" using assms(2,3,4) a by (auto simp: caller_ok_def)
  moreover have "kref a > 0" using api_invD(3) [OF assms(1) a] by (simp add: alloc_ok_def)
  ultimately show ?thesis
    using that a mm api_invD(2) [OF assms(1) mm] by blast
qed

text \<open>The status of a request is 0, and then a slot was stored, or negative.\<close>

lemma sa_alloc_result:
  assumes K: "api_src_ok K" and inv: "api_inv (five_level K) s" and cur: "caller_ok cur s"
    and run: "sa_alloc K cur s = Some (err, r, s')"
  shows "err = 0 \<and> (\<exists>n. r = Some (id_to_addr n) \<and> unat n \<le> 0x220000) \<or> err < 0"
proof (cases "task_mm cur = None \<or> sa_allocators s (task_tgid cur) = None")
  case True
  then show ?thesis
    using run alloc_get_none [of s "task_tgid cur"]
    by (cases "task_mm cur") (auto simp: sa_alloc_def)
next
  case False
  then obtain m p where mp: "task_mm cur = Some m" "sa_allocators s (task_tgid cur) = Some p" by auto
  obtain a mm where a: "allocs s p = Some a" "alloc_mm a = Some m" "kref a > 0" "mms s m = Some mm"
    "mm_ok (five_level K) mm"
    using caller_allocator [OF inv cur mp] by blast
  from sa_alloc_outcome [OF K api_invD(1) [OF inv] mp a(1,3,4,5)] run show ?thesis
    by (fastforce simp: thread_added_def)
qed

lemma sa_alloc_inv:
  assumes K: "api_src_ok K" and inv: "api_inv (five_level K) s" and cur: "caller_ok cur s"
  shows "\<exists>err r s'. sa_alloc K cur s = Some (err, r, s') \<and> api_inv (five_level K) s'"
proof (cases "task_mm cur = None \<or> sa_allocators s (task_tgid cur) = None")
  case True
  then show ?thesis
    using inv alloc_get_none [of s "task_tgid cur"]
    by (cases "task_mm cur") (auto simp: sa_alloc_def)
next
  case False
  then obtain m p where mp: "task_mm cur = Some m" "sa_allocators s (task_tgid cur) = Some p" by auto
  obtain a mm where a: "allocs s p = Some a" "alloc_mm a = Some m" "kref a > 0" "mms s m = Some mm"
    "mm_ok (five_level K) mm"
    using caller_allocator [OF inv cur mp] by blast
  show ?thesis
    using sa_alloc_outcome [OF K api_invD(1) [OF inv] mp a(1,3,4,5)]
      api_inv_added [OF inv a(1,2)] api_inv_failed [OF inv a(1,2)] by metis
qed

lemma sa_fork_inv:
  assumes K: "api_src_ok K" and inv: "api_inv (five_level K) s" and cur: "caller_ok cur s"
  shows "\<exists>err s'. sa_fork K cur pg pp s = Some (err, s') \<and> api_inv (five_level K) s'"
proof (cases "task_mm cur = None \<or> sa_allocators s (task_tgid cur) = None")
  case True
  then show ?thesis
    using inv alloc_get_none [of s "task_tgid cur"]
    by (cases "task_mm cur") (auto simp: sa_fork_def)
next
  case False
  then obtain m p where mp: "task_mm cur = Some m" "sa_allocators s (task_tgid cur) = Some p" by auto
  obtain a mm where a: "allocs s p = Some a" "alloc_mm a = Some m" "mms s m = Some mm"
    using caller_allocator [OF inv cur mp] by blast
  show ?thesis
    using sa_fork_outcome [OF K inv mp a(1,3)]
      api_inv_added [OF inv a(1,2)] api_inv_failed [OF inv a(1,2)] by metis
qed

lemma sa_free_inv:
  assumes inv: "api_inv (five_level K) s" and cur: "caller_ok cur s"
  shows "\<exists>err s'. sa_free K cur addr s = Some (err, s') \<and> api_inv (five_level K) s'"
proof (cases "\<exists>m p a t. task_mm cur = Some m \<and> addr_valid addr \<and>
    sa_allocators s (task_tgid cur) = Some p \<and> allocs s p = Some a \<and> threads a (addr_to_id addr) = Some (Some t)")
  case True
  then obtain m p a t where c: "task_mm cur = Some m" "addr_valid addr"
    "sa_allocators s (task_tgid cur) = Some p" "allocs s p = Some a" "threads a (addr_to_id addr) = Some (Some t)"
    by blast
  have "alloc_mm a = Some m" using cur c by (auto simp: caller_ok_def)
  then show ?thesis
    using sa_free_outcome [OF inv c(1) cur c(3,4) addr_valid_slot(1) [OF c(2)] c(5)]
      api_inv_removed [OF inv c(4)] addr_valid_slot(2) [OF c(2)] by metis
next
  case False
  have "threads a n = None" if "allocs s p = Some a" "\<And>t. threads a n \<noteq> Some (Some t)" for p a n
    using api_invD(3) [OF inv that(1)] that(2) by (metis alloc_ok_def not_None_eq)
  then have "sa_free K cur addr s = Some (- EINVAL, s)"
    using False api_invD(4) [OF inv] by (intro sa_free_refused [OF inv]) (metis alloc_find_def not_None_eq)
  then show ?thesis using inv by simp
qed

interpretation api: safe_system "\<lambda>s. api_src_ok K \<and> api_inv (five_level K) s" enabled "serve K" for K
proof (unfold_locales, goal_cases)
  case (1 s r)
  then show ?case
  proof (cases r)
    case (Create p g m)
    then show ?thesis
      using 1 alloc_create_outcome [of "five_level K" s p m K g] by (auto simp: enabled_def serve_def)
  next
    case (Alloc cur)
    then show ?thesis
      using 1 sa_alloc_inv [of K s cur] by (fastforce simp: enabled_def serve_def)
  next
    case (Free cur addr)
    then show ?thesis
      using 1 sa_free_inv [of K s cur addr] by (simp add: enabled_def serve_def)
  next
    case (Fork cur pg pp)
    then show ?thesis
      using 1 sa_fork_inv [of K s cur pg pp] by (simp add: enabled_def serve_def)
  qed
qed

end
