(* ===== verification/Api_Properties.thy ===== *)
theory Api_Properties
  imports Api_Invariant
begin

text \<open>
  The properties of the interface of the module, stated over \<open>sa_alloc\<close>, \<open>sa_free\<close>,
  \<open>sa_fork\<close> and the registry, with concrete kernels on which they are applied:
  \<open>boot_kernel\<close>, one process without an allocator, and \<open>busy_kernel\<close>, one process
  with two threads whose stacks are mapped at slots 0 and 1.
\<close>

subsection \<open>Concrete kernels\<close>

text \<open>Tables that map the page at offset \<open>4096 * i\<close> of every gigabyte to frame \<open>i\<close>.\<close>

definition linear_pgd :: pgd_tab where
  "linear_pgd = (\<lambda>_. ETab (\<lambda>_. ETab (\<lambda>_. ETab (\<lambda>j. ETab (\<lambda>i. Some (j * 512 + i))))))"

definition demo_task :: task where
  "demo_task = \<lparr>task_mm = Some 7, task_tgid = 100, task_pid = 101\<rparr>"

definition demo_thread :: "nat \<Rightarrow> sa_thread_desc" where
  "demo_thread k = \<lparr>tid = 100 + int k, thread_addr = id_to_addr (of_nat k), pagelist = slot_stack k\<rparr>"

definition demo_alloc :: sa_allocator_desc where
  "demo_alloc = \<lparr>tgid = 100, alloc_mm = Some 7, al_lock = False,
     threads = [0 \<mapsto> Some (demo_thread 0), 1 \<mapsto> Some (demo_thread 1)], max_id = 1, kref = 3\<rparr>"

definition boot_kernel :: kernel where
  "boot_kernel = \<lparr>inuse = {}, unsplit = {}, content = (\<lambda>_ _. 1), tick = 0,
     gl_size = 0, gl_sa = [], gl_lock = False,
     mms = [7 \<mapsto> init_mm], allocs = Map.empty, sa_allocators = Map.empty\<rparr>"

definition busy_kernel :: kernel where
  "busy_kernel = boot_kernel\<lparr>inuse := {0..<4096}, mms := [7 \<mapsto> init_mm\<lparr>pgd := linear_pgd\<rparr>],
     allocs := [5 \<mapsto> demo_alloc], sa_allocators := [100 \<mapsto> 5]\<rparr>"

definition demo_src :: api_src where
  "demo_src = \<lparr>src = bump_src, max_order = 10, junk = \<lparr>nr_pages = 0, pages = None\<rparr>, five_level = False,
     table_ok = (\<lambda>_ _. True), batch_ok = (\<lambda>_. True),
     xa_pick = (\<lambda>lim U t. if 2 \<in> U \<or> unat lim < 2 then Inl (- EBUSY) else Inr 2), xa_nomem = (\<lambda>_. False)\<rparr>"

lemma api_src_ok_demo: "api_src_ok demo_src"
  by (auto simp: api_src_ok_def demo_src_def ksrc_ok_bump_src)

lemma wf_linear_pgd: "wf_pgd False linear_pgd"
  by (simp add: wf_pgd_def wf_p4d_def wf_pud_def wf_pmd_def wf_pte_def wf_tab_def linear_pgd_def)

lemma linear_mapped:
  assumes "k < 128"
  shows "stack_mapped False linear_pgd (of_nat k) (slot_stack k)"
  unfolding stack_mapped_def
proof (intro allI impI)
  fix x
  assume x: "in_slot (of_nat k) x"
  have k: "unat (of_nat k :: u32) = k" using assms by (simp add: unat_of_nat take_bit_nat_eq_self)
  then have n: "unat (of_nat k :: u32) \<le> 0x220000" using assms by simp
  define off where "off = unat (x - id_to_addr (of_nat k))"
  have le: "id_to_addr (of_nat k) \<le> x" using x by (simp add: in_slot_def)
  have ux: "unat x = 0xffffeb0000000000 + k * 0x800000 + off" and off: "off < 0x800000"
    using x unat_stack_end [OF n] unat_id_to_addr [OF n] k le
    by (auto simp: off_def unat_sub in_slot_def word_le_nat_alt word_less_nat_alt)
  have pm: "unat x div 2 ^ 21 mod 512 = k * 4 + off div 2 ^ 21"
  proof -
    have "unat x div 2 ^ 21 = 512 * 17179847680 + (k * 4 + off div 2 ^ 21)"
      unfolding ux by simp
    moreover have "k * 4 + off div 2 ^ 21 < 512" using assms off by simp
    ultimately show ?thesis by (simp only: mod_mult_self4 mod_less)
  qed
  have pt: "unat x div 2 ^ 12 mod 512 = off div 4096 mod 512"
  proof -
    have "unat x div 2 ^ 12 = 512 * (8796082012160 + k * 4) + off div 4096"
      unfolding ux by simp
    then show ?thesis by (simp only: mod_mult_self4)
  qed
  have "(k * 4 + off div 2 ^ 21) * 512 + off div 4096 mod 512 = k * 2048 + off div 4096"
  proof -
    have "off div 2 ^ 21 = off div 4096 div 512" by (simp add: div_mult2_eq [symmetric])
    then show ?thesis using div_mult_mod_eq [of "off div 4096" 512] by simp
  qed
  then have "translate False linear_pgd x = Some (k * 2048 + off div 4096)"
    using pm pt
    by (simp add: translate_def look_p4d_def look_pud_def look_pmd_def look_tab_def look_pte_def
        linear_pgd_def pt_index_eq)
  moreover have "off div 4096 < 2048" using off by simp
  ultimately show "translate False linear_pgd x =
      Some (frames (slot_stack k) ! (unat (x - id_to_addr (of_nat k)) div 4096))"
    by (simp add: frames_slot_stack off_def)
qed

lemma api_inv_boot: "api_inv False boot_kernel"
  by (rule api_invI)
    (auto simp: boot_kernel_def gl_inv_def owned_def gl_frames_def GL_SA_CAPACITY_def mm_ok_def init_mm_def
      wf_empty_pgd live_def split: if_splits)

lemma live_busy: "live busy_kernel i t \<longleftrightarrow> (\<exists>k \<in> {0, 1}. i = (5, of_nat k) \<and> t = demo_thread k)"
  by (cases i) (auto simp: live_def busy_kernel_def demo_alloc_def split: if_splits)

lemma owned_busy: "owned busy_kernel = {0..<4096}" "unsplit busy_kernel = {}"
  by (simp_all add: busy_kernel_def boot_kernel_def owned_def gl_frames_def)

lemma thread_ok_demo:
  assumes "k \<in> {0, 1}"
  shows "thread_ok False busy_kernel linear_pgd (of_nat k) (demo_thread k)"
proof -
  have "held busy_kernel (slot_stack k)"
    using assms wf_slot_stack by (auto simp: held_def owned_busy frames_slot_stack STACK_PAGES_eq)
  then show ?thesis
    using assms linear_mapped [of k] by (auto simp: thread_ok_def demo_thread_def)
qed

lemma api_inv_busy: "api_inv False busy_kernel"
proof (rule api_invI)
  show "gl_inv busy_kernel"
    by (simp add: gl_inv_def owned_busy) (simp add: busy_kernel_def boot_kernel_def gl_frames_def GL_SA_CAPACITY_def)
  show "mm_ok False mm" if "mms busy_kernel m = Some mm" for m mm
    using that by (auto simp: busy_kernel_def mm_ok_def init_mm_def wf_linear_pgd split: if_splits)
  have "dom (threads demo_alloc) = {0, 1}" by (auto simp: demo_alloc_def)
  then have "alloc_ok False busy_kernel 5 demo_alloc"
    using thread_ok_demo [of 0] thread_ok_demo [of 1]
    by (simp add: alloc_ok_def) (simp add: demo_alloc_def busy_kernel_def)
  then show "alloc_ok False busy_kernel p a" if "allocs busy_kernel p = Some a" for p a
    using that by (auto simp: busy_kernel_def split: if_splits)
  show "set (frames (pagelist t)) \<inter> set (frames (pagelist u)) = {}"
    if "live busy_kernel i t" "live busy_kernel j u" "i \<noteq> j" for i j t u
    using that by (auto simp: live_busy demo_thread_def frames_slot_stack)
qed (auto simp: busy_kernel_def demo_alloc_def split: if_splits)

lemma caller_busy: "caller_ok demo_task busy_kernel"
  by (auto simp: caller_ok_def demo_task_def busy_kernel_def demo_alloc_def split: if_splits)

lemma demo_simps:
  "task_mm demo_task = Some 7" "sa_allocators busy_kernel (task_tgid demo_task) = Some 5"
  "allocs busy_kernel 5 = Some demo_alloc" "five_level demo_src = False"
  "threads demo_alloc 0 = Some (Some (demo_thread 0))" "threads demo_alloc 1 = Some (Some (demo_thread 1))"
  by (simp_all add: demo_task_def busy_kernel_def demo_alloc_def demo_src_def)

text \<open>The same with one zeroed stack parked on the free list: here \<open>sa_alloc\<close> succeeds.\<close>

definition parked_kernel :: kernel where
  "parked_kernel = busy_kernel\<lparr>inuse := {0..<6144}, content := (\<lambda>_. zero_page), gl_size := 1, gl_sa := [slot_stack 2]\<rparr>"

lemma gl_frames_parked: "gl_frames parked_kernel = frames (slot_stack 2)"
  by (simp add: parked_kernel_def gl_frames_def)

lemma owned_parked: "owned parked_kernel = {0..<4096}" "unsplit parked_kernel = {}"
  by (auto simp: owned_def gl_frames_parked set_slot_stack) (auto simp: parked_kernel_def busy_kernel_def boot_kernel_def)

lemma gl_inv_parked: "gl_inv parked_kernel"
proof -
  have "distinct (frames (slot_stack 2))" using wf_slot_stack [of 2] by (simp only: wf_pagelist_def)
  then show ?thesis
    by (simp add: gl_inv_def owned_parked gl_frames_parked set_slot_stack)
      (auto simp: parked_kernel_def busy_kernel_def boot_kernel_def GL_SA_CAPACITY_def wf_slot_stack STACK_PAGES_eq)
qed

lemma api_inv_parked: "api_inv False parked_kernel"
proof -
  have "held parked_kernel pl = held busy_kernel pl" for pl
    by (simp add: held_def owned_parked owned_busy)
  then show ?thesis
    using api_inv_busy gl_inv_parked
    by (simp add: api_inv_def alloc_ok_def thread_ok_def live_def) (simp add: parked_kernel_def)
qed

lemma sa_alloc_parked: "\<exists>s1. sa_alloc demo_src demo_task parked_kernel = Some (0, Some (id_to_addr 2), s1)"
proof -
  let ?s = "parked_kernel\<lparr>allocs := (allocs parked_kernel)(5 \<mapsto> demo_alloc\<lparr>kref := 4,
    threads := (threads demo_alloc)(2 \<mapsto> None)\<rparr>), tick := 2\<rparr>"
  have "gl_inv ?s" "gl_sa ?s = [slot_stack 2]" using gl_inv_parked by (simp_all add: parked_kernel_def)
  then obtain s1 where g: "gl_alloc_stack bump_src 10 \<lparr>nr_pages = 0, pages = None\<rparr> ?s = Some (0, Some (slot_stack 2), s1)"
    "gl_state.more s1 = gl_state.more ?s"
    using gl_alloc_stack_pop by blast
  have m: "mms s1 7 = Some (init_mm\<lparr>pgd := linear_pgd\<rparr>)" "allocs s1 5 \<noteq> None"
    using more_kernelD [OF g(2)] by (simp_all add: parked_kernel_def busy_kernel_def)
  obtain err mm' where "map_stack demo_src 7 (id_to_addr 2) (slot_stack 2) s1 = Some (err, s1\<lparr>mms := (mms s1)(7 \<mapsto> mm')\<rparr>)"
    using map_stack_run [OF m(1), of demo_src "slot_stack 2" 2] wf_slot_stack wf_linear_pgd
    by (auto simp: demo_simps init_mm_def STACK_PAGES_eq)
  moreover from this have "err = 0"
    using map_range_ok [of "table_ok demo_src"]
    by (auto simp: map_stack_def with_mm_def bind_eq_Some_conv demo_src_def split: bind_split)
  ultimately have "\<exists>s'. sa_alloc_map demo_src demo_task 7 5 2 (slot_stack 2) s1 = Some (0, Some (id_to_addr 2), s')"
    using m(2) by (auto simp: sa_alloc_map_def upd_alloc_def Let_def)
  moreover have "alloc_get 100 parked_kernel =
      Some (Some 5, parked_kernel\<lparr>allocs := (allocs parked_kernel)(5 \<mapsto> demo_alloc\<lparr>kref := 4\<rparr>)\<rparr>)"
    using alloc_get_run [of parked_kernel 100 5 demo_alloc] demo_simps(2,3)
    by (simp add: parked_kernel_def demo_task_def) (simp add: demo_alloc_def)
  moreover have "tick parked_kernel = 0" "2 \<notin> dom (threads demo_alloc)"
    by (simp_all add: parked_kernel_def busy_kernel_def boot_kernel_def demo_alloc_def)
  ultimately show ?thesis
    using g(1)
    by (simp add: sa_alloc_def demo_task_def xa_alloc_thread_def upd_alloc_def kmalloc_def demo_src_def
        bump_src_def window_consts numeral_2_eq_2)
qed

subsection \<open>What a live thread sees\<close>

lemma slot_page:
  assumes "unat n \<le> 0x220000" "in_slot n x"
  shows "unat (x - id_to_addr n) div 4096 < 2048"
proof -
  have "unat (x - id_to_addr n) < 0x800000"
    using assms(2) unat_stack_end [OF assms(1)]
    by (auto simp: unat_sub in_slot_def word_le_nat_alt word_less_nat_alt)
  then show ?thesis by (intro less_mult_imp_div_less) simp
qed

lemma thread_translates:
  assumes "api_inv l5 s" "allocs s p = Some a" "threads a n = Some (Some t)" "alloc_mm a = Some m"
    "mms s m = Some mm" "in_slot n x"
  shows "\<exists>f \<in> set (frames (pagelist t)). translate l5 (pgd mm) x = Some f"
proof -
  have t: "thread_ok l5 s (pgd mm) n t"
    using api_invD(3) [OF assms(1,2)] assms(3-5) by (auto simp: alloc_ok_def)
  then have "length (frames (pagelist t)) = 2048"
    by (simp add: thread_ok_def held_def wf_pagelist_def STACK_PAGES_eq)
  moreover have "unat (x - id_to_addr n) div 4096 < 2048"
    using t assms(6) by (intro slot_page) (simp add: thread_ok_def)
  ultimately show ?thesis
    using t assms(6) by (auto simp: thread_ok_def stack_mapped_def)
qed

subsection \<open>Properties of the whole interface\<close>

text \<open>C1: whatever requests arrive in whatever order, and whatever the kernel's allocators
  answer, the module keeps its invariant and no request ever meets undefined behaviour.\<close>

theorem requests_safe:
  assumes "api_src_ok K" and "api_inv (five_level K) s0" and "reach enabled (serve K) s0 s"
  shows "api_inv (five_level K) s \<and> (\<forall>r. enabled r s \<longrightarrow> (\<exists>out s'. serve K r s = Some (out, s')))"
  using api.reach_inv [OF assms(3)] api.reach_progress [OF assms(3)] assms(1,2) by blast

theorem requests_safe_witness:
  "\<exists>s. reach enabled (serve demo_src) boot_kernel s \<and> sa_allocators s 100 = Some 5 \<and> api_inv False s \<and>
     (\<forall>r. enabled r s \<longrightarrow> (\<exists>out s'. serve demo_src r s = Some (out, s')))"
proof -
  obtain s where s: "serve demo_src (Create 5 100 7) boot_kernel = Some (0, s)" "sa_allocators s 100 = Some 5"
    by (simp add: serve_def alloc_create_def kmalloc_def boot_kernel_def demo_src_def bump_src_def)
  have "enabled (Create 5 100 7) boot_kernel"
    by (simp add: enabled_def boot_kernel_def)
  then have r: "reach enabled (serve demo_src) boot_kernel s"
    using s(1) reach_next [OF reach_start] by metis
  have "api_inv (five_level demo_src) boot_kernel"
    using api_inv_boot by (simp add: demo_src_def)
  from requests_safe [OF api_src_ok_demo this r] s(2) r show ?thesis
    by (auto simp: demo_src_def)
qed

text \<open>C2: in every reachable state the stacks of two different threads, of the same or of
  different processes, are isolated: an address of the one's slot and an address of the
  other's slot never translate to the same page, and the page is in use and not on the free
  list.\<close>

theorem stacks_isolated:
  assumes "api_src_ok K" and "api_inv (five_level K) s0" and "reach enabled (serve K) s0 s"
    and "allocs s p = Some a" and "threads a n = Some (Some t)" and "alloc_mm a = Some m" and "mms s m = Some mm"
    and "allocs s q = Some b" and "threads b k = Some (Some u)" and "alloc_mm b = Some l" and "mms s l = Some ml"
    and "(p, n) \<noteq> (q, k)" and "in_slot n x" and "in_slot k y"
  shows "\<exists>f g. translate (five_level K) (pgd mm) x = Some f \<and> translate (five_level K) (pgd ml) y = Some g \<and>
    f \<noteq> g \<and> {f, g} \<subseteq> inuse s \<and> {f, g} \<inter> set (gl_frames s) = {}"
proof -
  have inv: "api_inv (five_level K) s"
    using api.reach_inv [OF assms(3)] assms(1,2) by blast
  obtain f where f: "f \<in> set (frames (pagelist t))" "translate (five_level K) (pgd mm) x = Some f"
    using thread_translates [OF inv assms(4-7,13)] by blast
  obtain g where g: "g \<in> set (frames (pagelist u))" "translate (five_level K) (pgd ml) y = Some g"
    using thread_translates [OF inv assms(8-11,14)] by blast
  have lv: "live s (p, n) t" "live s (q, k) u"
    using assms(4,5,8,9) by (simp_all add: live_def)
  then have "f \<noteq> g" using f(1) g(1) api_invD(6) [OF inv lv assms(12)] by auto
  moreover have "{f, g} \<subseteq> owned s"
    using f(1) g(1) live_owned [OF inv lv(1)] live_owned [OF inv lv(2)] by auto
  ultimately show ?thesis
    using f(2) g(2) by (auto simp: owned_def)
qed

theorem stacks_isolated_witness:
  "\<exists>f g. translate False linear_pgd 0xffffeb0000001000 = Some f \<and>
    translate False linear_pgd 0xffffeb0000801000 = Some g \<and>
    f \<noteq> g \<and> {f, g} \<subseteq> inuse busy_kernel \<and> {f, g} \<inter> set (gl_frames busy_kernel) = {}"
proof -
  have mm: "mms busy_kernel 7 = Some (init_mm\<lparr>pgd := linear_pgd\<rparr>)" "alloc_mm demo_alloc = Some 7"
    by (simp_all add: busy_kernel_def demo_alloc_def)
  have x: "in_slot 0 0xffffeb0000001000" "in_slot 1 0xffffeb0000801000"
    by (simp_all add: in_slot_def id_to_addr_def SS_START_def SS_SIZE_def)
  have ne: "(5, 0 :: u32) \<noteq> (5 :: nat, 1)" by simp
  have inv: "api_inv (five_level demo_src) busy_kernel" using api_inv_busy by (simp add: demo_simps)
  from stacks_isolated [OF api_src_ok_demo inv reach_start demo_simps(3,5) mm(2,1) demo_simps(3,6) mm(2,1) ne x]
  show ?thesis by (simp add: demo_simps)
qed

subsection \<open>Properties of each operation\<close>

text \<open>C5: \<open>sa_alloc\<close> either answers 0 and the start of a free slot at which the calling
  process now sees 2048 zeroed pages that nobody owned, or a negative status, and then every
  allocator and every owned page is as before; in both cases no page of another thread
  changes.\<close>

theorem sa_alloc_correct:
  assumes "api_src_ok K" and "api_inv (five_level K) s" and "caller_ok cur s"
    and "task_mm cur = Some m" and "sa_allocators s (task_tgid cur) = Some p" and "allocs s p = Some a"
  shows "\<exists>err r s'. sa_alloc K cur s = Some (err, r, s') \<and> api_inv (five_level K) s' \<and>
    (\<forall>q \<in> owned s. content s' q = content s q) \<and>
    (if err = 0 then \<exists>n t mm. r = Some (id_to_addr n) \<and> threads a n = None \<and> live s' (p, n) t \<and>
        tid t = task_pid cur \<and> mms s' m = Some mm \<and> stack_mapped (five_level K) (pgd mm) n (pagelist t) \<and>
        wf_pagelist 2048 (pagelist t) \<and> set (frames (pagelist t)) \<inter> owned s = {} \<and>
        (\<forall>q \<in> set (frames (pagelist t)). content s' q = zero_page)
     else err < 0 \<and> allocs s' = allocs s \<and> owned s' = owned s)"
proof -
  obtain mm where a: "alloc_mm a = Some m" "kref a > 0" "mms s m = Some mm" "mm_ok (five_level K) mm"
    using caller_allocator [OF assms(2-5)] assms(6) by auto
  from sa_alloc_outcome [OF assms(1) api_invD(1) [OF assms(2)] assms(4-6) a(2-4)]
  obtain err r s' where run: "sa_alloc K cur s = Some (err, r, s')" and
    "(err = 0 \<and> (\<exists>n pl. r = Some (id_to_addr n) \<and>
        thread_added (five_level K) m p a n \<lparr>tid = task_pid cur, thread_addr = id_to_addr n, pagelist = pl\<rparr> s s' \<and>
        (\<forall>q \<in> set (frames pl). content s' q = zero_page))) \<or>
     (err < 0 \<and> alloc_failed (five_level K) m a s s')" by blast
  then consider (ok) n t where "err = 0" "r = Some (id_to_addr n)" "tid t = task_pid cur"
      "thread_added (five_level K) m p a n t s s'" "\<forall>q \<in> set (frames (pagelist t)). content s' q = zero_page"
    | (fail) "err < 0" "alloc_failed (five_level K) m a s s'"
    by force
  then show ?thesis
  proof cases
    case ok
    then show ?thesis
      using run api_inv_added [OF assms(2,6) a(1) ok(4)]
      by (fastforce simp: thread_added_def stack_taken_def live_def STACK_PAGES_eq)
  next
    case fail
    then show ?thesis
      using run api_inv_failed [OF assms(2,6) a(1) fail(2)] by (auto simp: alloc_failed_def pages_kept_def)
  qed
qed

theorem sa_alloc_correct_witness:
  "\<exists>err r s'. sa_alloc demo_src demo_task busy_kernel = Some (err, r, s') \<and> api_inv False s' \<and>
    (\<forall>q \<in> owned busy_kernel. content s' q = content busy_kernel q) \<and>
    (if err = 0 then \<exists>n t mm. r = Some (id_to_addr n) \<and> threads demo_alloc n = None \<and> live s' (5, n) t \<and>
        tid t = task_pid demo_task \<and> mms s' 7 = Some mm \<and> stack_mapped False (pgd mm) n (pagelist t) \<and>
        wf_pagelist 2048 (pagelist t) \<and> set (frames (pagelist t)) \<inter> owned busy_kernel = {} \<and>
        (\<forall>q \<in> set (frames (pagelist t)). content s' q = zero_page)
     else err < 0 \<and> allocs s' = allocs busy_kernel \<and> owned s' = owned busy_kernel)"
  using sa_alloc_correct [OF api_src_ok_demo _ caller_busy demo_simps(1-3)] api_inv_busy
  by (simp only: demo_simps(4))

text \<open>C6: \<open>sa_free\<close> answers 0 exactly for the start address of a slot in which the
  process has a thread, and then takes the thread, its reference and its pages (and only
  those) away; a second \<open>sa_free\<close> of the same address is refused. Every other call is
  refused with \<open>-EINVAL\<close> and changes nothing.\<close>

theorem sa_free_correct:
  assumes "api_inv (five_level K) s" and "caller_ok cur s"
    and "task_mm cur = Some m" and "sa_allocators s (task_tgid cur) = Some p" and "allocs s p = Some a"
  shows "\<exists>err s'. sa_free K cur addr s = Some (err, s') \<and> api_inv (five_level K) s' \<and>
    (if addr_valid addr \<and> threads a (addr_to_id addr) \<noteq> None
     then err = 0 \<and> sa_free K cur addr s' = Some (- EINVAL, s') \<and>
       (\<exists>t. threads a (addr_to_id addr) = Some (Some t) \<and> owned s' = owned s - set (frames (pagelist t))) \<and>
       (\<forall>q \<in> owned s'. content s' q = content s q) \<and>
       allocs s' = (allocs s)(p \<mapsto> a\<lparr>kref := kref a - 1, threads := (threads a)(addr_to_id addr := None)\<rparr>)
     else err = - EINVAL \<and> s' = s)"
proof (cases "addr_valid addr \<and> threads a (addr_to_id addr) \<noteq> None")
  case True
  let ?n = "addr_to_id addr"
  have am: "alloc_mm a = Some m" using assms(2-5) by (auto simp: caller_ok_def)
  obtain t where t: "threads a ?n = Some (Some t)"
    using True api_invD(3) [OF assms(1,5)] unfolding alloc_ok_def by (metis not_None_eq)
  obtain s' where f: "sa_free K cur addr s = Some (0, s')" "thread_removed (five_level K) m p a ?n t s s'"
    using sa_free_outcome [OF assms(1,3,2,4,5) _ t] addr_valid_slot [of addr] True by auto
  have inv': "api_inv (five_level K) s'" using api_inv_removed [OF assms(1,5) am f(2)] .
  have "sa_free K cur addr s' = Some (- EINVAL, s')"
    using f(2) assms(4) by (intro sa_free_refused [OF inv']) (auto simp: thread_removed_def)
  then show ?thesis
    using True f t inv' by (auto simp: thread_removed_def stack_returned_def)
next
  case False
  then have "sa_free K cur addr s = Some (- EINVAL, s)"
    using assms(4,5) by (intro sa_free_refused [OF assms(1)]) auto
  then show ?thesis using False assms(1) by simp
qed

theorem sa_free_correct_witness:
  "\<exists>err s'. sa_free demo_src demo_task (id_to_addr 1) busy_kernel = Some (err, s') \<and> api_inv False s' \<and>
    (if addr_valid (id_to_addr 1) \<and> threads demo_alloc (addr_to_id (id_to_addr 1)) \<noteq> None
     then err = 0 \<and> sa_free demo_src demo_task (id_to_addr 1) s' = Some (- EINVAL, s') \<and>
       (\<exists>t. threads demo_alloc (addr_to_id (id_to_addr 1)) = Some (Some t) \<and>
          owned s' = owned busy_kernel - set (frames (pagelist t))) \<and>
       (\<forall>q \<in> owned s'. content s' q = content busy_kernel q) \<and>
       allocs s' = (allocs busy_kernel)(5 \<mapsto> demo_alloc\<lparr>kref := kref demo_alloc - 1,
         threads := (threads demo_alloc)(addr_to_id (id_to_addr 1) := None)\<rparr>)
     else err = - EINVAL \<and> s' = busy_kernel)"
  using sa_free_correct [OF _ caller_busy demo_simps(1-3), of demo_src] api_inv_busy
  by (simp only: demo_simps(4))

text \<open>C26: \<open>sa_free\<close> does not clear the page-table entries (its documentation says that
  it zeroes them): afterwards every address of the freed slot still translates to the page
  it had, which its owner no longer holds; while the free list has room, the very next
  stack handed out, to whichever process, consists of exactly these pages.\<close>

theorem sa_free_leaves_mapping:
  assumes "api_inv (five_level K) s" and "caller_ok cur s"
    and "task_mm cur = Some m" and "sa_allocators s (task_tgid cur) = Some p" and "allocs s p = Some a"
    and "threads a n = Some (Some t)" and "unat n < unat THREADS_LIMIT" and "length (gl_sa s) < 128"
  shows "\<exists>s' mm s''. sa_free K cur (id_to_addr n) s = Some (0, s') \<and> mms s' m = Some mm \<and>
    (\<forall>x. in_slot n x \<longrightarrow> (\<exists>f \<in> set (frames (pagelist t)). translate (five_level K) (pgd mm) x = Some f \<and> f \<notin> owned s')) \<and>
    gl_alloc_stack (src K) (max_order K) (junk K) s' = Some (0, Some (pagelist t), s'')"
proof -
  have am: "alloc_mm a = Some m" using assms(2-5) by (auto simp: caller_ok_def)
  have "unat n < 0x220000" using assms(7) by (simp add: window_consts)
  then obtain s' where f: "sa_free K cur (id_to_addr n) s = Some (0, s')" "thread_removed (five_level K) m p a n t s s'"
    using sa_free_outcome [OF assms(1,3,2,4,5) _ assms(6)] by blast
  then obtain mm0 mm where mm: "mms s m = Some mm0" "mms s' m = Some mm" "pgd mm = pgd mm0"
    by (auto simp: thread_removed_def)
  have "gl_size s < GL_SA_CAPACITY"
    using api_invD(1) [OF assms(1)] assms(8) by (simp add: gl_inv_def GL_SA_CAPACITY_def)
  then have gl: "gl_sa s' = pagelist t # gl_sa s" "owned s' = owned s - set (frames (pagelist t))" "gl_inv s'"
    using f(2) by (simp_all add: thread_removed_def stack_returned_def)
  obtain s'' where "gl_alloc_stack (src K) (max_order K) (junk K) s' = Some (0, Some (pagelist t), s'')"
    using gl_alloc_stack_pop [OF gl(3,1)] by blast
  moreover have "\<exists>f \<in> set (frames (pagelist t)). translate (five_level K) (pgd mm) x = Some f \<and> f \<notin> owned s'"
    if "in_slot n x" for x
    using thread_translates [OF assms(1,5,6) am mm(1) that] mm(3) gl(2) by auto
  ultimately show ?thesis
    using f(1) mm(2) by blast
qed

theorem sa_free_leaves_mapping_witness:
  "\<exists>s' mm s''. sa_free demo_src demo_task (id_to_addr 1) busy_kernel = Some (0, s') \<and> mms s' 7 = Some mm \<and>
    (\<forall>x. in_slot 1 x \<longrightarrow> (\<exists>f \<in> set (frames (pagelist (demo_thread 1))).
       translate False (pgd mm) x = Some f \<and> f \<notin> owned s')) \<and>
    gl_alloc_stack (src demo_src) (max_order demo_src) (junk demo_src) s' =
      Some (0, Some (pagelist (demo_thread 1)), s'')"
proof -
  have "unat (1 :: u32) < unat THREADS_LIMIT" "length (gl_sa busy_kernel) < 128"
    by (simp_all add: window_consts busy_kernel_def boot_kernel_def)
  then show ?thesis
    using sa_free_leaves_mapping [OF _ caller_busy demo_simps(1-3,6), of demo_src] api_inv_busy
    by (simp only: demo_simps(4))
qed

text \<open>C8: \<open>sa_fork\<close> succeeds only if the parent has a thread with the given pid; then
  the child's stack sits at the same slot, in fresh pages that the child alone owns, with
  the parent's contents page by page, and the parent's pages are untouched. On failure
  every allocator and every owned page is as before.\<close>

theorem sa_fork_correct:
  assumes "api_src_ok K" and "api_inv (five_level K) s" and "caller_ok cur s"
    and "task_mm cur = Some m" and "sa_allocators s (task_tgid cur) = Some p" and "allocs s p = Some a"
  shows "\<exists>err s'. sa_fork K cur pg pp s = Some (err, s') \<and> api_inv (five_level K) s' \<and>
    (\<forall>q \<in> owned s. content s' q = content s q) \<and>
    (if err = 0 then \<exists>q n t u mm. sa_allocators s pg = Some q \<and> live s (q, n) t \<and> tid t = pp \<and>
        threads a n = None \<and> live s' (p, n) u \<and> tid u = task_pid cur \<and>
        mms s' m = Some mm \<and> stack_mapped (five_level K) (pgd mm) n (pagelist u) \<and>
        set (frames (pagelist u)) \<inter> owned s = {} \<and>
        (\<forall>i < 2048. content s' (frames (pagelist u) ! i) = content s (frames (pagelist t) ! i))
     else err < 0 \<and> allocs s' = allocs s \<and> owned s' = owned s)"
proof -
  obtain mm where a: "alloc_mm a = Some m" "mms s m = Some mm"
    using caller_allocator [OF assms(2-5)] assms(6) by auto
  from sa_fork_outcome [OF assms(1,2,4-6) a(2), of pg pp]
  obtain err s' where run: "sa_fork K cur pg pp s = Some (err, s')" and
    "(err = 0 \<and> (\<exists>q b n t pl. sa_allocators s pg = Some q \<and> allocs s q = Some b \<and>
        threads b n = Some (Some t) \<and> tid t = pp \<and>
        thread_added (five_level K) m p a n \<lparr>tid = task_pid cur, thread_addr = id_to_addr n, pagelist = pl\<rparr> s s' \<and>
        (\<forall>i < 2048. content s' (frames pl ! i) = content s (frames (pagelist t) ! i)))) \<or>
     (err < 0 \<and> alloc_failed (five_level K) m a s s')" by blast
  then consider (ok) q b n t pl where "err = 0" "sa_allocators s pg = Some q" "allocs s q = Some b"
      "threads b n = Some (Some t)" "tid t = pp"
      "thread_added (five_level K) m p a n \<lparr>tid = task_pid cur, thread_addr = id_to_addr n, pagelist = pl\<rparr> s s'"
      "\<forall>i < 2048. content s' (frames pl ! i) = content s (frames (pagelist t) ! i)"
    | (fail) "err < 0" "alloc_failed (five_level K) m a s s'"
    by blast
  then show ?thesis
  proof cases
    case ok
    let ?u = "\<lparr>tid = task_pid cur, thread_addr = id_to_addr n, pagelist = pl\<rparr>"
    have "live s (q, n) t" "live s' (p, n) ?u" "threads a n = None" "set (frames pl) \<inter> owned s = {}"
      "\<exists>mm. mms s' m = Some mm \<and> stack_mapped (five_level K) (pgd mm) n pl" and
      kept: "\<forall>q \<in> owned s. content s' q = content s q"
      using ok(3,4,6) by (auto simp: thread_added_def stack_taken_def live_def)
    then have "\<exists>q n t u mm. sa_allocators s pg = Some q \<and> live s (q, n) t \<and> tid t = pp \<and>
        threads a n = None \<and> live s' (p, n) u \<and> tid u = task_pid cur \<and>
        mms s' m = Some mm \<and> stack_mapped (five_level K) (pgd mm) n (pagelist u) \<and>
        set (frames (pagelist u)) \<inter> owned s = {} \<and>
        (\<forall>i < 2048. content s' (frames (pagelist u) ! i) = content s (frames (pagelist t) ! i))"
      using ok(2,5,7)
      by (intro exI [of _ q] exI [of _ n] exI [of _ t] exI [of _ ?u]) simp
    then show ?thesis
      using run ok(1) api_inv_added [OF assms(2,6) a(1) ok(6)] kept by simp
  next
    case fail
    then show ?thesis
      using run api_inv_failed [OF assms(2,6) a(1) fail(2)] by (auto simp: alloc_failed_def pages_kept_def)
  qed
qed

theorem sa_fork_correct_witness:
  "\<exists>err s'. sa_fork demo_src demo_task 100 100 busy_kernel = Some (err, s') \<and> api_inv False s' \<and>
    (\<forall>q \<in> owned busy_kernel. content s' q = content busy_kernel q) \<and>
    (if err = 0 then \<exists>q n t u mm. sa_allocators busy_kernel 100 = Some q \<and> live busy_kernel (q, n) t \<and> tid t = 100 \<and>
        threads demo_alloc n = None \<and> live s' (5, n) u \<and> tid u = task_pid demo_task \<and>
        mms s' 7 = Some mm \<and> stack_mapped False (pgd mm) n (pagelist u) \<and>
        set (frames (pagelist u)) \<inter> owned busy_kernel = {} \<and>
        (\<forall>i < 2048. content s' (frames (pagelist u) ! i) = content busy_kernel (frames (pagelist t) ! i))
     else err < 0 \<and> allocs s' = allocs busy_kernel \<and> owned s' = owned busy_kernel)"
  using sa_fork_correct [OF api_src_ok_demo _ caller_busy demo_simps(1-3), of 100 100] api_inv_busy
  by (simp only: demo_simps(4))

text \<open>C24: allocating a stack and freeing it again gives back the slot, the reference and
  the pages: the allocator's threads and reference count and the set of owned pages are what
  they were.\<close>

theorem alloc_free_roundtrip:
  assumes "api_src_ok K" and "api_inv (five_level K) s" and "caller_ok cur s"
    and "task_mm cur = Some m" and "sa_allocators s (task_tgid cur) = Some p" and "allocs s p = Some a"
    and "sa_alloc K cur s = Some (0, Some addr, s1)" and "addr_valid addr"
  shows "\<exists>s2 a'. sa_free K cur addr s1 = Some (0, s2) \<and> allocs s2 p = Some a' \<and>
    threads a' = threads a \<and> kref a' = kref a \<and> owned s2 = owned s \<and>
    (\<forall>q \<in> owned s. content s2 q = content s q)"
proof -
  obtain mm where a: "alloc_mm a = Some m" "kref a > 0" "mms s m = Some mm" "mm_ok (five_level K) mm"
    using caller_allocator [OF assms(2-5)] assms(6) by auto
  obtain n t where n: "addr = id_to_addr n" and add: "thread_added (five_level K) m p a n t s s1"
    using sa_alloc_outcome [OF assms(1) api_invD(1) [OF assms(2)] assms(4-6) a(2-4)] assms(7) by auto
  have inv1: "api_inv (five_level K) s1" using api_inv_added [OF assms(2,6) a(1) add] .
  obtain a1 where a1: "allocs s1 p = Some a1" "threads a1 = (threads a)(n \<mapsto> Some t)" "kref a1 = Suc (kref a)"
    "alloc_mm a1 = Some m" "sa_allocators s1 = sa_allocators s" "n \<notin> dom (threads a)" "unat n \<le> 0x220000"
    "m \<in> dom (mms s1)" "stack_taken s (pagelist t) s1"
    using add a(1) by (auto simp: thread_added_def)
  have c1: "caller_ok cur s1"
    using a1 assms(4,5) by (auto simp: caller_ok_def)
  have lt: "unat n < 0x220000"
    using addr_valid_slot(1) [OF assms(8)] n a1(7) by (simp add: addr_to_id_id_to_addr)
  obtain s2 where f: "sa_free K cur addr s1 = Some (0, s2)" "thread_removed (five_level K) m p a1 n t s1 s2"
    using sa_free_outcome [OF inv1 assms(4) c1 _ a1(1) lt, of t] a1(2,5) assms(5) n by auto
  have "pages_kept s s2"
    using f(2) pages_kept_undo [OF a1(9)] by (simp add: thread_removed_def)
  moreover have "(threads a)(n := None) = threads a" using a1(6) by (auto simp: fun_eq_iff)
  ultimately show ?thesis
    using f a1(2,3) by (auto simp: thread_removed_def pages_kept_def)
qed

theorem alloc_free_roundtrip_witness:
  "\<exists>s1 s2 a'. sa_alloc demo_src demo_task parked_kernel = Some (0, Some (id_to_addr 2), s1) \<and>
    sa_free demo_src demo_task (id_to_addr 2) s1 = Some (0, s2) \<and> allocs s2 5 = Some a' \<and>
    threads a' = threads demo_alloc \<and> kref a' = kref demo_alloc \<and> owned s2 = owned parked_kernel \<and>
    (\<forall>q \<in> owned parked_kernel. content s2 q = content parked_kernel q)"
proof -
  obtain s1 where s1: "sa_alloc demo_src demo_task parked_kernel = Some (0, Some (id_to_addr 2), s1)"
    using sa_alloc_parked by blast
  have "addr_valid (id_to_addr 2)" by (rule id_to_addr_valid) simp
  moreover have "api_inv (five_level demo_src) parked_kernel" using api_inv_parked by (simp add: demo_simps)
  moreover have "caller_ok demo_task parked_kernel" "sa_allocators parked_kernel (task_tgid demo_task) = Some 5"
    "allocs parked_kernel 5 = Some demo_alloc"
    using caller_busy demo_simps(2,3) by (simp_all add: parked_kernel_def caller_ok_def)
  ultimately show ?thesis
    using alloc_free_roundtrip [OF api_src_ok_demo _ _ demo_simps(1) _ _ s1] s1 by blast
qed

text \<open>C28: dropping the last reference of an allocator that has an address space is always
  undefined (its destructor walks past the end of the pgd): \<open>alloc_destroy\<close> of an
  allocator without threads, the only case it is meant for, cannot complete.\<close>

theorem alloc_destroy_undefined:
  assumes "allocs s p = Some a" and "kref a = 1" and "alloc_mm a = Some m"
  shows "alloc_destroy K (Some p) s = None"
proof -
  have "with_mm m (\<lambda>mm. do {
      mm \<leftarrow> mmap_write_lock mm;
      (_, mm) \<leftarrow> free_pgd_range (five_level K) (batch_ok K) 0 0 0 0 sa_tlb_init mm;
      mm \<leftarrow> mmap_write_unlock mm;
      Some ((), mm) }) s' = None" for s' :: "'a kernel_scheme"
    by (simp add: with_mm_def free_pgd_whole split: bind_split)
  then show ?thesis
    using assms by (simp add: alloc_destroy_def alloc_put_def upd_alloc_def alloc_destroy_callback_def)
qed

theorem alloc_destroy_undefined_witness:
  "alloc_destroy demo_src (Some 5) (busy_kernel\<lparr>allocs := [5 \<mapsto> demo_alloc\<lparr>kref := 1, threads := Map.empty\<rparr>]\<rparr>) = None"
  by (rule alloc_destroy_undefined [where a = "demo_alloc\<lparr>kref := 1, threads := Map.empty\<rparr>" and m = 7])
    (simp_all add: demo_alloc_def)

text \<open>\<open>atomic64_max\<close> raises the counter to at least its argument and never lowers
  it, however often other processors raise the counter between its attempts; the value it
  leaves is the argument or one the others stored.\<close>

lemma atomic64_max_interference:
  assumes "sorted (old # val # seen)"
  shows "n \<le> atomic64_max_loop seen old val n \<and> val \<le> atomic64_max_loop seen old val n \<and>
    (atomic64_max_loop seen old val n = n \<or> atomic64_max_loop seen old val n \<in> set (val # seen))"
  using assms
proof (induction seen arbitrary: old val)
  case Nil
  then show ?case by (auto simp: atomic64_max_loop.simps)
next
  case (Cons v vs)
  show ?case
  proof (cases "old \<ge> n \<or> val = old")
    case True
    then show ?thesis using Cons.prems by (subst (1 2 3 4) atomic64_max_loop.simps) auto
  next
    case False
    then have "atomic64_max_loop (v # vs) old val n = atomic64_max_loop vs val v n"
      by (simp add: atomic64_max_loop.simps [of "v # vs"])
    then show ?thesis using Cons.IH [of val v] Cons.prems by auto
  qed
qed

end
