(* ===== verification/Stack_Pivot.thy ===== *)
theory Stack_Pivot
  imports Api_Invariant
begin

text \<open>
  \<open>sa_pivot\<close> of \<^verbatim>\<open>lkm/core/api.c\<close>: it makes the area around a new address the
  stack of the calling process, moves the pointers the kernel keeps into the old stack
  (arguments, environment, auxiliary vector) by the distance between the two, and unmaps the
  old area. The areas of a process are the list \<open>mmap\<close>, in the order of their addresses;
  \<open>find_vma\<close> and \<open>vm_munmap\<close> are the kernel's. The model of \<open>vm_munmap\<close> is what it does to the list
  of areas: that it also removes the page-table entries of the area, all of them in user space, and
  makes its memory inaccessible is left out.
\<close>

definition find_vma :: "vm_area list \<Rightarrow> u64 \<Rightarrow> vm_area option" where
  "find_vma vs a = find (\<lambda>v. a < vm_end v) vs"

definition vm_munmap :: "u64 \<Rightarrow> u64 \<Rightarrow> vm_area list \<Rightarrow> vm_area list" where
  "vm_munmap a len vs = (if len = 0 then vs else filter (\<lambda>v. vm_end v \<le> a \<or> a + len \<le> vm_start v) vs)"

text \<open>\<open>vm_flags_set(v, VM_GROWSDOWN)\<close> and \<open>vm_flags_clear\<close>; the start address
  identifies the area.\<close>

definition set_flag :: "vm_area \<Rightarrow> bool \<Rightarrow> vm_area \<Rightarrow> vm_area" where
  "set_flag v b w = (if vm_start w = vm_start v then w\<lparr>vm_growsdown := b\<rparr> else w)"

definition set_growsdown :: "vm_area \<Rightarrow> bool \<Rightarrow> vm_area list \<Rightarrow> vm_area list" where
  "set_growsdown v b vs = map (set_flag v b) vs"

abbreviation AT_NULL :: u64 where "AT_NULL \<equiv> 0"
abbreviation AT_PLATFORM :: u64 where "AT_PLATFORM \<equiv> 15"
abbreviation AT_RANDOM :: u64 where "AT_RANDOM \<equiv> 25"
abbreviation AT_EXECFN :: u64 where "AT_EXECFN \<equiv> 31"

text \<open>The loop over the auxiliary vector, pairs of a key and a value, up to \<open>AT_NULL\<close> or
  the end of the array.\<close>

fun relocate_auxv :: "u64 \<Rightarrow> u64 list \<Rightarrow> u64 list option" where
  "relocate_auxv delta [] = Some []"
| "relocate_auxv delta [k] =
     (if k \<in> {AT_PLATFORM, AT_RANDOM, AT_EXECFN} then None else Some [k])"
| "relocate_auxv delta (k # v # av) =
     (if k = AT_NULL then Some (k # v # av)
      else do {
        av \<leftarrow> relocate_auxv delta av;
        Some (k # (if k = AT_PLATFORM \<or> k = AT_RANDOM \<or> k = AT_EXECFN then v + delta else v) # av) })"

text \<open>The label \<open>out\<close>: unlock, then unmap what \<open>old_stack_area\<close> points to. The pointer
  is NULL when the first lookup found nothing, and is dereferenced all the same.\<close>

definition pivot_out :: "int \<Rightarrow> vm_area option \<Rightarrow> mm_struct \<Rightarrow> (int \<times> mm_struct) option" where
  "pivot_out err old mm = do {
     mm \<leftarrow> mmap_write_unlock mm;
     v \<leftarrow> old;
     Some (err, mm\<lparr>mmap := vm_munmap (vm_start v) (vm_end v - vm_start v) (mmap mm)\<rparr>) }"

definition sa_pivot_mm :: "u64 \<Rightarrow> u64 \<Rightarrow> mm_struct \<Rightarrow> (int \<times> mm_struct) option" where
  "sa_pivot_mm rsp new_stack_address mm = do {
     mm \<leftarrow> mmap_write_lock mm;
     case find_vma (mmap mm) rsp of
       None \<Rightarrow> pivot_out (- EINVAL) None mm
     | Some old \<Rightarrow>
         if vm_start old > rsp then pivot_out (- EINVAL) (Some old) mm
         else (case find_vma (mmap mm) new_stack_address of
           None \<Rightarrow> pivot_out (- EINVAL) (Some old) mm
         | Some new \<Rightarrow>
             if vm_start new > new_stack_address then pivot_out (- EINVAL) (Some old) mm
             else do {
               let delta = new_stack_address - rsp;
               av \<leftarrow> relocate_auxv delta (saved_auxv mm);
               pivot_out (- 1) (Some old) (mm\<lparr>start_stack := vm_start new,
                 arg_start := arg_start mm + delta, arg_end := arg_end mm + delta,
                 env_start := env_start mm + delta, env_end := env_end mm + delta,
                 saved_auxv := av,
                 mmap := set_growsdown new True (set_growsdown old False (mmap mm))\<rparr>) }) }"

definition sa_pivot ::
  "task \<Rightarrow> u64 \<Rightarrow> u64 \<Rightarrow> 'a kernel_scheme \<Rightarrow> (int \<times> 'a kernel_scheme) option" where
  "sa_pivot cur rsp new_stack_address s =
     (case task_mm cur of
        None \<Rightarrow> Some (- EINVAL, s)
      | Some m \<Rightarrow> with_mm m (sa_pivot_mm rsp new_stack_address) s)"

subsection \<open>The areas of a process\<close>

definition wf_areas :: "vm_area list \<Rightarrow> bool" where
  "wf_areas vs \<longleftrightarrow> (\<forall>v \<in> set vs. vm_start v < vm_end v) \<and> sorted_wrt (\<lambda>v w. vm_end v \<le> vm_start w) vs"

definition covered :: "vm_area list \<Rightarrow> u64 \<Rightarrow> bool" where
  "covered vs a \<longleftrightarrow> (\<exists>v \<in> set vs. vm_start v \<le> a \<and> a < vm_end v)"

lemma find_vma_Some: "find_vma vs a = Some v \<Longrightarrow> v \<in> set vs \<and> a < vm_end v"
  by (auto simp: find_vma_def find_Some_iff)

text \<open>In an ordered list the area that contains an address is the one \<open>find_vma\<close> returns.\<close>

lemma find_vma_covering:
  assumes "wf_areas vs" "v \<in> set vs" "vm_start v \<le> a" "a < vm_end v"
  shows "find_vma vs a = Some v"
  using assms
proof (induction vs)
  case (Cons w vs)
  show ?case
  proof (cases "w = v")
    case False
    then have "v \<in> set vs" using Cons.prems(2) by simp
    moreover from this have "\<not> a < vm_end w"
      using Cons.prems(1,3) by (auto simp: wf_areas_def)
    ultimately show ?thesis
      using Cons by (simp add: find_vma_def wf_areas_def)
  qed (use Cons.prems in \<open>simp add: find_vma_def\<close>)
qed simp

lemma wf_areas_apart:
  assumes "wf_areas vs" "v \<in> set vs" "w \<in> set vs" "v \<noteq> w"
  shows "vm_end v \<le> vm_start w \<or> vm_end w \<le> vm_start v"
  using assms by (induction vs) (auto simp: wf_areas_def)

text \<open>Unmapping exactly one area removes it and nothing else.\<close>

lemma vm_munmap_area:
  assumes "wf_areas vs" "v \<in> set vs"
  shows "vm_munmap (vm_start v) (vm_end v - vm_start v) vs = filter (\<lambda>w. w \<noteq> v) vs"
proof -
  have lt: "vm_start v < vm_end v" using assms by (simp add: wf_areas_def)
  have "(vm_end w \<le> vm_start v \<or> vm_end v \<le> vm_start w) = (w \<noteq> v)" if "w \<in> set vs" for w
    using wf_areas_apart [OF assms(1,2) that] lt by auto
  then show ?thesis
    using lt by (auto simp: vm_munmap_def intro!: filter_cong)
qed

lemma set_flag_simps [simp]:
  "vm_start (set_flag v b w) = vm_start w" "vm_end (set_flag v b w) = vm_end w"
  by (simp_all add: set_flag_def)

lemma wf_areas_growsdown: "wf_areas (set_growsdown v b vs) = wf_areas vs"
  by (simp add: wf_areas_def set_growsdown_def sorted_wrt_map)

lemma covered_growsdown: "covered (set_growsdown v b vs) a = covered vs a"
  by (simp add: covered_def set_growsdown_def)

lemma covered_munmap:
  assumes "wf_areas vs" "v \<in> set vs"
  shows "covered (vm_munmap (vm_start v) (vm_end v - vm_start v) vs) a =
    (covered vs a \<and> \<not> (vm_start v \<le> a \<and> a < vm_end v))"
proof -
  have "\<not> (vm_start v \<le> a \<and> a < vm_end v)" if "w \<in> set vs" "w \<noteq> v" "vm_start w \<le> a" "a < vm_end w" for w
    using wf_areas_apart [OF assms that(1)] that by auto
  then show ?thesis
    by (auto simp: vm_munmap_area [OF assms] covered_def)
qed

lemma relocate_auxv_even: "even (length av) \<Longrightarrow> \<exists>av'. relocate_auxv delta av = Some av' \<and> length av' = length av"
  by (induction delta av rule: relocate_auxv.induct) auto

lemma relocate_auxv_nth:
  assumes "relocate_auxv delta av = Some av'" "even i" "Suc i < length av"
    "\<forall>j \<le> i. even j \<longrightarrow> av ! j \<noteq> AT_NULL"
  shows "av' ! i = av ! i \<and>
    av' ! Suc i = (if av ! i \<in> {AT_PLATFORM, AT_RANDOM, AT_EXECFN} then av ! Suc i + delta else av ! Suc i)"
  using assms
proof (induction delta av arbitrary: av' i rule: relocate_auxv.induct)
  case (3 delta k v av)
  have k: "k \<noteq> AT_NULL" using "3.prems"(4) by (metis even_zero le0 nth_Cons_0)
  obtain aw where aw: "relocate_auxv delta av = Some aw"
    "av' = k # (if k = AT_PLATFORM \<or> k = AT_RANDOM \<or> k = AT_EXECFN then v + delta else v) # aw"
    using "3.prems"(1) k by (auto simp: bind_eq_Some_conv)
  show ?case
  proof (cases i)
    case (Suc i')
    then obtain j where j: "i = Suc (Suc j)" "even j" using "3.prems"(2) by (cases i') auto
    have "\<forall>l \<le> j. even l \<longrightarrow> av ! l \<noteq> AT_NULL"
      using "3.prems"(4) j by (metis Suc_le_mono even_Suc nth_Cons_Suc)
    then show ?thesis
      using "3.IH" [OF k aw(1) j(2)] "3.prems"(3) j aw(2) by auto
  qed (use aw(2) in auto)
qed auto

subsection \<open>Properties\<close>

lemma sa_pivot_outcome:
  assumes "\<not> mmap_locked mm" and "wf_areas (mmap mm)" and "even (length (saved_auxv mm))"
    and "old \<in> set (mmap mm)" and "vm_start old \<le> rsp" and "rsp < vm_end old"
    and "new \<in> set (mmap mm)" and "vm_start new \<le> sp" and "sp < vm_end new"
  shows "\<exists>mm'. sa_pivot_mm rsp sp mm = Some (- 1, mm') \<and> \<not> mmap_locked mm' \<and> pgd mm' = pgd mm \<and>
    start_stack mm' = vm_start new \<and>
    arg_start mm' - sp = arg_start mm - rsp \<and> arg_end mm' - sp = arg_end mm - rsp \<and>
    env_start mm' - sp = env_start mm - rsp \<and> env_end mm' - sp = env_end mm - rsp \<and>
    relocate_auxv (sp - rsp) (saved_auxv mm) = Some (saved_auxv mm') \<and>
    (\<forall>a. covered (mmap mm') a \<longleftrightarrow> covered (mmap mm) a \<and> \<not> (vm_start old \<le> a \<and> a < vm_end old)) \<and>
    (covered (mmap mm') sp \<longleftrightarrow> new \<noteq> old)"
proof -
  have f: "find_vma (mmap mm) rsp = Some old" "find_vma (mmap mm) sp = Some new"
    using assms by (auto intro: find_vma_covering)
  obtain av where av: "relocate_auxv (sp - rsp) (saved_auxv mm) = Some av"
    using relocate_auxv_even [OF assms(3)] by blast
  let ?vs = "set_growsdown new True (set_growsdown old False (mmap mm))"
  have wf: "wf_areas ?vs" using assms(2) by (simp add: wf_areas_growsdown)
  define old' where "old' = set_flag new True (set_flag old False old)"
  have old': "old' \<in> set ?vs" "vm_start old' = vm_start old" "vm_end old' = vm_end old"
    using assms(4) by (simp_all add: set_growsdown_def old'_def)
  have cov: "covered (vm_munmap (vm_start old) (vm_end old - vm_start old) ?vs) a =
      (covered (mmap mm) a \<and> \<not> (vm_start old \<le> a \<and> a < vm_end old))" for a
    using covered_munmap [OF wf old'(1), of a] old' by (simp add: covered_growsdown)
  have new: "(vm_start old \<le> sp \<and> sp < vm_end old) \<longleftrightarrow> new = old"
    using find_vma_covering [OF assms(2,4), of sp] f(2) assms(8,9) by auto
  have "covered (mmap mm) sp" using assms(7-9) by (auto simp: covered_def)
  moreover have "\<not> vm_start old > rsp" "\<not> vm_start new > sp" using assms(5,8) by auto
  ultimately show ?thesis
    using assms(1) f av cov new
    by (simp add: sa_pivot_mm_def mmap_write_lock_def pivot_out_def mmap_write_unlock_def Let_def) blast
qed

text \<open>C31: when both addresses lie in areas of the process, \<open>sa_pivot\<close> moves the four
  argument and environment pointers so that each keeps its distance to the stack pointer,
  and unmaps exactly the area of the old stack: every address outside it stays mapped. The
  new stack survives precisely if it lies in another area, and the status is -1, not 0.\<close>

theorem sa_pivot_moves:
  assumes "\<not> mmap_locked mm" and "wf_areas (mmap mm)" and "even (length (saved_auxv mm))"
    and "old \<in> set (mmap mm)" and "vm_start old \<le> rsp" and "rsp < vm_end old"
    and "new \<in> set (mmap mm)" and "vm_start new \<le> sp" and "sp < vm_end new"
  shows "\<exists>mm'. sa_pivot_mm rsp sp mm = Some (- 1, mm') \<and> \<not> mmap_locked mm' \<and> pgd mm' = pgd mm \<and>
    start_stack mm' = vm_start new \<and>
    arg_start mm' - sp = arg_start mm - rsp \<and> arg_end mm' - sp = arg_end mm - rsp \<and>
    env_start mm' - sp = env_start mm - rsp \<and> env_end mm' - sp = env_end mm - rsp \<and>
    relocate_auxv (sp - rsp) (saved_auxv mm) = Some (saved_auxv mm') \<and>
    (\<forall>a. covered (mmap mm') a \<longleftrightarrow> covered (mmap mm) a \<and> \<not> (vm_start old \<le> a \<and> a < vm_end old)) \<and>
    (covered (mmap mm') sp \<longleftrightarrow> new \<noteq> old)"
  by (rule sa_pivot_outcome [OF assms])

definition pivot_mm :: mm_struct where
  "pivot_mm = init_mm\<lparr>saved_auxv := [25, 0x8100, 0, 0], arg_start := 0x8200,
     mmap := [\<lparr>vm_start = 0x4000, vm_end = 0x6000, vm_growsdown = False\<rparr>,
              \<lparr>vm_start = 0x8000, vm_end = 0x9000, vm_growsdown = True\<rparr>]\<rparr>"

theorem sa_pivot_moves_witness:
  "\<exists>mm'. sa_pivot_mm 0x8080 0x5080 pivot_mm = Some (- 1, mm') \<and> arg_start mm' = 0x5200 \<and>
     \<not> covered (mmap mm') 0x8080 \<and> covered (mmap mm') 0x5080"
proof -
  let ?old = "\<lparr>vm_start = 0x8000, vm_end = 0x9000, vm_growsdown = True\<rparr>"
  let ?new = "\<lparr>vm_start = 0x4000, vm_end = 0x6000, vm_growsdown = False\<rparr>"
  have "\<not> mmap_locked pivot_mm" "wf_areas (mmap pivot_mm)" "even (length (saved_auxv pivot_mm))"
    "?old \<in> set (mmap pivot_mm)" "?new \<in> set (mmap pivot_mm)"
    by (simp_all add: pivot_mm_def init_mm_def wf_areas_def)
  from sa_pivot_moves [OF this(1-4) _ _ this(5), of "0x8080" "0x5080"]
  obtain mm' where "sa_pivot_mm 0x8080 0x5080 pivot_mm = Some (- 1, mm')"
    "arg_start mm' - 0x5080 = arg_start pivot_mm - 0x8080" "\<not> covered (mmap mm') 0x8080" "covered (mmap mm') 0x5080"
    by auto
  moreover from this(2) have "arg_start mm' = 0x5200"
    by (simp add: pivot_mm_def init_mm_def diff_eq_eq)
  ultimately show ?thesis by blast
qed

text \<open>C32: the failures of \<open>sa_pivot\<close>. When no area ends above \<open>rsp\<close> it dereferences
  NULL; when an area was found but one of the two addresses is not mapped, it answers
  \<open>-EINVAL\<close> and unmaps the area it found for \<open>rsp\<close> all the same.\<close>

theorem sa_pivot_error:
  assumes "\<not> mmap_locked mm" and "wf_areas (mmap mm)"
    and "\<not> covered (mmap mm) rsp \<or> \<not> covered (mmap mm) sp"
  shows "case find_vma (mmap mm) rsp of
      None \<Rightarrow> sa_pivot_mm rsp sp mm = None
    | Some old \<Rightarrow> \<exists>mm'. sa_pivot_mm rsp sp mm = Some (- EINVAL, mm') \<and>
        mmap mm' = filter (\<lambda>v. v \<noteq> old) (mmap mm) \<and> old \<in> set (mmap mm)"
proof (cases "find_vma (mmap mm) rsp")
  case None
  then show ?thesis
    using assms(1) by (simp add: sa_pivot_mm_def mmap_write_lock_def mmap_write_unlock_def pivot_out_def)
next
  case (Some old)
  have o: "old \<in> set (mmap mm)" "rsp < vm_end old" using find_vma_Some [OF Some] by auto
  have "covered (mmap mm) rsp" if "vm_start old \<le> rsp" using that o by (auto simp: covered_def)
  moreover have "covered (mmap mm) sp" if "find_vma (mmap mm) sp = Some new" "vm_start new \<le> sp" for new
    using that find_vma_Some by (auto simp: covered_def)
  ultimately show ?thesis
    using assms(1,3) Some o(1) vm_munmap_area [OF assms(2) o(1)]
    by (auto simp: sa_pivot_mm_def mmap_write_lock_def mmap_write_unlock_def pivot_out_def not_less
        split: option.splits)
qed

theorem sa_pivot_error_witness:
  "\<exists>mm'. sa_pivot_mm 0x1000 0x5080 pivot_mm = Some (- EINVAL, mm') \<and>
     mmap mm' = [\<lparr>vm_start = 0x8000, vm_end = 0x9000, vm_growsdown = True\<rparr>]"
proof -
  have "\<not> mmap_locked pivot_mm" "wf_areas (mmap pivot_mm)" "\<not> covered (mmap pivot_mm) 0x1000"
    by (simp_all add: pivot_mm_def init_mm_def wf_areas_def covered_def)
  then show ?thesis
    using sa_pivot_error [of pivot_mm "0x1000" "0x5080"]
    by (auto simp: find_vma_def pivot_mm_def init_mm_def)
qed

text \<open>\<open>sa_pivot\<close> relocates the values of \<open>AT_PLATFORM\<close>, \<open>AT_RANDOM\<close> and
  \<open>AT_EXECFN\<close> in the auxiliary vector, and no key and no other value before the
  terminator.\<close>

lemma relocate_auxv_entries:
  assumes "relocate_auxv delta av = Some av'" and "even i" and "Suc i < length av"
    and "\<forall>j \<le> i. even j \<longrightarrow> av ! j \<noteq> AT_NULL"
  shows "av' ! i = av ! i \<and>
    av' ! Suc i = (if av ! i \<in> {AT_PLATFORM, AT_RANDOM, AT_EXECFN} then av ! Suc i + delta else av ! Suc i)"
  using assms by (rule relocate_auxv_nth)

end
