(* ===== verification/Ioctl.thy ===== *)
theory Ioctl
  imports Api_Properties Stack_Pivot
begin

unbundle bit_operations_syntax

text \<open>
  The ioctl interface, \<^verbatim>\<open>lkm/core/chrdev_ioctl.c\<close> and
  \<^verbatim>\<open>lkm/include/chrdev_ioctl.h\<close>: the command numbers, their check, and the dispatch
  to the operations with the argument structures copied from and to user memory byte by byte
  in the layout of x86-64.

  User memory gives every address a byte and says whether it may be read and written;
  \<open>copy_from_user\<close> and \<open>copy_to_user\<close> fail when one byte of the range is not
  accessible, the latter after having written the accessible bytes before it. The value of
  an automatic variable that was not assigned is the parameter \<open>stale\<close>.
\<close>

record umem =
  ubyte :: "u64 \<Rightarrow> byte"
  ureadable :: "u64 \<Rightarrow> bool"
  uwritable :: "u64 \<Rightarrow> bool"

text \<open>A device as its callers see it: a command and the address of its argument.\<close>

type_synonym 'k device = "u32 \<Rightarrow> u64 \<Rightarrow> umem \<times> 'k \<Rightarrow> (int \<times> umem \<times> 'k) option"

subsection \<open>Access to user memory\<close>

definition uread :: "umem \<Rightarrow> u64 \<Rightarrow> nat \<Rightarrow> byte list" where
  "uread u a n = map (\<lambda>i. ubyte u (a + of_nat i)) [0..<n]"

definition copy_from_user :: "umem \<Rightarrow> u64 \<Rightarrow> nat \<Rightarrow> byte list option" where
  "copy_from_user u a n = (if \<forall>i \<in> {0..<n}. ureadable u (a + of_nat i) then Some (uread u a n) else None)"

fun uwrite :: "u64 \<Rightarrow> byte list \<Rightarrow> umem \<Rightarrow> umem" where
  "uwrite a [] u = u"
| "uwrite a (b # bs) u = uwrite (a + 1) bs (u\<lparr>ubyte := (ubyte u)(a := b)\<rparr>)"

text \<open>The answer is whether everything was copied.\<close>

fun copy_to_user :: "u64 \<Rightarrow> byte list \<Rightarrow> umem \<Rightarrow> bool \<times> umem" where
  "copy_to_user a [] u = (True, u)"
| "copy_to_user a (b # bs) u =
     (if uwritable u a then copy_to_user (a + 1) bs (u\<lparr>ubyte := (ubyte u)(a := b)\<rparr>)
      else (False, u))"

subsection \<open>Commands\<close>

definition IOC_DIR :: "u32 \<Rightarrow> u32" where "IOC_DIR cmd = drop_bit 30 cmd AND 3"
definition IOC_TYPE :: "u32 \<Rightarrow> u32" where "IOC_TYPE cmd = drop_bit 8 cmd AND 0xff"
definition IOC_NR :: "u32 \<Rightarrow> u32" where "IOC_NR cmd = cmd AND 0xff"

text \<open>\<open>_IOWR(type, nr, argtype)\<close> with the size of the argument type.\<close>

definition IOWR :: "u32 \<Rightarrow> u32 \<Rightarrow> u32 \<Rightarrow> u32" where
  "IOWR ty num sz = push_bit 30 3 OR push_bit 16 sz OR push_bit 8 ty OR num"

definition IOCTL_SHADOW_MAGIC :: u32 where "IOCTL_SHADOW_MAGIC = 0xca"
definition IOCTL_SHADOW_MAX_NR :: u32 where "IOCTL_SHADOW_MAX_NR = 0x74"

record ioctl_mem_params =
  mp_error :: u64
  mp_addr :: u64

record ioctl_fork_params =
  fp_error :: u64
  p_tgid :: u32
  p_pid :: u32

record ioctl_pivot_params =
  pp_error :: u64
  new_stack_address :: u64
  pp_rsp :: u64

definition IOCTL_SHADOW_REQ :: u32 where "IOCTL_SHADOW_REQ = IOWR IOCTL_SHADOW_MAGIC 0x70 16"
definition IOCTL_SHADOW_FREE :: u32 where "IOCTL_SHADOW_FREE = IOWR IOCTL_SHADOW_MAGIC 0x71 16"
definition IOCTL_SHADOW_FORK :: u32 where "IOCTL_SHADOW_FORK = IOWR IOCTL_SHADOW_MAGIC 0x72 16"
definition IOCTL_SHADOW_PIVOT :: u32 where "IOCTL_SHADOW_PIVOT = IOWR IOCTL_SHADOW_MAGIC 0x73 24"

lemmas ioctl_cmds = IOCTL_SHADOW_REQ_def IOCTL_SHADOW_FREE_def IOCTL_SHADOW_FORK_def
  IOCTL_SHADOW_PIVOT_def IOCTL_SHADOW_MAGIC_def IOWR_def

lemma ioctl_numbers:
  "IOCTL_SHADOW_REQ = 0xc010ca70" "IOCTL_SHADOW_FREE = 0xc010ca71"
  "IOCTL_SHADOW_FORK = 0xc010ca72" "IOCTL_SHADOW_PIVOT = 0xc018ca73"
  by (simp_all add: ioctl_cmds)

definition check_ioctl_cmd :: "u32 \<Rightarrow> int" where
  "check_ioctl_cmd cmd =
     (if IOC_TYPE cmd \<noteq> IOCTL_SHADOW_MAGIC then - EINVAL
      else if IOC_NR cmd > IOCTL_SHADOW_MAX_NR then - EINVAL
      else if cmd \<noteq> IOCTL_SHADOW_REQ \<and> cmd \<noteq> IOCTL_SHADOW_FREE \<and> cmd \<noteq> IOCTL_SHADOW_FORK \<and>
              cmd \<noteq> IOCTL_SHADOW_PIVOT then - ENOTTY
      else if IOC_DIR cmd AND 3 = 0 then - EINVAL
      else 0)"

subsection \<open>The argument structures\<close>

definition enc_mem :: "ioctl_mem_params \<Rightarrow> byte list" where
  "enc_mem r = to_bytes 8 (mp_error r) @ to_bytes 8 (mp_addr r)"

definition dec_mem :: "byte list \<Rightarrow> ioctl_mem_params" where
  "dec_mem bs = \<lparr>mp_error = of_bytes (take 8 bs), mp_addr = of_bytes (take 8 (drop 8 bs))\<rparr>"

definition enc_fork :: "ioctl_fork_params \<Rightarrow> byte list" where
  "enc_fork r = to_bytes 8 (fp_error r) @ to_bytes 4 (ucast (p_tgid r)) @ to_bytes 4 (ucast (p_pid r))"

definition dec_fork :: "byte list \<Rightarrow> ioctl_fork_params" where
  "dec_fork bs = \<lparr>fp_error = of_bytes (take 8 bs), p_tgid = ucast (of_bytes (take 4 (drop 8 bs))),
     p_pid = ucast (of_bytes (take 4 (drop 12 bs)))\<rparr>"

definition enc_pivot :: "ioctl_pivot_params \<Rightarrow> byte list" where
  "enc_pivot r = to_bytes 8 (pp_error r) @ to_bytes 8 (new_stack_address r) @ to_bytes 8 (pp_rsp r)"

definition dec_pivot :: "byte list \<Rightarrow> ioctl_pivot_params" where
  "dec_pivot bs = \<lparr>pp_error = of_bytes (take 8 bs), new_stack_address = of_bytes (take 8 (drop 8 bs)),
     pp_rsp = of_bytes (take 8 (drop 16 bs))\<rparr>"

lemma dec_enc [simp]:
  "dec_mem (enc_mem r) = r" "dec_fork (enc_fork f) = f" "dec_pivot (enc_pivot v) = v"
proof -
  have "ucast (of_bytes (to_bytes 4 (ucast x))) = x" for x :: u32
    by (rule bit_word_eqI) (auto simp: of_bytes_to_bytes bit_simps)
  then show "dec_mem (enc_mem r) = r" "dec_fork (enc_fork f) = f" "dec_pivot (enc_pivot v) = v"
    by (simp_all add: dec_mem_def enc_mem_def dec_fork_def enc_fork_def dec_pivot_def enc_pivot_def)
qed

subsection \<open>The dispatch\<close>

definition chrdev_ioctl ::
  "api_src \<Rightarrow> u64 \<Rightarrow> task \<Rightarrow> u32 \<Rightarrow> u64 \<Rightarrow> umem \<times> 'a kernel_scheme \<Rightarrow> (int \<times> umem \<times> 'a kernel_scheme) option" where
  "chrdev_ioctl K stale cur cmd arg = (\<lambda>(u, s).
     let err = check_ioctl_cmd cmd in
     if err \<noteq> 0 then Some (err, u, s)
     else if cmd = IOCTL_SHADOW_REQ then
       (case copy_from_user u arg 16 of
          None \<Rightarrow> Some (- EFAULT, u, s)
        | Some bs \<Rightarrow> do {
            let req = dec_mem bs;
            (e, r, s) \<leftarrow> sa_alloc K cur s;
            let req = req\<lparr>mp_error := word_of_int e, mp_addr := (case r of Some a \<Rightarrow> a | None \<Rightarrow> stale)\<rparr>;
            case copy_to_user arg (enc_mem req) u of
              (ok, u) \<Rightarrow> Some (if ok then 0 else - EFAULT, u, s) })
     else if cmd = IOCTL_SHADOW_FREE then
       (case copy_from_user u arg 16 of
          None \<Rightarrow> Some (- EFAULT, u, s)
        | Some bs \<Rightarrow> do {
            let req = dec_mem bs;
            (e, s) \<leftarrow> sa_free K cur (mp_addr req) s;
            case copy_to_user arg (enc_mem (req\<lparr>mp_error := word_of_int e\<rparr>)) u of
              (ok, u) \<Rightarrow> Some (if ok then 0 else - EFAULT, u, s) })
     else if cmd = IOCTL_SHADOW_FORK then
       (case copy_from_user u arg 16 of
          None \<Rightarrow> Some (- EFAULT, u, s)
        | Some bs \<Rightarrow> do {
            let req = dec_fork bs;
            (e, s) \<leftarrow> sa_fork K cur (sint (p_tgid req)) (sint (p_pid req)) s;
            case copy_to_user arg (enc_fork (req\<lparr>fp_error := word_of_int e\<rparr>)) u of
              (ok, u) \<Rightarrow> Some (if ok then 0 else - EFAULT, u, s) })
     else
       (case copy_from_user u arg 24 of
          None \<Rightarrow> Some (- EFAULT, u, s)
        | Some bs \<Rightarrow> do {
            let req = dec_pivot bs;
            (e, s) \<leftarrow> sa_pivot cur (pp_rsp req) (new_stack_address req) s;
            case copy_to_user arg (enc_pivot (req\<lparr>pp_error := word_of_int e\<rparr>)) u of
              (ok, u) \<Rightarrow> Some (if ok then 0 else - EFAULT, u, s) }))"

subsection \<open>What user memory holds after a copy\<close>

lemma ubyte_uwrite:
  "length bs < 2 ^ 64 \<Longrightarrow> ubyte (uwrite a bs u) x =
    (if unat (x - a) < length bs then bs ! unat (x - a) else ubyte u x)"
proof (induction bs arbitrary: a u)
  case (Cons b bs)
  let ?u = "u\<lparr>ubyte := (ubyte u)(a := b)\<rparr>"
  have IH: "ubyte (uwrite (a + 1) bs ?u) x =
      (if unat (x - (a + 1)) < length bs then bs ! unat (x - (a + 1)) else ubyte ?u x)"
    using Cons by simp
  show ?case
  proof (cases "x = a")
    case True
    then have "unat (x - (a + 1)) = 2 ^ 64 - 1" by (simp add: unsigned_minus_1_eq_mask mask_eq_exp_minus_1)
    then show ?thesis using IH True Cons.prems by simp
  next
    case False
    then have "unat (x - a) = Suc (unat (x - (a + 1)))"
      using unat_minus_one [of "x - a"] by (simp add: diff_diff_eq unat_gt_0)
    then show ?thesis using IH False by simp
  qed
qed simp

lemma uread_uwrite:
  assumes "length bs < 2 ^ 64"
  shows "uread (uwrite a bs u) a (length bs) = bs"
proof (rule nth_equalityI)
  fix i
  assume "i < length (uread (uwrite a bs u) a (length bs))"
  then have i: "i < length bs" by (simp add: uread_def)
  then have "unat (of_nat i :: u64) = i"
    using assms by (simp add: unat_of_nat take_bit_nat_eq_self)
  then show "uread (uwrite a bs u) a (length bs) ! i = bs ! i"
    using i assms by (simp add: uread_def ubyte_uwrite)
qed (simp add: uread_def)

lemma uwrite_perm [simp]: "uwritable (uwrite a bs u) = uwritable u" "ureadable (uwrite a bs u) = ureadable u"
  by (induction bs arbitrary: a u) auto

lemma copy_to_user_ok:
  "\<forall>i < length bs. uwritable u (a + of_nat i) \<Longrightarrow> copy_to_user a bs u = (True, uwrite a bs u)"
proof (induction bs arbitrary: a u)
  case (Cons b bs)
  have "uwritable u a" using Cons.prems [rule_format, of 0] by simp
  moreover have "\<forall>i < length bs. uwritable u (a + 1 + of_nat i)"
  proof (intro allI impI)
    fix i
    assume "i < length bs"
    then show "uwritable u (a + 1 + of_nat i)"
      using Cons.prems [rule_format, of "Suc i"] by (simp add: add.assoc)
  qed
  ultimately show ?case using Cons.IH [of "u\<lparr>ubyte := (ubyte u)(a := b)\<rparr>" "a + 1"] by simp
qed simp

definition uaccess :: "umem \<Rightarrow> u64 \<Rightarrow> nat \<Rightarrow> bool" where
  "uaccess u a n \<longleftrightarrow> (\<forall>i < n. ureadable u (a + of_nat i) \<and> uwritable u (a + of_nat i))"

lemma uaccess_copy:
  assumes "uaccess u a n"
  shows "copy_from_user u a n = Some (uread u a n)"
    "length bs = n \<Longrightarrow> copy_to_user a bs u = (True, uwrite a bs u)"
  using assms by (auto simp: uaccess_def copy_from_user_def intro: copy_to_user_ok)

lemma length_enc [simp]: "length (enc_mem r) = 16" "length (enc_fork f) = 16" "length (enc_pivot v) = 24"
  by (simp_all add: enc_mem_def enc_fork_def enc_pivot_def)

lemma check_cmds [simp]:
  "check_ioctl_cmd IOCTL_SHADOW_REQ = 0" "check_ioctl_cmd IOCTL_SHADOW_FREE = 0"
  "check_ioctl_cmd IOCTL_SHADOW_FORK = 0" "check_ioctl_cmd IOCTL_SHADOW_PIVOT = 0"
  by (simp_all add: check_ioctl_cmd_def IOC_TYPE_def IOC_NR_def IOC_DIR_def ioctl_numbers
      IOCTL_SHADOW_MAGIC_def IOCTL_SHADOW_MAX_NR_def)

lemma cmds_distinct [simp]:
  "IOCTL_SHADOW_FREE \<noteq> IOCTL_SHADOW_REQ" "IOCTL_SHADOW_FORK \<noteq> IOCTL_SHADOW_REQ"
  "IOCTL_SHADOW_FORK \<noteq> IOCTL_SHADOW_FREE" "IOCTL_SHADOW_PIVOT \<noteq> IOCTL_SHADOW_REQ"
  "IOCTL_SHADOW_PIVOT \<noteq> IOCTL_SHADOW_FREE" "IOCTL_SHADOW_PIVOT \<noteq> IOCTL_SHADOW_FORK"
  by (simp_all add: ioctl_numbers)

lemma check_ioctl_cmd_zero:
  "check_ioctl_cmd cmd = 0 \<Longrightarrow>
    cmd \<in> {IOCTL_SHADOW_REQ, IOCTL_SHADOW_FREE, IOCTL_SHADOW_FORK, IOCTL_SHADOW_PIVOT}"
  by (auto simp: check_ioctl_cmd_def split: if_splits)

subsection \<open>The invariant at the ioctl boundary\<close>

lemma api_inv_mm:
  assumes inv: "api_inv l5 s" and mm: "mms s m = Some mm" "pgd mm' = pgd mm" "\<not> mmap_locked mm'"
  shows "api_inv l5 (s\<lparr>mms := (mms s)(m \<mapsto> mm')\<rparr>)" (is "api_inv l5 ?s")
proof (rule api_invI)
  show "alloc_ok l5 ?s p a" if "allocs ?s p = Some a" for p a
  proof (rule alloc_ok_kept)
    show "alloc_ok l5 s p a" using api_invD(3) [OF inv] that by simp
    then show "held ?s (pagelist t)" if "threads a n = Some (Some t)" for n t
      using that by (auto simp: alloc_ok_def thread_ok_def)
    show "\<exists>mm'. mms ?s k = Some mm' \<and> (\<forall>n t. threads a n = Some (Some t) \<longrightarrow> unat n \<le> 0x220000 \<longrightarrow>
        stack_mapped l5 (pgd mk) n (pagelist t) \<longrightarrow> stack_mapped l5 (pgd mm') n (pagelist t))"
      if "mms s k = Some mk" for k mk
      using that mm by (cases "k = m") auto
  qed simp
  have lv: "live ?s = live s" by (simp add: live_def fun_eq_iff)
  show "set (frames (pagelist t)) \<inter> set (frames (pagelist u)) = {}"
    if "live ?s i t" "live ?s j u" "i \<noteq> j" for i j t u
    using that api_invD(6) [OF inv] by (simp add: lv)
  show "mm_ok l5 mk" if "mms ?s k = Some mk" for k mk
    using that mm api_invD(2) [OF inv] api_invD(2) [OF inv mm(1)] by (auto simp: mm_ok_def split: if_splits)
  show "p = q" if "allocs ?s p = Some a" "allocs ?s q = Some b" "alloc_mm a = alloc_mm b" for p q a b
    using that api_invD(5) [OF inv] by simp
qed (use api_invD(1,4) [OF inv] in auto)

text \<open>What keeps \<open>sa_pivot\<close> defined: an area at or above the old stack pointer, and an
  auxiliary vector of pairs.\<close>

definition pivot_defined :: "mm_struct \<Rightarrow> u64 \<Rightarrow> bool" where
  "pivot_defined mm rsp \<longleftrightarrow> find_vma (mmap mm) rsp \<noteq> None \<and> even (length (saved_auxv mm))"

lemma sa_pivot_mm_defined:
  assumes "\<not> mmap_locked mm" "pivot_defined mm rsp"
  shows "\<exists>err mm'. sa_pivot_mm rsp sp mm = Some (err, mm') \<and> pgd mm' = pgd mm \<and> \<not> mmap_locked mm'"
proof -
  obtain av where "relocate_auxv (sp - rsp) (saved_auxv mm) = Some av"
    using relocate_auxv_even assms(2) by (auto simp: pivot_defined_def)
  then show ?thesis
    using assms
    by (auto simp: sa_pivot_mm_def mmap_write_lock_def mmap_write_unlock_def pivot_out_def pivot_defined_def
        Let_def split: option.splits)
qed

lemma sa_pivot_inv:
  assumes inv: "api_inv l5 s" and cur: "caller_ok cur s"
    and d: "\<And>m mm. task_mm cur = Some m \<Longrightarrow> mms s m = Some mm \<Longrightarrow> pivot_defined mm rsp"
  shows "\<exists>err s'. sa_pivot cur rsp sp s = Some (err, s') \<and> api_inv l5 s'"
proof (cases "task_mm cur")
  case (Some m)
  then obtain mm where mm: "mms s m = Some mm" using cur by (auto simp: caller_ok_def)
  then have "\<not> mmap_locked mm" using api_invD(2) [OF inv] by (simp add: mm_ok_def)
  from sa_pivot_mm_defined [OF this d [OF Some mm], of sp]
  obtain err mm' where m: "sa_pivot_mm rsp sp mm = Some (err, mm')" "pgd mm' = pgd mm" "\<not> mmap_locked mm'" by blast
  have "sa_pivot cur rsp sp s = Some (err, s\<lparr>mms := (mms s)(m \<mapsto> mm')\<rparr>)"
    using Some mm m(1) by (simp add: sa_pivot_def with_mm_def)
  then show ?thesis
    using api_inv_mm [OF inv mm m(2,3)] by blast
qed (use inv in \<open>simp add: sa_pivot_def\<close>)

record ioctl_call =
  caller :: task
  ic_cmd :: u32
  ic_arg :: u64
  ic_stale :: u64

definition ioctl_enabled :: "ioctl_call \<Rightarrow> umem \<times> 'a kernel_scheme \<Rightarrow> bool" where
  "ioctl_enabled c = (\<lambda>(u, s). caller_ok (caller c) s \<and>
     (ic_cmd c = IOCTL_SHADOW_PIVOT \<longrightarrow> (\<forall>m mm. task_mm (caller c) = Some m \<longrightarrow> mms s m = Some mm \<longrightarrow>
        pivot_defined mm (pp_rsp (dec_pivot (uread u (ic_arg c) 24))))))"

definition ioctl_step ::
  "api_src \<Rightarrow> ioctl_call \<Rightarrow> umem \<times> 'a kernel_scheme \<Rightarrow> (int \<times> umem \<times> 'a kernel_scheme) option" where
  "ioctl_step K c = chrdev_ioctl K (ic_stale c) (caller c) (ic_cmd c) (ic_arg c)"

lemmas ioctl_defs = ioctl_step_def chrdev_ioctl_def Let_def

lemma chrdev_ioctl_inv:
  assumes K: "api_src_ok K" and inv: "api_inv (five_level K) s" and en: "ioctl_enabled c (u, s)"
  shows "\<exists>err u' s'. ioctl_step K c (u, s) = Some (err, u', s') \<and> api_inv (five_level K) s'"
proof (cases "check_ioctl_cmd (ic_cmd c) = 0")
  case False
  then show ?thesis using inv by (simp add: ioctl_step_def chrdev_ioctl_def)
next
  case True
  have cur: "caller_ok (caller c) s" using en by (simp add: ioctl_enabled_def)
  consider (req) "ic_cmd c = IOCTL_SHADOW_REQ" | (free) "ic_cmd c = IOCTL_SHADOW_FREE"
    | (fork) "ic_cmd c = IOCTL_SHADOW_FORK" | (pivot) "ic_cmd c = IOCTL_SHADOW_PIVOT"
    using check_ioctl_cmd_zero [OF True] by blast
  then show ?thesis
  proof cases
    case req
    obtain e r s' where "sa_alloc K (caller c) s = Some (e, r, s')" "api_inv (five_level K) s'"
      using sa_alloc_inv [OF K inv cur] by blast
    then show ?thesis
      using req inv by (simp add: ioctl_defs split: option.split prod.split)
  next
    case free
    obtain e s' where "sa_free K (caller c) (mp_addr (dec_mem (uread u (ic_arg c) 16))) s = Some (e, s')"
      "api_inv (five_level K) s'"
      using sa_free_inv [OF inv cur] by blast
    then show ?thesis
      using free inv by (simp add: ioctl_defs copy_from_user_def split: prod.split)
  next
    case fork
    let ?f = "dec_fork (uread u (ic_arg c) 16)"
    obtain e s' where "sa_fork K (caller c) (sint (p_tgid ?f)) (sint (p_pid ?f)) s = Some (e, s')"
      "api_inv (five_level K) s'"
      using sa_fork_inv [OF K inv cur] by blast
    then show ?thesis
      using fork inv by (simp add: ioctl_defs copy_from_user_def split: prod.split)
  next
    case pivot
    let ?v = "dec_pivot (uread u (ic_arg c) 24)"
    obtain e s' where "sa_pivot (caller c) (pp_rsp ?v) (new_stack_address ?v) s = Some (e, s')"
      "api_inv (five_level K) s'"
      using sa_pivot_inv [OF inv cur] en pivot unfolding ioctl_enabled_def by blast
    then show ?thesis
      using pivot inv by (simp add: ioctl_defs copy_from_user_def split: prod.split)
  qed
qed

interpretation ioctl: safe_system "\<lambda>(u, s). api_src_ok K \<and> api_inv (five_level K) s" ioctl_enabled "ioctl_step K" for K
proof (unfold_locales, goal_cases)
  case (1 us c)
  then show ?case
    using chrdev_ioctl_inv [of K "snd us" c "fst us"] by (cases us) auto
qed

subsection \<open>Properties\<close>

text \<open>The command check accepts exactly the four commands of the header, and tells a
  foreign command (\<open>-EINVAL\<close>: other magic, or number above the range) from an unknown
  one of the module's own magic (\<open>-ENOTTY\<close>).\<close>

lemma check_ioctl_cmd_correct:
  "check_ioctl_cmd cmd =
    (if cmd \<in> {0xc010ca70, 0xc010ca71, 0xc010ca72, 0xc018ca73} then 0
     else if IOC_TYPE cmd = 0xca \<and> IOC_NR cmd \<le> 0x74 then - ENOTTY
     else - EINVAL)"
proof (cases "cmd \<in> {0xc010ca70, 0xc010ca71, 0xc010ca72, 0xc018ca73}")
  case True
  then show ?thesis using check_cmds by (auto simp: ioctl_numbers)
next
  case False
  then show ?thesis
    by (auto simp: check_ioctl_cmd_def ioctl_numbers IOCTL_SHADOW_MAGIC_def IOCTL_SHADOW_MAX_NR_def)
qed

text \<open>C22: whatever commands, arguments and user memory any sequence of ioctl calls has, the
  module keeps its invariant and no call meets undefined behaviour, except
  \<open>IOCTL_SHADOW_PIVOT\<close> with an \<open>rsp\<close> above every area of the process.\<close>

theorem ioctls_safe:
  assumes "api_src_ok K" and "api_inv (five_level K) s0" and "reach ioctl_enabled (ioctl_step K) (u0, s0) (u, s)"
  shows "api_inv (five_level K) s \<and>
    (\<forall>c. ioctl_enabled c (u, s) \<longrightarrow> (\<exists>err us. ioctl_step K c (u, s) = Some (err, us)))"
  using ioctl.reach_inv [OF assms(3)] ioctl.reach_progress [OF assms(3)] assms(1,2) by auto

definition demo_umem :: umem where
  "demo_umem = \<lparr>ubyte = (\<lambda>_. 0), ureadable = (\<lambda>a. unat a < 4096), uwritable = (\<lambda>a. unat a < 4096)\<rparr>"

lemma uaccess_demo: "uaccess demo_umem 0x100 16"
proof -
  have "unat (0x100 + of_nat i :: u64) < 4096" if "i < 16" for i
    using that by (simp add: unat_word_ariths unat_of_nat take_bit_nat_eq_self)
  then show ?thesis by (simp add: uaccess_def demo_umem_def)
qed

definition demo_call :: ioctl_call where
  "demo_call = \<lparr>caller = demo_task, ic_cmd = IOCTL_SHADOW_REQ, ic_arg = 0x100, ic_stale = 0\<rparr>"

lemma ioctl_enabled_demo: "ioctl_enabled demo_call (demo_umem, busy_kernel)"
  using caller_busy
  by (simp add: ioctl_enabled_def demo_call_def ioctl_cmds)

theorem ioctls_safe_witness:
  "api_inv False busy_kernel \<and>
    (\<exists>err us. ioctl_step demo_src demo_call (demo_umem, busy_kernel) = Some (err, us))"
  using ioctls_safe [OF api_src_ok_demo _ reach_start, of busy_kernel demo_umem] api_inv_busy ioctl_enabled_demo
  by (simp add: demo_simps)

text \<open>C29: a stack request whose argument is accessible answers 0 and leaves in the
  argument, in the layout of the header, the status of \<open>sa_alloc\<close> and the address it
  stored; no byte outside the structure changes.\<close>

theorem ioctl_request_delivers:
  assumes "uaccess u arg 16" and "sa_alloc K cur s = Some (err, Some addr, s')"
  shows "\<exists>u'. chrdev_ioctl K stale cur IOCTL_SHADOW_REQ arg (u, s) = Some (0, u', s') \<and>
    dec_mem (uread u' arg 16) = \<lparr>mp_error = word_of_int err, mp_addr = addr\<rparr> \<and>
    (\<forall>x. unat (x - arg) \<ge> 16 \<longrightarrow> ubyte u' x = ubyte u x)"
proof -
  let ?bs = "enc_mem \<lparr>mp_error = word_of_int err, mp_addr = addr\<rparr>"
  have "chrdev_ioctl K stale cur IOCTL_SHADOW_REQ arg (u, s) = Some (0, uwrite arg ?bs u, s')"
    using assms(2) uaccess_copy [OF assms(1)] by (simp add: chrdev_ioctl_def Let_def dec_mem_def)
  moreover have "dec_mem (uread (uwrite arg ?bs u) arg 16) = \<lparr>mp_error = word_of_int err, mp_addr = addr\<rparr>"
    using uread_uwrite [of ?bs arg u] by simp
  ultimately show ?thesis
    by (auto simp: ubyte_uwrite)
qed

theorem ioctl_request_delivers_witness:
  "\<exists>u' s'. chrdev_ioctl demo_src 0 demo_task IOCTL_SHADOW_REQ 0x100 (demo_umem, parked_kernel) = Some (0, u', s') \<and>
    dec_mem (uread u' 0x100 16) = \<lparr>mp_error = word_of_int 0, mp_addr = id_to_addr 2\<rparr>"
proof -
  obtain s' where s': "sa_alloc demo_src demo_task parked_kernel = Some (0, Some (id_to_addr 2), s')"
    using sa_alloc_parked by blast
  from ioctl_request_delivers [OF uaccess_demo s'] show ?thesis by blast
qed

text \<open>C30: a stack request that fails before a slot is chosen (here: no allocator) answers 0
  and hands the caller the indeterminate content of the kernel's variable \<open>addr\<close>.\<close>

theorem ioctl_request_leaks:
  assumes "uaccess u arg 16" and "task_mm cur = Some m" and "sa_allocators s (task_tgid cur) = None"
  shows "\<exists>u'. chrdev_ioctl K stale cur IOCTL_SHADOW_REQ arg (u, s) = Some (0, u', s) \<and>
    dec_mem (uread u' arg 16) = \<lparr>mp_error = word_of_int (- ENOMEM), mp_addr = stale\<rparr>"
proof -
  let ?bs = "enc_mem \<lparr>mp_error = word_of_int (- ENOMEM), mp_addr = stale\<rparr>"
  have "sa_alloc K cur s = Some (- ENOMEM, None, s)"
    using assms(2,3) by (simp add: sa_alloc_def alloc_get_none)
  then have "chrdev_ioctl K stale cur IOCTL_SHADOW_REQ arg (u, s) = Some (0, uwrite arg ?bs u, s)"
    using uaccess_copy [OF assms(1)] by (simp add: chrdev_ioctl_def Let_def dec_mem_def)
  then show ?thesis
    using uread_uwrite [of ?bs arg u] by auto
qed

theorem ioctl_request_leaks_witness:
  "\<exists>u'. chrdev_ioctl demo_src 0xdeadbeef demo_task IOCTL_SHADOW_REQ 0x100 (demo_umem, boot_kernel) =
      Some (0, u', boot_kernel) \<and>
    dec_mem (uread u' 0x100 16) = \<lparr>mp_error = word_of_int (- ENOMEM), mp_addr = 0xdeadbeef\<rparr>"
proof (rule ioctl_request_leaks [OF uaccess_demo])
  show "task_mm demo_task = Some 7" by (simp add: demo_task_def)
  show "sa_allocators boot_kernel (task_tgid demo_task) = None" by (simp add: boot_kernel_def)
qed

text \<open>A request whose argument cannot be read is refused with \<open>-EFAULT\<close> before any
  state changes; a foreign or unknown command is refused without touching the argument.\<close>

lemma ioctl_refused:
  assumes "check_ioctl_cmd cmd \<noteq> 0 \<or> \<not> ureadable u arg"
  shows "chrdev_ioctl K stale cur cmd arg (u, s) =
    Some (if check_ioctl_cmd cmd \<noteq> 0 then check_ioctl_cmd cmd else - EFAULT, u, s)"
proof -
  have "copy_from_user u arg n = None" if "n > 0" "\<not> ureadable u arg" for n
    using that by (auto simp: copy_from_user_def intro!: bexI [of _ 0])
  then show ?thesis
    using assms by (simp add: chrdev_ioctl_def Let_def)
qed

end
