(* ===== verification/Runtime_Pool.thy ===== *)
theory Runtime_Pool
  imports SS_Prelude
begin

text \<open>
  The user-space pool of shadow stacks: \<^verbatim>\<open>runtime/allocator.c\<close>,
  \<^verbatim>\<open>runtime/allocator.h\<close>. The static variables of the file are the record \<open>pool\<close>;
  the fields \<open>next\<close> and \<open>top\<close> of the chunks are two maps from addresses, so the free
  list is the linked structure the code builds. Pointers are 64-bit words and \<open>NULL\<close> is 0;
  writing a chunk header outside the mapped pool is undefined.

  The functions are split at their atomic points (the unlocked look at the free list, the two
  critical sections of the mutex, the atomic addition), and the second half of the theory lets
  any number of threads interleave them. The first half relates the functions, run by one
  thread, to an abstract pool of chunk numbers.
\<close>

record pool =
  mem_pool :: u64
  freelist :: u64
  chunk_size :: u64
  freearea_start :: u64
  freearea_end :: u64
  ch_next :: "u64 \<Rightarrow> u64"
  ch_top :: "u64 \<Rightarrow> u64"

subsection \<open>The operations\<close>

text \<open>\<open>mm adr len\<close> is the answer of \<open>mmap\<close>, \<open>None\<close> for \<open>MAP_FAILED\<close>.\<close>

definition MemPoolInit ::
  "(u64 \<Rightarrow> u64 \<Rightarrow> u64 option) \<Rightarrow> u64 \<Rightarrow> u64 \<Rightarrow> u64 \<Rightarrow> 'a pool_scheme \<Rightarrow> int \<times> 'a pool_scheme" where
  "MemPoolInit mm adr ch_size pl_size p =
     (case mm adr pl_size of
        None \<Rightarrow> (- 1, p\<lparr>mem_pool := - 1\<rparr>)
      | Some m \<Rightarrow> (0, p\<lparr>mem_pool := m, freelist := 0, chunk_size := ch_size,
                        freearea_start := m, freearea_end := m + pl_size\<rparr>))"

text \<open>The header of a chunk is two words; \<open>data\<close> follows it.\<close>

definition in_pool :: "'a pool_scheme \<Rightarrow> u64 \<Rightarrow> bool" where
  "in_pool p c \<longleftrightarrow> mem_pool p \<le> c \<and> unat c + 16 \<le> unat (freearea_end p)"

definition init_chunk :: "u64 \<Rightarrow> 'a pool_scheme \<Rightarrow> 'a pool_scheme option" where
  "init_chunk c p = do {
     ensure (in_pool p c);
     Some (p\<lparr>ch_next := (ch_next p)(c := 0), ch_top := (ch_top p)(c := c + 16)\<rparr>) }"

definition alloc_chunk :: "u64 \<Rightarrow> 'a pool_scheme \<Rightarrow> (u64 \<times> 'a pool_scheme) option" where
  "alloc_chunk lo p =
     (if lo + chunk_size p \<ge> freearea_end p then Some (0, p)
      else do { p \<leftarrow> init_chunk lo p; Some (lo, p) })"

text \<open>The critical section of \<open>recycle_chunk\<close>; the answer is 0 when the list is empty.\<close>

definition recycle_locked :: "'a pool_scheme \<Rightarrow> (u64 \<times> 'a pool_scheme) option" where
  "recycle_locked p =
     (if freelist p \<noteq> 0 then do {
        ensure (in_pool p (freelist p));
        let c = freelist p;
        p \<leftarrow> init_chunk c (p\<lparr>freelist := ch_next p c\<rparr>);
        Some (c, p) }
      else Some (0, p))"

definition recycle_chunk :: "'a pool_scheme \<Rightarrow> (u64 \<times> 'a pool_scheme) option" where
  "recycle_chunk p = (if freelist p \<noteq> 0 then recycle_locked p else Some (0, p))"

definition fetch_add :: "'a pool_scheme \<Rightarrow> u64 \<times> 'a pool_scheme" where
  "fetch_add p = (freearea_start p, p\<lparr>freearea_start := freearea_start p + chunk_size p\<rparr>)"

definition MemPoolAlloc :: "'a pool_scheme \<Rightarrow> (u64 \<times> 'a pool_scheme) option" where
  "MemPoolAlloc p = do {
     (c, p) \<leftarrow> recycle_chunk p;
     if c \<noteq> 0 then Some (c, p)
     else let (lo, p) = fetch_add p in alloc_chunk lo p }"

definition MemPoolRelease :: "u64 \<Rightarrow> 'a pool_scheme \<Rightarrow> 'a pool_scheme option" where
  "MemPoolRelease c p = do {
     ensure (in_pool p c);
     Some (p\<lparr>ch_next := (ch_next p)(c := freelist p), freelist := c\<rparr>) }"

subsection \<open>The abstract pool\<close>

text \<open>A stack of free chunk numbers and the count of numbers handed out so far; \<open>cap\<close> is
  the number of chunks the pool yields.\<close>

record apool =
  afree :: "nat list"
  anext :: nat

fun a_alloc :: "nat \<Rightarrow> apool \<Rightarrow> nat option \<times> apool" where
  "a_alloc cap a = (case afree a of
      i # is \<Rightarrow> (Some i, a\<lparr>afree := is\<rparr>)
    | [] \<Rightarrow> (if anext a < cap then Some (anext a) else None, a\<lparr>anext := Suc (anext a)\<rparr>))"

fun a_release :: "nat \<Rightarrow> apool \<Rightarrow> apool" where
  "a_release i a = a\<lparr>afree := i # afree a\<rparr>"

text \<open>The address of a chunk, the number of chunks whose end lies strictly below the end of the
  pool, and the linked list from an address.\<close>

definition chunk_at :: "'a pool_scheme \<Rightarrow> nat \<Rightarrow> u64" where
  "chunk_at p i = mem_pool p + of_nat i * chunk_size p"

definition pool_len :: "'a pool_scheme \<Rightarrow> nat" where
  "pool_len p = unat (freearea_end p) - unat (mem_pool p)"

definition pool_cap :: "'a pool_scheme \<Rightarrow> nat" where
  "pool_cap p = (pool_len p - 1) div unat (chunk_size p)"

fun linked :: "(u64 \<Rightarrow> u64) \<Rightarrow> u64 \<Rightarrow> u64 list \<Rightarrow> bool" where
  "linked nxt c [] \<longleftrightarrow> c = 0"
| "linked nxt c (d # ds) \<longleftrightarrow> c = d \<and> c \<noteq> 0 \<and> linked nxt (nxt c) ds"

text \<open>The geometry of an initialised pool after \<open>k\<close> increments of its bump pointer.\<close>

definition geometry :: "'a pool_scheme \<Rightarrow> nat \<Rightarrow> bool" where
  "geometry p k \<longleftrightarrow> mem_pool p \<noteq> 0 \<and> mem_pool p < freearea_end p \<and> 16 \<le> chunk_size p \<and>
     unat (mem_pool p) + k * unat (chunk_size p) < 2 ^ 64 \<and> freearea_start p = chunk_at p k"

definition pool_rel :: "'a pool_scheme \<Rightarrow> apool \<Rightarrow> bool" where
  "pool_rel p a \<longleftrightarrow> geometry p (anext a) \<and> distinct (afree a) \<and>
     (\<forall>i \<in> set (afree a). i < anext a \<and> i < pool_cap p) \<and>
     linked (ch_next p) (freelist p) (map (chunk_at p) (afree a))"

lemma unat_chunk_at:
  assumes "unat (mem_pool p) + i * unat (chunk_size p) < 2 ^ 64"
  shows "unat (chunk_at p i) = unat (mem_pool p) + i * unat (chunk_size p)"
proof -
  have eq: "chunk_at p i = of_nat (unat (mem_pool p) + i * unat (chunk_size p))"
    by (simp add: chunk_at_def)
  show ?thesis
    unfolding eq unat_of_nat using assms by (simp add: take_bit_nat_eq_self)
qed

lemma pool_cap_iff:
  assumes "geometry p k"
  shows "i < pool_cap p \<longleftrightarrow> unat (mem_pool p) + Suc i * unat (chunk_size p) < unat (freearea_end p)"
proof -
  have ch: "0 < unat (chunk_size p)" and lt: "unat (mem_pool p) < unat (freearea_end p)"
    using assms by (auto simp: geometry_def word_le_nat_alt word_less_nat_alt)
  have "i < pool_cap p \<longleftrightarrow> Suc i * unat (chunk_size p) \<le> pool_len p - 1"
    unfolding pool_cap_def using less_eq_div_iff_mult_less_eq [OF ch, of "Suc i"] by (simp add: Suc_le_eq)
  with lt show ?thesis by (auto simp: pool_len_def)
qed

lemma geometry_chunk:
  assumes "geometry p k" "i < k \<or> i < pool_cap p"
  shows "unat (chunk_at p i) = unat (mem_pool p) + i * unat (chunk_size p)" "mem_pool p \<le> chunk_at p i" "chunk_at p i \<noteq> 0"
proof -
  have "unat (mem_pool p) + i * unat (chunk_size p) < 2 ^ 64"
  proof (cases "i < k")
    case True
    then have "i * unat (chunk_size p) \<le> k * unat (chunk_size p)" by (intro mult_le_mono1) simp
    with assms(1) show ?thesis unfolding geometry_def by linarith
  next
    case False
    with assms have "unat (mem_pool p) + Suc i * unat (chunk_size p) < unat (freearea_end p)"
      by (simp add: pool_cap_iff)
    then show ?thesis using u64_bound [of "freearea_end p"] by simp
  qed
  then show u: "unat (chunk_at p i) = unat (mem_pool p) + i * unat (chunk_size p)"
    by (rule unat_chunk_at)
  show "mem_pool p \<le> chunk_at p i" by (simp add: word_le_nat_alt u)
  have "0 < unat (mem_pool p)" using assms(1) by (simp add: geometry_def unat_gt_0)
  then show "chunk_at p i \<noteq> 0" using u by (metis add_gr_0 less_irrefl unat_0)
qed

text \<open>Chunks of different numbers do not overlap.\<close>

lemma chunks_apart:
  assumes "geometry p k" "i < k \<or> i < pool_cap p" "j < k \<or> j < pool_cap p" "i < j"
  shows "unat (chunk_at p i) + unat (chunk_size p) \<le> unat (chunk_at p j)"
proof -
  have "Suc i * unat (chunk_size p) \<le> j * unat (chunk_size p)"
    using assms(4) by (intro mult_le_mono1) simp
  then show ?thesis
    using geometry_chunk(1) [OF assms(1,2)] geometry_chunk(1) [OF assms(1,3)] by simp
qed

lemma chunk_at_inj:
  assumes "geometry p k" "i < k \<or> i < pool_cap p" "j < k \<or> j < pool_cap p"
  shows "chunk_at p i = chunk_at p j \<longleftrightarrow> i = j"
proof -
  have "16 \<le> unat (chunk_size p)"
    using assms(1) by (simp add: geometry_def word_le_nat_alt)
  with chunks_apart [OF assms] chunks_apart [OF assms(1,3,2)] show ?thesis
    by (cases i j rule: linorder_cases) force+
qed

lemma in_pool_chunk:
  assumes "geometry p k" "i < pool_cap p"
  shows "in_pool p (chunk_at p i)"
proof -
  have "16 \<le> unat (chunk_size p)"
    using assms(1) by (simp add: geometry_def word_le_nat_alt)
  then show ?thesis
    using assms(2) geometry_chunk [OF assms(1)] unfolding pool_cap_iff [OF assms(1)]
    by (simp add: in_pool_def pool_cap_iff [OF assms(1)])
qed

lemma linked_upd [simp]: "c \<notin> set cs \<Longrightarrow> linked (nxt(c := v)) d cs = linked nxt d cs"
  by (induction cs arbitrary: d) auto

text \<open>The pool parameters are left alone by every operation.\<close>

definition same_area :: "'a pool_scheme \<Rightarrow> 'a pool_scheme \<Rightarrow> bool" where
  "same_area p p' \<longleftrightarrow> mem_pool p' = mem_pool p \<and> chunk_size p' = chunk_size p \<and> freearea_end p' = freearea_end p"

lemma same_area_facts:
  assumes "same_area p p'"
  shows "chunk_at p' i = chunk_at p i" "pool_cap p' = pool_cap p" "in_pool p' c = in_pool p c"
    "freearea_start p' = freearea_start p \<Longrightarrow> geometry p' k = geometry p k"
  using assms by (simp_all add: same_area_def pool_cap_def pool_len_def in_pool_def geometry_def chunk_at_def)

lemma geometry_bump:
  assumes "geometry p k" "unat (freearea_start p) + unat (chunk_size p) < 2 ^ 64"
  shows "geometry (p\<lparr>freearea_start := freearea_start p + chunk_size p\<rparr>) (Suc k)"
    "freearea_start p + chunk_size p \<ge> freearea_end p \<longleftrightarrow> \<not> k < pool_cap p"
proof -
  have u: "unat (chunk_at p k) = unat (mem_pool p) + k * unat (chunk_size p)"
    using assms(1) by (intro unat_chunk_at) (simp add: geometry_def)
  have s: "freearea_start p = chunk_at p k" using assms(1) by (simp add: geometry_def)
  have "chunk_at p k + chunk_size p = chunk_at p (Suc k)"
    by (simp add: chunk_at_def algebra_simps)
  moreover have "chunk_at (p\<lparr>freearea_start := x\<rparr>) = chunk_at p" for x
    by (simp add: chunk_at_def fun_eq_iff)
  ultimately show "geometry (p\<lparr>freearea_start := freearea_start p + chunk_size p\<rparr>) (Suc k)"
    using assms(1,2) u s by (simp add: geometry_def)
  have "unat (freearea_start p + chunk_size p) = unat (mem_pool p) + Suc k * unat (chunk_size p)"
    using assms(2) u s by (simp add: unat_word_ariths)
  then show "freearea_start p + chunk_size p \<ge> freearea_end p \<longleftrightarrow> \<not> k < pool_cap p"
    unfolding pool_cap_iff [OF assms(1)] by (simp add: word_le_nat_alt not_less)
qed

subsection \<open>One thread at a time: the pool refines the abstract pool\<close>

lemma MemPoolAlloc_refines:
  assumes rel: "pool_rel p a" and room: "unat (freearea_start p) + unat (chunk_size p) < 2 ^ 64"
  shows "\<exists>c p'. MemPoolAlloc p = Some (c, p') \<and> same_area p p' \<and>
    pool_rel p' (snd (a_alloc (pool_cap p) a)) \<and>
    c = (case fst (a_alloc (pool_cap p) a) of Some i \<Rightarrow> chunk_at p i | None \<Rightarrow> 0)"
proof -
  have geo: "geometry p (anext a)" using rel by (simp add: pool_rel_def)
  show ?thesis
  proof (cases "afree a")
    case Nil
    then have f0: "freelist p = 0" using rel by (simp add: pool_rel_def)
    let ?p = "p\<lparr>freearea_start := freearea_start p + chunk_size p\<rparr>"
    note bump = geometry_bump [OF geo room]
    have area: "same_area p ?p" by (simp add: same_area_def)
    have start: "freearea_start p = chunk_at p (anext a)" using geo by (simp add: geometry_def)
    show ?thesis
    proof (cases "anext a < pool_cap p")
      case True
      let ?q = "?p\<lparr>ch_next := (ch_next p)(freearea_start p := 0),
        ch_top := (ch_top p)(freearea_start p := freearea_start p + 16)\<rparr>"
      have "in_pool ?p (freearea_start p)"
        using in_pool_chunk [OF geo True] by (simp add: start in_pool_def)
      then have "MemPoolAlloc p = Some (freearea_start p, ?q)"
        using f0 bump(2) True
        by (simp add: MemPoolAlloc_def recycle_chunk_def fetch_add_def alloc_chunk_def init_chunk_def)
      moreover have "same_area p ?q" by (simp add: same_area_def)
      moreover have "geometry ?q (Suc (anext a))"
        using bump(1) by (simp add: geometry_def chunk_at_def)
      ultimately show ?thesis
        using Nil True f0 start by (simp add: pool_rel_def)
    next
      case False
      then have "MemPoolAlloc p = Some (0, ?p)"
        using f0 bump(2) by (simp add: MemPoolAlloc_def recycle_chunk_def fetch_add_def alloc_chunk_def)
      then show ?thesis
        using Nil False f0 bump(1) area by (simp add: pool_rel_def)
    qed
  next
    case (Cons i rest)
    let ?c = "chunk_at p i"
    let ?q = "p\<lparr>freelist := ch_next p ?c, ch_next := (ch_next p)(?c := 0), ch_top := (ch_top p)(?c := ?c + 16)\<rparr>"
    have i: "i < anext a" "i < pool_cap p" "freelist p = ?c" "?c \<noteq> 0" "i \<notin> set rest"
        "linked (ch_next p) (ch_next p ?c) (map (chunk_at p) rest)"
      using rel Cons by (auto simp: pool_rel_def)
    have inp: "in_pool p ?c" "in_pool (p\<lparr>freelist := ch_next p ?c\<rparr>) ?c"
      using in_pool_chunk [OF geo i(2)] by (simp_all add: in_pool_def)
    have run: "MemPoolAlloc p = Some (?c, ?q)"
      using i inp by (simp add: MemPoolAlloc_def recycle_chunk_def recycle_locked_def init_chunk_def Let_def)
    have area: "same_area p ?q" by (simp add: same_area_def)
    have "?c \<notin> set (map (chunk_at p) rest)"
      using rel Cons i(1,2,5) chunk_at_inj [OF geo] by (auto simp: pool_rel_def)
    moreover have "chunk_at ?q = chunk_at p" by (simp add: chunk_at_def fun_eq_iff)
    moreover have "pool_cap ?q = pool_cap p" "geometry ?q (anext a)"
      using same_area_facts(2,4) [OF area] geo by simp_all
    ultimately have "pool_rel ?q (a\<lparr>afree := rest\<rparr>)"
      using rel Cons i(6) by (simp add: pool_rel_def)
    with run area Cons show ?thesis by simp
  qed
qed

lemma MemPoolRelease_refines:
  assumes rel: "pool_rel p a" and i: "i < anext a" "i < pool_cap p" "i \<notin> set (afree a)"
  shows "\<exists>p'. MemPoolRelease (chunk_at p i) p = Some p' \<and> same_area p p' \<and> pool_rel p' (a_release i a)"
proof -
  let ?c = "chunk_at p i"
  let ?q = "p\<lparr>ch_next := (ch_next p)(?c := freelist p), freelist := ?c\<rparr>"
  have geo: "geometry p (anext a)" using rel by (simp add: pool_rel_def)
  have run: "MemPoolRelease ?c p = Some ?q"
    using in_pool_chunk [OF geo i(2)] by (simp add: MemPoolRelease_def)
  have area: "same_area p ?q" by (simp add: same_area_def)
  have "?c \<notin> set (map (chunk_at p) (afree a))"
    using rel i chunk_at_inj [OF geo] by (auto simp: pool_rel_def)
  moreover have "chunk_at ?q = chunk_at p" by (simp add: chunk_at_def fun_eq_iff)
  moreover have "pool_cap ?q = pool_cap p" "geometry ?q (anext a)"
    using same_area_facts(2,4) [OF area] geo by simp_all
  moreover have "?c \<noteq> 0" using geometry_chunk(3) [OF geo] i(1) by simp
  ultimately have "pool_rel ?q (a_release i a)"
    using rel i by (simp add: pool_rel_def)
  with run area show ?thesis by blast
qed

text \<open>Sequences of calls. The abstract run allows the release of a chunk in hand only and
  answers with the numbers of the chunks; the concrete run answers with their addresses.\<close>

datatype pool_op = PAlloc | PRelease nat

fun a_run :: "nat \<Rightarrow> pool_op list \<Rightarrow> apool \<Rightarrow> nat set \<Rightarrow> (nat option list \<times> apool \<times> nat set) option" where
  "a_run cap [] a H = Some ([], a, H)"
| "a_run cap (PAlloc # ops) a H = do {
     let (r, a) = a_alloc cap a;
     (rs, a, H) \<leftarrow> a_run cap ops a (H \<union> set_option r);
     Some (r # rs, a, H) }"
| "a_run cap (PRelease i # ops) a H = do { ensure (i \<in> H); a_run cap ops (a_release i a) (H - {i}) }"

fun c_run :: "pool_op list \<Rightarrow> 'a pool_scheme \<Rightarrow> (u64 list \<times> 'a pool_scheme) option" where
  "c_run [] p = Some ([], p)"
| "c_run (PAlloc # ops) p = do {
     (c, p) \<leftarrow> MemPoolAlloc p;
     (cs, p) \<leftarrow> c_run ops p;
     Some (c # cs, p) }"
| "c_run (PRelease i # ops) p = do { p \<leftarrow> MemPoolRelease (chunk_at p i) p; c_run ops p }"

definition chunk_ptr :: "'a pool_scheme \<Rightarrow> nat option \<Rightarrow> u64" where
  "chunk_ptr p r = (case r of Some i \<Rightarrow> chunk_at p i | None \<Rightarrow> 0)"

definition in_hand :: "nat \<Rightarrow> apool \<Rightarrow> nat set \<Rightarrow> bool" where
  "in_hand cap a H \<longleftrightarrow> (\<forall>i \<in> H. i < anext a \<and> i < cap \<and> i \<notin> set (afree a))"

lemma in_hand_alloc:
  assumes "pool_rel p a" "in_hand (pool_cap p) a H"
  shows "in_hand (pool_cap p) (snd (a_alloc (pool_cap p) a)) (H \<union> set_option (fst (a_alloc (pool_cap p) a)))"
  using assms by (auto simp: in_hand_def pool_rel_def split: list.split)

lemma in_hand_release: "in_hand cap a H \<Longrightarrow> in_hand cap (a_release i a) (H - {i})"
  by (auto simp: in_hand_def)

lemma anext_mono: "anext (snd (a_alloc cap a)) \<le> Suc (anext a)"
  by (simp split: list.split)

lemma c_run_refines:
  assumes "pool_rel p a" "in_hand (pool_cap p) a H" "a_run (pool_cap p) ops a H = Some (rs, a', H')"
    "unat (mem_pool p) + (anext a + length ops) * unat (chunk_size p) < 2 ^ 64"
  shows "\<exists>p'. c_run ops p = Some (map (chunk_ptr p) rs, p') \<and> same_area p p' \<and> pool_rel p' a' \<and>
    in_hand (pool_cap p) a' H'"
  using assms
proof (induction ops arbitrary: p a H rs)
  case Nil
  then show ?case by (auto simp: same_area_def)
next
  case (Cons op ops)
  note geo = Cons.prems(1) [unfolded pool_rel_def, THEN conjunct1]
  show ?case
  proof (cases op)
    case PAlloc
    let ?a = "snd (a_alloc (pool_cap p) a)" and ?r = "fst (a_alloc (pool_cap p) a)"
    have "Suc (anext a) * unat (chunk_size p) \<le> (anext a + length (op # ops)) * unat (chunk_size p)"
      by (intro mult_le_mono1) simp
    moreover have "unat (freearea_start p) = unat (mem_pool p) + anext a * unat (chunk_size p)"
      using geo unat_chunk_at [of p "anext a"] by (simp add: geometry_def)
    ultimately have room: "unat (freearea_start p) + unat (chunk_size p) < 2 ^ 64"
      using Cons.prems(4) unfolding mult_Suc by linarith
    obtain q where q: "MemPoolAlloc p = Some (chunk_ptr p ?r, q)" "same_area p q" "pool_rel q ?a"
      using MemPoolAlloc_refines [OF Cons.prems(1) room] by (auto simp: chunk_ptr_def)
    have cap: "pool_cap q = pool_cap p" and ptr: "chunk_ptr q = chunk_ptr p"
      using same_area_facts [OF q(2)] by (simp_all add: chunk_ptr_def fun_eq_iff split: option.split)
    obtain rs' where rs: "rs = ?r # rs'" "a_run (pool_cap p) ops ?a (H \<union> set_option ?r) = Some (rs', a', H')"
      using Cons.prems(3) PAlloc by (auto simp: Let_def case_prod_beta bind_eq_Some_conv simp del: a_alloc.simps)
    have "(anext ?a + length ops) * unat (chunk_size p) \<le> (anext a + length (op # ops)) * unat (chunk_size p)"
      using anext_mono [of "pool_cap p" a] by (intro mult_le_mono1) (simp del: a_alloc.simps)
    then have "unat (mem_pool q) + (anext ?a + length ops) * unat (chunk_size q) < 2 ^ 64"
      using Cons.prems(4) q(2) by (simp add: same_area_def del: a_alloc.simps a_release.simps)
    from Cons.IH [OF q(3) _ _ this, of "H \<union> set_option ?r" rs'] rs(2) in_hand_alloc [OF Cons.prems(1,2)] cap ptr
    obtain p' where "c_run ops q = Some (map (chunk_ptr p) rs', p')" "same_area q p'" "pool_rel p' a'"
        "in_hand (pool_cap p) a' H'"
      by (auto simp del: a_alloc.simps)
    with q(1,2) rs(1) PAlloc show ?thesis by (simp add: same_area_def del: a_alloc.simps)
  next
    case (PRelease i)
    with Cons.prems(2,3) have i: "i \<in> H" "i < anext a" "i < pool_cap p" "i \<notin> set (afree a)"
        "a_run (pool_cap p) ops (a_release i a) (H - {i}) = Some (rs, a', H')"
      by (auto simp: in_hand_def split: if_splits)
    obtain q where q: "MemPoolRelease (chunk_at p i) p = Some q" "same_area p q" "pool_rel q (a_release i a)"
      using MemPoolRelease_refines [OF Cons.prems(1) i(2-4)] by blast
    have cap: "pool_cap q = pool_cap p" and ptr: "chunk_ptr q = chunk_ptr p"
      using same_area_facts [OF q(2)] by (simp_all add: chunk_ptr_def fun_eq_iff split: option.split)
    have "(anext (a_release i a) + length ops) * unat (chunk_size p) \<le> (anext a + length (op # ops)) * unat (chunk_size p)"
      by (intro mult_le_mono1) simp
    then have "unat (mem_pool q) + (anext (a_release i a) + length ops) * unat (chunk_size q) < 2 ^ 64"
      using Cons.prems(4) q(2) by (simp add: same_area_def del: a_alloc.simps a_release.simps)
    from Cons.IH [OF q(3) _ _ this, of "H - {i}" rs] i(5) in_hand_release [OF Cons.prems(2), of i] cap ptr
    obtain p' where "c_run ops q = Some (map (chunk_ptr p) rs, p')" "same_area q p'" "pool_rel p' a'"
        "in_hand (pool_cap p) a' H'"
      by (auto simp del: a_release.simps)
    with q(1,2) PRelease show ?thesis by (simp add: same_area_def)
  qed
qed

text \<open>What the runtime may assume of \<open>mmap\<close>: an area of the length asked for that
  neither starts at \<open>NULL\<close> nor reaches the end of the address space.\<close>

definition mmap_ok :: "(u64 \<Rightarrow> u64 \<Rightarrow> u64 option) \<Rightarrow> bool" where
  "mmap_ok mm \<longleftrightarrow> (\<forall>adr len m. mm adr len = Some m \<longrightarrow> m \<noteq> 0 \<and> unat m + unat len < 2 ^ 64)"

lemma MemPoolInit_rel:
  assumes "mmap_ok mm" "MemPoolInit mm adr ch pl p0 = (0, p)" "16 \<le> ch" "0 < pl"
  shows "pool_rel p \<lparr>afree = [], anext = 0\<rparr>" "chunk_size p = ch" "pool_len p = unat pl"
    "pool_cap p = (unat pl - 1) div unat ch"
proof -
  obtain m where m: "mm adr pl = Some m" "m \<noteq> 0" "unat m + unat pl < 2 ^ 64"
    using assms(1,2) by (auto simp: mmap_ok_def MemPoolInit_def split: option.splits)
  have p: "p = p0\<lparr>mem_pool := m, freelist := 0, chunk_size := ch, freearea_start := m, freearea_end := m + pl\<rparr>"
    using assms(2) m(1) by (simp add: MemPoolInit_def)
  have e: "unat (m + pl) = unat m + unat pl"
    using m(3) by (simp add: unat_word_ariths)
  have "0 < unat pl" using assms(4) by (simp add: unat_gt_0 word_neq_0_conv)
  then show "pool_rel p \<lparr>afree = [], anext = 0\<rparr>"
    using m(2) assms(3) e
    by (simp add: p pool_rel_def geometry_def chunk_at_def word_less_nat_alt u64_bound [of m, simplified])
  show len: "pool_len p = unat pl" "chunk_size p = ch" by (simp_all add: p pool_len_def e)
  then show "pool_cap p = (unat pl - 1) div unat ch" by (simp add: pool_cap_def)
qed

text \<open>C17: an initialised pool implements the abstract pool: for every sequence of calls the
  abstract pool allows (release only what is in hand), the concrete calls are all defined and
  answer with the addresses of exactly the chunks the abstract pool answers with, as long as the
  bump pointer cannot wrap.\<close>

theorem MemPool_refines:
  assumes "mmap_ok mm" and "16 \<le> ch" and "0 < pl" and "MemPoolInit mm adr ch pl p0 = (0, p)"
    and "a_run ((unat pl - 1) div unat ch) ops \<lparr>afree = [], anext = 0\<rparr> {} = Some (rs, a, H)"
    and "unat (mem_pool p) + length ops * unat ch < 2 ^ 64"
  shows "\<exists>p'. c_run ops p = Some (map (chunk_ptr p) rs, p') \<and> pool_rel p' a \<and> in_hand (pool_cap p) a H"
  using c_run_refines [of p "\<lparr>afree = [], anext = 0\<rparr>" "{}" ops rs a H]
    MemPoolInit_rel [OF assms(1,4,2,3)] assms(5,6)
  by (auto simp: in_hand_def)

definition demo_mmap :: "u64 \<Rightarrow> u64 \<Rightarrow> u64 option" where
  "demo_mmap adr len = (if len \<le> 0x40000000 then Some 0x7f0000000000 else None)"

lemma mmap_ok_demo: "mmap_ok demo_mmap"
  by (auto simp: mmap_ok_def demo_mmap_def word_le_nat_alt split: if_splits)

definition no_pool :: pool where
  "no_pool = \<lparr>mem_pool = 0, freelist = 0, chunk_size = 0, freearea_start = 0, freearea_end = 0,
     ch_next = (\<lambda>_. 0), ch_top = (\<lambda>_. 0)\<rparr>"

definition demo_pool :: pool where
  "demo_pool = snd (MemPoolInit demo_mmap 0 0x100000 0x40000000 no_pool)"

lemma demo_pool_init: "MemPoolInit demo_mmap 0 0x100000 0x40000000 no_pool = (0, demo_pool)"
  by (simp add: demo_pool_def MemPoolInit_def demo_mmap_def)

lemma demo_pool_fields:
  "mem_pool demo_pool = 0x7f0000000000" "chunk_size demo_pool = 0x100000"
  by (simp_all add: demo_pool_def MemPoolInit_def demo_mmap_def)

theorem MemPool_refines_witness:
  "\<exists>p'. c_run [PAlloc, PAlloc, PRelease 0, PAlloc] demo_pool =
     Some ([0x7f0000000000, 0x7f0000100000, 0x7f0000000000], p')"
proof -
  have "a_run ((unat (0x40000000 :: u64) - 1) div unat (0x100000 :: u64)) [PAlloc, PAlloc, PRelease 0, PAlloc]
      \<lparr>afree = [], anext = 0\<rparr> {} = Some ([Some 0, Some 1, Some 0], \<lparr>afree = [], anext = 2\<rparr>, {0, 1})"
    by (auto simp: Let_def)
  from MemPool_refines [OF mmap_ok_demo _ _ demo_pool_init this] show ?thesis
    by (auto simp: demo_pool_fields chunk_ptr_def chunk_at_def)
qed

lemma a_run_allocs:
  "a_run cap (replicate n PAlloc) \<lparr>afree = [], anext = k\<rparr> H =
    Some (map (\<lambda>i. if i < cap then Some i else None) [k..<k + n], \<lparr>afree = [], anext = k + n\<rparr>, H \<union> {k..<min cap (k + n)})"
proof (induction n arbitrary: k H)
  case (Suc n)
  have "H \<union> set_option (if k < cap then Some k else None) \<union> {Suc k..<min cap (k + Suc n)} = H \<union> {k..<min cap (k + Suc n)}"
    by auto
  then show ?case
    using Suc [of "Suc k" "H \<union> set_option (if k < cap then Some k else None)"]
    by (cases "k < cap") (simp_all add: Let_def upt_conv_Cons del: upt_Suc)
qed simp

text \<open>A pool of \<open>n\<close> times the chunk size yields \<open>n - 1\<close> chunks: the comparison with
  the end of the pool refuses the last one although it fits.\<close>

lemma pool_loses_last_chunk:
  assumes "mmap_ok mm" and "16 \<le> ch" and "0 < n" and "unat pl = n * unat ch" and "MemPoolInit mm adr ch pl p0 = (0, p)"
  shows "\<exists>p'. c_run (replicate n PAlloc) p = Some (map (chunk_at p) [0..<n - 1] @ [0], p') \<and>
    unat (chunk_at p (n - 1)) + unat ch \<le> unat (freearea_end p)"
proof -
  have ch: "0 < unat ch" using assms(2) by (simp add: word_le_nat_alt)
  with assms(3,4) have pl: "0 < pl" by (metis mult_pos_pos unat_gt_0 word_neq_0_conv)
  note init = MemPoolInit_rel [OF assms(1,5,2) pl]
  have cap: "(unat pl - 1) div unat ch = n - 1"
  proof (rule div_nat_eqI)
    show "unat ch * (n - 1) \<le> unat pl - 1" using ch assms(3,4) by (cases n) (auto simp: algebra_simps)
    show "unat pl - 1 < unat ch * Suc (n - 1)" using ch assms(3,4) by (cases n) (auto simp: algebra_simps)
  qed
  have area: "unat (mem_pool p) + n * unat ch < 2 ^ 64" "unat (freearea_end p) = unat (mem_pool p) + n * unat ch"
  proof -
    have "mem_pool p < freearea_end p" using init(1) by (simp add: pool_rel_def geometry_def)
    then show e: "unat (freearea_end p) = unat (mem_pool p) + n * unat ch"
      using init(3) assms(4) by (simp add: pool_len_def word_less_nat_alt)
    show "unat (mem_pool p) + n * unat ch < 2 ^ 64" using u64_bound [of "freearea_end p"] e by simp
  qed
  have "[0..<0 + n] = [0..<n - 1] @ [n - 1]" using assms(3) by (cases n) simp_all
  then have "map (chunk_ptr p) (map (\<lambda>i. if i < n - 1 then Some i else None) [0..<0 + n]) = map (chunk_at p) [0..<n - 1] @ [0]"
    by (simp add: chunk_ptr_def)
  then obtain p' where "c_run (replicate n PAlloc) p = Some (map (chunk_at p) [0..<n - 1] @ [0], p')"
    using c_run_refines [OF init(1) _ a_run_allocs [of _ n 0 "{}"]] area(1) init(2,4) cap
    by (auto simp: in_hand_def)
  moreover have "unat (chunk_at p (n - 1)) + unat ch = unat (mem_pool p) + n * unat ch"
    using unat_chunk_at [of p "n - 1"] area(1) assms(3) by (cases n) (simp_all add: init(2))
  ultimately show ?thesis using area(2) by simp
qed

subsection \<open>Many threads\<close>

text \<open>Where a thread stands in \<open>MemPoolAlloc\<close>: about to call, past the unlocked look at
  the free list with a list seen (\<open>Waiting\<close> for the mutex) or none (\<open>Bumping\<close>), with the
  result of the atomic addition, with its answer. \<open>held\<close> are the chunks in the hands of the
  callers. The unlocked look reads a variable that is not atomic, a data race in C11; here it is
  one atomic step that sees some value the list has had, as on x86-64.\<close>

datatype pc = Idle | Waiting | Bumping | Carving u64 | Finished u64

datatype pool_action = Look | Locked | Fetch | Carve | Return | Release u64

record conc = pool +
  pcs :: "nat \<Rightarrow> pc"
  held :: "u64 set"

definition goto :: "nat \<Rightarrow> pc \<Rightarrow> conc \<Rightarrow> conc" where
  "goto t l s = s\<lparr>pcs := (pcs s)(t := l)\<rparr>"

definition pool_step :: "nat \<times> pool_action \<Rightarrow> conc \<Rightarrow> (unit \<times> conc) option" where
  "pool_step = (\<lambda>(t, act) s.
     case (act, pcs s t) of
       (Look, _) \<Rightarrow> Some ((), goto t (if freelist s \<noteq> 0 then Waiting else Bumping) s)
     | (Locked, _) \<Rightarrow> do {
         (c, s) \<leftarrow> recycle_locked s;
         Some ((), goto t (if c \<noteq> 0 then Finished c else Bumping) s) }
     | (Fetch, _) \<Rightarrow> let (lo, s) = fetch_add s in Some ((), goto t (Carving lo) s)
     | (Carve, Carving lo) \<Rightarrow> do { (c, s) \<leftarrow> alloc_chunk lo s; Some ((), goto t (Finished c) s) }
     | (Return, Finished c) \<Rightarrow> Some ((), goto t Idle (if c = 0 then s else s\<lparr>held := insert c (held s)\<rparr>))
     | (Release c, _) \<Rightarrow> do { s \<leftarrow> MemPoolRelease c s; Some ((), s\<lparr>held := held s - {c}\<rparr>) }
     | _ \<Rightarrow> None)"

text \<open>The control flow of a thread, and the two assumptions on its environment: a caller
  releases a chunk it holds, and the bump pointer is not increased past the end of the address
  space.\<close>

definition pool_enabled :: "nat \<times> pool_action \<Rightarrow> conc \<Rightarrow> bool" where
  "pool_enabled = (\<lambda>(t, act) s.
     case act of
       Look \<Rightarrow> pcs s t = Idle
     | Locked \<Rightarrow> pcs s t = Waiting
     | Fetch \<Rightarrow> pcs s t = Bumping \<and> unat (freearea_start s) + unat (chunk_size s) < 2 ^ 64
     | Carve \<Rightarrow> (case pcs s t of Carving _ \<Rightarrow> True | _ \<Rightarrow> False)
     | Return \<Rightarrow> (case pcs s t of Finished _ \<Rightarrow> True | _ \<Rightarrow> False)
     | Release c \<Rightarrow> pcs s t = Idle \<and> c \<in> held s)"

text \<open>The chunk a call in progress has to itself.\<close>

fun in_flight :: "pc \<Rightarrow> u64 set" where
  "in_flight (Carving lo) = {lo}"
| "in_flight (Finished c) = (if c = 0 then {} else {c})"
| "in_flight _ = {}"

definition usable :: "'a pool_scheme \<Rightarrow> nat \<Rightarrow> u64 set" where
  "usable p k = chunk_at p ` {i. i < k \<and> i < pool_cap p}"

text \<open>Every chunk has one place: the free list, a caller, or one call in progress. \<open>A\<close>
  are the chunks the bump pointer has passed, \<open>U\<close> those of them that fit.\<close>

definition one_place :: "u64 set \<Rightarrow> u64 set \<Rightarrow> u64 list \<Rightarrow> u64 set \<Rightarrow> (nat \<Rightarrow> pc) \<Rightarrow> bool" where
  "one_place A U fl H P \<longleftrightarrow> distinct fl \<and> set fl \<subseteq> U \<and> H \<subseteq> U \<and> U \<subseteq> A \<and> 0 \<notin> A \<and> set fl \<inter> H = {} \<and>
     (\<forall>t. in_flight (P t) \<subseteq> A \<and> in_flight (P t) \<inter> (set fl \<union> H) = {}) \<and>
     (\<forall>t c. P t = Finished c \<longrightarrow> c = 0 \<or> c \<in> U) \<and>
     (\<forall>t u. t \<noteq> u \<longrightarrow> in_flight (P t) \<inter> in_flight (P u) = {})"

definition conc_ok :: "conc \<Rightarrow> nat \<Rightarrow> u64 list \<Rightarrow> bool" where
  "conc_ok s k fl \<longleftrightarrow> geometry s k \<and> linked (ch_next s) (freelist s) fl \<and>
     one_place (chunk_at s ` {..<k}) (usable s k) fl (held s) (pcs s)"

definition conc_inv :: "conc \<Rightarrow> bool" where
  "conc_inv s \<longleftrightarrow> (\<exists>k fl. conc_ok s k fl)"

lemma one_place_less:
  assumes "one_place A U fl H P" "in_flight l \<subseteq> in_flight (P t)" "\<And>c. l = Finished c \<Longrightarrow> c = 0 \<or> c \<in> U"
  shows "one_place A U fl H (P(t := l))"
proof -
  have t: "in_flight (P t) \<subseteq> A" "in_flight (P t) \<inter> (set fl \<union> H) = {}"
      "\<And>u. u \<noteq> t \<Longrightarrow> in_flight (P t) \<inter> in_flight (P u) = {}"
    using assms(1) unfolding one_place_def by auto
  have "in_flight l \<subseteq> A" "in_flight l \<inter> (set fl \<union> H) = {}" "\<And>u. u \<noteq> t \<Longrightarrow> in_flight l \<inter> in_flight (P u) = {}"
      "\<And>u. u \<noteq> t \<Longrightarrow> in_flight (P u) \<inter> in_flight l = {}"
    using assms(2) t by blast+
  with assms(1,3) show ?thesis unfolding one_place_def by (simp add: fun_upd_def)
qed

lemma one_place_pop:
  assumes "one_place A U (c # fl) H P"
  shows "one_place A U fl H (P(t := Finished c))"
proof -
  have c: "c \<in> U" "c \<in> A" "c \<notin> set fl" "c \<notin> H" "\<And>u. c \<notin> in_flight (P u)"
    using assms by (auto simp: one_place_def)
  with assms show ?thesis unfolding one_place_def by (simp add: fun_upd_def)
qed

lemma one_place_bump:
  assumes "one_place A U fl H P" "lo \<notin> A" "lo \<noteq> 0" "U' = U \<or> U' = insert lo U"
  shows "one_place (insert lo A) U' fl H (P(t := Carving lo))"
proof -
  have c: "lo \<notin> set fl" "lo \<notin> H" "\<And>u. lo \<notin> in_flight (P u)"
    using assms(1,2) by (auto simp: one_place_def)
  with assms show ?thesis unfolding one_place_def by (simp add: fun_upd_def) blast
qed

lemma one_place_return:
  assumes "one_place A U fl H P" "P t = Finished c"
  shows "one_place A U fl (if c = 0 then H else insert c H) (P(t := Idle))"
proof -
  have "c = 0 \<or> c \<in> U \<and> c \<notin> set fl \<and> (\<forall>u. u \<noteq> t \<longrightarrow> c \<notin> in_flight (P u))"
    using assms unfolding one_place_def
    by (metis disjoint_iff in_flight.simps(2) singletonI UnCI)
  with assms(1) show ?thesis unfolding one_place_def by (auto simp: fun_upd_def)
qed

lemma one_place_release:
  assumes "one_place A U fl H P" "c \<in> H"
  shows "one_place A U (c # fl) (H - {c}) P"
  using assms unfolding one_place_def by auto

lemma conc_ok_area:
  assumes "same_area s s'" "conc_ok s k fl" "freearea_start s' = freearea_start s"
    "linked (ch_next s') (freelist s') fl'" "one_place (chunk_at s ` {..<k}) (usable s k) fl' (held s') (pcs s')"
  shows "conc_ok s' k fl'"
proof -
  have "chunk_at s' = chunk_at s" "usable s' k = usable s k" "geometry s' k"
    using same_area_facts [OF assms(1)] assms(2,3) by (simp_all add: conc_ok_def fun_eq_iff usable_def)
  with assms(4,5) show ?thesis by (simp add: conc_ok_def)
qed

lemma in_flight_facts:
  assumes "conc_ok s k fl" "c \<in> in_flight (pcs s t)"
  shows "c \<in> chunk_at s ` {..<k}" "c \<notin> set fl"
  using assms unfolding conc_ok_def one_place_def by blast+

lemma usable_in_pool: "geometry s k \<Longrightarrow> c \<in> usable s k \<Longrightarrow> in_pool s c"
  by (auto simp: usable_def in_pool_chunk)

lemma conc_less:
  assumes "conc_ok s k fl" "in_flight l \<subseteq> in_flight (pcs s t)" "\<And>c. l = Finished c \<Longrightarrow> c = 0 \<or> c \<in> usable s k"
  shows "conc_inv (goto t l s)"
proof -
  have "one_place (chunk_at s ` {..<k}) (usable s k) fl (held s) ((pcs s)(t := l))"
    using assms by (intro one_place_less) (simp_all add: conc_ok_def)
  then have "conc_ok (goto t l s) k fl"
    using assms(1) by (intro conc_ok_area [OF _ assms(1)]) (simp_all add: same_area_def goto_def conc_ok_def)
  then show ?thesis by (auto simp: conc_inv_def)
qed

lemma conc_pop:
  assumes ok: "conc_ok s k fl" and pc: "in_flight (pcs s t) = {}"
  shows "\<exists>c s'. recycle_locked s = Some (c, s') \<and> conc_inv (goto t (if c \<noteq> 0 then Finished c else Bumping) s')"
proof (cases fl)
  case Nil
  then have "recycle_locked s = Some (0, s)" using ok by (simp add: conc_ok_def recycle_locked_def)
  then show ?thesis using conc_less [OF ok, of Bumping t] by simp
next
  case (Cons c fl')
  let ?q = "s\<lparr>freelist := ch_next s c, ch_next := (ch_next s)(c := 0), ch_top := (ch_top s)(c := c + 16)\<rparr>"
  have c: "freelist s = c" "c \<noteq> 0" "linked (ch_next s) (ch_next s c) fl'" "c \<notin> set fl'" "c \<in> usable s k"
    using ok Cons by (auto simp: conc_ok_def one_place_def)
  then have "in_pool s c" "in_pool (s\<lparr>freelist := ch_next s c\<rparr>) c"
    using usable_in_pool [of s k c] ok by (simp_all add: conc_ok_def in_pool_def)
  then have run: "recycle_locked s = Some (c, ?q)"
    using c by (simp add: recycle_locked_def init_chunk_def Let_def)
  have "conc_ok (goto t (Finished c) ?q) k fl'"
    using ok Cons c one_place_pop [of _ _ c fl']
    by (intro conc_ok_area [OF _ ok]) (auto simp: same_area_def goto_def conc_ok_def)
  with run c(2) show ?thesis by (auto simp: conc_inv_def)
qed

lemma conc_bump:
  assumes ok: "conc_ok s k fl" and pc: "in_flight (pcs s t) = {}"
    and room: "unat (freearea_start s) + unat (chunk_size s) < 2 ^ 64"
  shows "conc_inv (goto t (Carving (freearea_start s)) (s\<lparr>freearea_start := freearea_start s + chunk_size s\<rparr>))"
proof -
  let ?lo = "freearea_start s"
  let ?q = "goto t (Carving ?lo) (s\<lparr>freearea_start := ?lo + chunk_size s\<rparr>)"
  have geo: "geometry s k" using ok by (simp add: conc_ok_def)
  note bump = geometry_bump(1) [OF geo room]
  have lo: "?lo = chunk_at s k" using geo by (simp add: geometry_def)
  have at: "chunk_at ?q = chunk_at s" "pool_cap ?q = pool_cap s"
    by (simp_all add: goto_def chunk_at_def pool_cap_def pool_len_def fun_eq_iff)
  have geo': "geometry ?q (Suc k)"
    using bump by (simp add: geometry_def goto_def chunk_at_def)
  have A: "chunk_at s ` {..<Suc k} = insert ?lo (chunk_at s ` {..<k})" by (simp add: lo lessThan_Suc)
  have "{i. i < Suc k \<and> i < pool_cap s} = (if k < pool_cap s then insert k {i. i < k \<and> i < pool_cap s} else {i. i < k \<and> i < pool_cap s})"
    by auto
  then have U: "usable ?q (Suc k) = usable s k \<or> usable ?q (Suc k) = insert ?lo (usable s k)"
    unfolding usable_def at by (simp add: lo)
  have "?lo \<notin> chunk_at s ` {..<k}"
  proof
    assume "?lo \<in> chunk_at s ` {..<k}"
    then obtain i where i: "i < k" "chunk_at s k = chunk_at s i" by (auto simp: lo)
    have "geometry ?q (Suc k)" by (rule geo')
    with i chunk_at_inj [OF geo', of k i] show False by (simp add: at)
  qed
  moreover have "?lo \<noteq> 0" using geometry_chunk(3) [OF geo', of k] unfolding at by (simp add: lo)
  ultimately have "one_place (chunk_at s ` {..<Suc k}) (usable ?q (Suc k)) fl (held s) ((pcs s)(t := Carving ?lo))"
    unfolding A using ok U by (intro one_place_bump) (auto simp: conc_ok_def)
  then have "conc_ok ?q (Suc k) fl"
    using ok geo' at by (simp add: conc_ok_def goto_def)
  then show ?thesis by (auto simp: conc_inv_def)
qed

lemma conc_carve:
  assumes ok: "conc_ok s k fl" and pc: "pcs s t = Carving lo"
  shows "\<exists>c s'. alloc_chunk lo s = Some (c, s') \<and> conc_inv (goto t (Finished c) s')"
proof -
  have geo: "geometry s k" using ok by (simp add: conc_ok_def)
  have "lo \<in> chunk_at s ` {..<k}"
    using in_flight_facts(1) [OF ok, of lo t] pc by simp
  then obtain i where i: "i < k" "lo = chunk_at s i" by auto
  have "Suc i * unat (chunk_size s) \<le> k * unat (chunk_size s)" using i(1) by (intro mult_le_mono1) simp
  then have "unat lo + unat (chunk_size s) < 2 ^ 64"
    using geo geometry_chunk(1) [OF geo, of i] i by (simp add: geometry_def)
  then have "unat (lo + chunk_size s) = unat (mem_pool s) + Suc i * unat (chunk_size s)"
    using geometry_chunk(1) [OF geo, of i] i by (simp add: unat_word_ariths)
  then have fits: "lo + chunk_size s \<ge> freearea_end s \<longleftrightarrow> \<not> i < pool_cap s"
    unfolding pool_cap_iff [OF geo] by (simp add: word_le_nat_alt not_less)
  show ?thesis
  proof (cases "i < pool_cap s")
    case False
    then show ?thesis
      using fits conc_less [OF ok, of "Finished 0" t] by (simp add: alloc_chunk_def)
  next
    case True
    let ?q = "s\<lparr>ch_next := (ch_next s)(lo := 0), ch_top := (ch_top s)(lo := lo + 16)\<rparr>"
    have run: "alloc_chunk lo s = Some (lo, ?q)"
      using fits True in_pool_chunk [OF geo True] i(2) by (simp add: alloc_chunk_def init_chunk_def)
    have U: "lo \<in> usable s k" using i True by (auto simp: usable_def)
    have "lo \<notin> set fl" using in_flight_facts(2) [OF ok, of lo t] pc by simp
    then have "conc_ok ?q k fl"
      using ok by (intro conc_ok_area [OF _ ok]) (simp_all add: same_area_def conc_ok_def)
    moreover have "usable ?q k = usable s k"
      by (simp add: usable_def chunk_at_def pool_cap_def pool_len_def)
    ultimately have "conc_inv (goto t (Finished lo) ?q)"
      using U pc by (intro conc_less) auto
    with run show ?thesis by blast
  qed
qed

lemma conc_return:
  assumes ok: "conc_ok s k fl" and pc: "pcs s t = Finished c"
  shows "conc_inv (goto t Idle (if c = 0 then s else s\<lparr>held := insert c (held s)\<rparr>))"
proof -
  have "one_place (chunk_at s ` {..<k}) (usable s k) fl (if c = 0 then held s else insert c (held s)) ((pcs s)(t := Idle))"
    using ok pc by (intro one_place_return) (simp_all add: conc_ok_def)
  then have "conc_ok (goto t Idle (if c = 0 then s else s\<lparr>held := insert c (held s)\<rparr>)) k fl"
    using ok by (intro conc_ok_area [OF _ ok]) (auto simp: same_area_def goto_def conc_ok_def)
  then show ?thesis unfolding conc_inv_def by blast
qed

lemma conc_release:
  assumes ok: "conc_ok s k fl" and c: "c \<in> held s"
  shows "\<exists>s'. MemPoolRelease c s = Some s' \<and> conc_inv (s'\<lparr>held := held s' - {c}\<rparr>)"
proof -
  let ?q = "s\<lparr>ch_next := (ch_next s)(c := freelist s), freelist := c\<rparr>"
  have c': "c \<in> usable s k" "c \<notin> set fl" "c \<noteq> 0" using ok c by (auto simp: conc_ok_def one_place_def)
  then have run: "MemPoolRelease c s = Some ?q"
    using usable_in_pool ok by (auto simp: MemPoolRelease_def conc_ok_def)
  have "one_place (chunk_at s ` {..<k}) (usable s k) (c # fl) (held s - {c}) (pcs s)"
    using ok c by (intro one_place_release) (simp_all add: conc_ok_def)
  then have "conc_ok (?q\<lparr>held := held ?q - {c}\<rparr>) k (c # fl)"
    using ok c' by (intro conc_ok_area [OF _ ok]) (auto simp: same_area_def conc_ok_def)
  with run show ?thesis by (auto simp: conc_inv_def)
qed

lemma pool_step_law:
  assumes "conc_inv s" "pool_enabled (t, act) s"
  shows "\<exists>s'. pool_step (t, act) s = Some ((), s') \<and> conc_inv s'"
proof -
  obtain k fl where ok: "conc_ok s k fl" using assms(1) by (auto simp: conc_inv_def)
  show ?thesis
  proof (cases act)
    case Look
    with assms(2) conc_less [OF ok, of Waiting t] conc_less [OF ok, of Bumping t] show ?thesis by (simp add: pool_enabled_def pool_step_def)
  next
    case Locked
    with assms(2) have "in_flight (pcs s t) = {}" by (simp add: pool_enabled_def)
    from conc_pop [OF ok this] Locked show ?thesis by (auto simp: pool_step_def)
  next
    case Fetch
    with assms(2) have "in_flight (pcs s t) = {}" "unat (freearea_start s) + unat (chunk_size s) < 2 ^ 64"
      by (simp_all add: pool_enabled_def)
    from conc_bump [OF ok this] Fetch show ?thesis by (simp add: pool_step_def fetch_add_def)
  next
    case Carve
    with assms(2) obtain lo where pc: "pcs s t = Carving lo" by (auto simp: pool_enabled_def split: pc.splits)
    from conc_carve [OF ok pc] Carve pc show ?thesis by (auto simp: pool_step_def)
  next
    case Return
    with assms(2) obtain c where pc: "pcs s t = Finished c" by (auto simp: pool_enabled_def split: pc.splits)
    from conc_return [OF ok pc] Return pc show ?thesis by (simp add: pool_step_def)
  next
    case (Release c)
    with assms(2) have "c \<in> held s" by (simp add: pool_enabled_def)
    from conc_release [OF ok this] Release show ?thesis by (auto simp: pool_step_def)
  qed
qed

interpretation conc_pool: safe_system conc_inv pool_enabled pool_step
proof
  show "\<exists>out s'. pool_step r s = Some (out, s') \<and> conc_inv s'" if "conc_inv s" "pool_enabled r s" for s r
    using pool_step_law [of s "fst r" "snd r"] that by auto
qed

text \<open>A thread that runs alone performs \<open>MemPoolAlloc\<close>.\<close>

lemma MemPoolAlloc_steps:
  assumes "pcs s t = Idle" "MemPoolAlloc s = Some (c, s')" "unat (freearea_start s) + unat (chunk_size s) < 2 ^ 64"
  shows "reach pool_enabled pool_step s (if c = 0 then s' else s'\<lparr>held := insert c (held s')\<rparr>)"
proof -
  let ?acts = "if freelist s \<noteq> 0 then [(t, Look), (t, Locked), (t, Return)]
     else [(t, Look), (t, Fetch), (t, Carve), (t, Return)]"
  have "run_all pool_enabled pool_step ?acts s = Some (if c = 0 then s' else s'\<lparr>held := insert c (held s')\<rparr>)"
    using assms
    by (auto simp: MemPoolAlloc_def recycle_chunk_def recycle_locked_def pool_enabled_def pool_step_def goto_def
        fetch_add_def alloc_chunk_def init_chunk_def in_pool_def Let_def fun_upd_idem bind_eq_Some_conv split: if_splits)
  then show ?thesis by (rule reach_run [OF _ reach_start])
qed

lemma conc_init:
  assumes "mmap_ok mm" "16 \<le> ch" "0 < pl" "MemPoolInit mm adr ch pl p0 = (0, s)" "\<forall>t. pcs p0 t = Idle" "held p0 = {}"
  shows "conc_inv s" "chunk_size s = ch"
proof -
  note init = MemPoolInit_rel [OF assms(1,4,2,3)]
  have geo: "geometry s 0" "freelist s = 0" using init(1) by (simp_all add: pool_rel_def)
  have "pcs s = pcs p0" "held s = held p0"
    using assms(4) by (auto simp: MemPoolInit_def split: option.splits)
  then have "conc_ok s 0 []"
    using geo assms(5,6) by (simp add: conc_ok_def one_place_def usable_def)
  then show "conc_inv s" unfolding conc_inv_def by blast
  show "chunk_size s = ch" by (rule init(2))
qed

lemma pool_step_area:
  assumes "pool_step r s = Some (out, s')"
  shows "mem_pool s' = mem_pool s \<and> chunk_size s' = chunk_size s \<and> freearea_end s' = freearea_end s"
  using assms
  by (auto simp: pool_step_def goto_def recycle_locked_def init_chunk_def fetch_add_def alloc_chunk_def
      MemPoolRelease_def Let_def bind_eq_Some_conv split: prod.splits pool_action.splits pc.splits if_splits)

lemma reach_area:
  "reach pool_enabled pool_step s0 s \<Longrightarrow>
    mem_pool s = mem_pool s0 \<and> chunk_size s = chunk_size s0 \<and> freearea_end s = freearea_end s0"
  by (induction rule: reach.induct) (auto dest: pool_step_area)

lemma usable_apart:
  assumes "geometry s k" "c \<in> usable s k" "d \<in> usable s k" "c \<noteq> d"
  shows "unat c + unat (chunk_size s) \<le> unat d \<or> unat d + unat (chunk_size s) \<le> unat c"
proof -
  obtain i j where ij: "i < k" "c = chunk_at s i" "j < k" "d = chunk_at s j" "i \<noteq> j"
    using assms(2-4) by (auto simp: usable_def)
  then show ?thesis
    using chunks_apart [OF assms(1), of i j] chunks_apart [OF assms(1), of j i] by (cases "i < j") auto
qed

text \<open>C16: however the threads of a process interleave their calls of \<open>MemPoolAlloc\<close> and
  \<open>MemPoolRelease\<close>, no step is undefined, every chunk in a caller's hands lies inside the
  pool, no two of them overlap, and an answer under way is a chunk nobody else has.\<close>

theorem pool_threads_safe:
  assumes "mmap_ok mm" and "16 \<le> ch" and "0 < pl" and "MemPoolInit mm adr ch pl p0 = (0, s0)"
    and "\<forall>t. pcs p0 t = Idle" and "held p0 = {}" and "reach pool_enabled pool_step s0 s"
  shows "(\<forall>r. pool_enabled r s \<longrightarrow> (\<exists>s'. pool_step r s = Some ((), s'))) \<and>
    (\<forall>c \<in> held s. mem_pool s0 \<le> c \<and> unat c + unat ch < unat (freearea_end s0)) \<and>
    (\<forall>c \<in> held s. \<forall>d \<in> held s. c \<noteq> d \<longrightarrow> unat c + unat ch \<le> unat d \<or> unat d + unat ch \<le> unat c) \<and>
    (\<forall>t u c. pcs s t = Finished c \<and> c \<noteq> 0 \<longrightarrow> c \<notin> held s \<and> (pcs s u = Finished c \<longrightarrow> u = t))"
proof -
  note init = conc_init [OF assms(1-6)]
  have "conc_inv s" using conc_pool.reach_inv [OF assms(7) init(1)] .
  then obtain k fl where ok: "conc_ok s k fl" by (auto simp: conc_inv_def)
  then have geo: "geometry s k" and held: "held s \<subseteq> usable s k"
    and fly: "\<And>t. in_flight (pcs s t) \<inter> held s = {}"
    and two: "\<And>t u. t \<noteq> u \<Longrightarrow> in_flight (pcs s t) \<inter> in_flight (pcs s u) = {}"
    unfolding conc_ok_def one_place_def by blast+
  note area = reach_area [OF assms(7)]
  have "\<exists>s'. pool_step r s = Some ((), s')" if "pool_enabled r s" for r
    using conc_pool.reach_progress [OF assms(7) init(1) that] by auto
  moreover have "mem_pool s0 \<le> c \<and> unat c + unat ch < unat (freearea_end s0)" if c: "c \<in> held s" for c
  proof -
    obtain i where "i < k" "i < pool_cap s" "c = chunk_at s i" using c held by (auto simp: usable_def)
    then show ?thesis
      using geometry_chunk [OF geo, of i] pool_cap_iff [OF geo, of i] area init(2) by simp
  qed
  moreover have "unat c + unat ch \<le> unat d \<or> unat d + unat ch \<le> unat c" if "c \<in> held s" "d \<in> held s" "c \<noteq> d" for c d
    using usable_apart [OF geo _ _ that(3)] that held area init(2) by auto
  moreover have "c \<notin> held s \<and> (pcs s u = Finished c \<longrightarrow> u = t)" if "pcs s t = Finished c" "c \<noteq> 0" for t u c
    using fly [of t] two [of t u] that by (cases "u = t") auto
  ultimately show ?thesis by blast
qed

text \<open>Two threads whose calls overlap: both pass the look at the empty list before either
  moves the bump pointer.\<close>

definition demo_conc :: conc where
  "demo_conc = \<lparr>mem_pool = 0, freelist = 0, chunk_size = 0, freearea_start = 0, freearea_end = 0,
     ch_next = (\<lambda>_. 0), ch_top = (\<lambda>_. 0), pcs = (\<lambda>_. Idle), held = {}\<rparr>"

definition demo_actions :: "(nat \<times> pool_action) list" where
  "demo_actions = [(0, Look), (1, Look), (1, Fetch), (0, Fetch), (0, Carve), (1, Carve), (0, Return), (1, Return)]"

theorem pool_threads_safe_witness:
  "\<exists>s0 s. MemPoolInit demo_mmap 0 0x100000 0x40000000 demo_conc = (0, s0) \<and> reach pool_enabled pool_step s0 s \<and>
     held s = {0x7f0000000000, 0x7f0000100000} \<and>
     unat (0x7f0000000000 :: u64) + unat (0x100000 :: u64) \<le> unat (0x7f0000100000 :: u64)"
proof -
  obtain s0 where s0: "MemPoolInit demo_mmap 0 0x100000 0x40000000 demo_conc = (0, s0)"
      "s0 = demo_conc\<lparr>mem_pool := 0x7f0000000000, freelist := 0, chunk_size := 0x100000,
         freearea_start := 0x7f0000000000, freearea_end := 0x7f0040000000\<rparr>"
    by (simp add: MemPoolInit_def demo_mmap_def)
  obtain s where s: "run_all pool_enabled pool_step demo_actions s0 = Some s"
      "held s = {0x7f0000000000, 0x7f0000100000}"
    by (auto simp: s0(2) demo_conc_def demo_actions_def pool_enabled_def pool_step_def goto_def fetch_add_def alloc_chunk_def
        init_chunk_def in_pool_def Let_def)
  have r: "reach pool_enabled pool_step s0 s" by (rule reach_run [OF s(1) reach_start])
  have "\<forall>t. pcs demo_conc t = Idle" "held demo_conc = {}" by (simp_all add: demo_conc_def)
  from pool_threads_safe [OF mmap_ok_demo _ _ s0(1) this r] s(2)
  have "unat (0x7f0000000000 :: u64) + unat (0x100000 :: u64) \<le> unat (0x7f0000100000 :: u64)" by simp
  with s0(1) r s(2) show ?thesis by blast
qed

end
