(* ===== verification/Runtime_Mapping.thy ===== *)
theory Runtime_Mapping
  imports SS_Prelude
begin

unbundle bit_operations_syntax

text \<open>
  \<^verbatim>\<open>runtime/mapping.c\<close>: \<open>setup_memory\<close> reads \<^verbatim>\<open>/proc/self/maps\<close>, collects
  the gaps between the mapped areas in the upper part of the address space, picks the highest
  gap that is large enough for the shadow stacks and reserves every other gap.

  The file is its text, read through \<open>fgets\<close> into the buffer of the code; \<open>strtoull\<close>
  in base 16 is modelled as the C library defines it. The parameters are whether
  \<open>malloc\<close> and \<open>mmap\<close> succeed. The list of gaps is private to the call, so its linked
  cells are a HOL list with the head first.

  The label \<open>out\<close> reads \<open>found\<close>, which is declared after the jumps that leave the
  reading loop: on those paths its value is indeterminate and the call is undefined.
\<close>

subsection \<open>The C library\<close>

definition hexval :: "char \<Rightarrow> nat option" where
  "hexval c = (let n = of_char c in
     if 48 \<le> n \<and> n \<le> 57 then Some (n - 48)
     else if 97 \<le> n \<and> n \<le> 102 then Some (n - 87)
     else if 65 \<le> n \<and> n \<le> 70 then Some (n - 55)
     else None)"

fun hex_digits :: "string \<Rightarrow> nat \<Rightarrow> nat \<times> string" where
  "hex_digits [] acc = (acc, [])"
| "hex_digits (c # cs) acc =
     (case hexval c of Some d \<Rightarrow> hex_digits cs (16 * acc + d) | None \<Rightarrow> (acc, c # cs))"

definition isspace :: "char \<Rightarrow> bool" where
  "isspace c = (let n = (of_char c :: nat) in n = 32 \<or> 9 \<le> n \<and> n \<le> 13)"

fun sign_of :: "string \<Rightarrow> bool \<times> string" where
  "sign_of (c # cs) = (if c = CHR ''-'' then (True, cs) else if c = CHR ''+'' then (False, cs) else (False, c # cs))"
| "sign_of [] = (False, [])"

fun starts_hex :: "string \<Rightarrow> bool" where
  "starts_hex (c # _) \<longleftrightarrow> hexval c \<noteq> None"
| "starts_hex [] \<longleftrightarrow> False"

fun drop_0x :: "string \<Rightarrow> string" where
  "drop_0x (a # b # cs) =
     (if a = CHR ''0'' \<and> (b = CHR ''x'' \<or> b = CHR ''X'') \<and> starts_hex cs then cs else a # b # cs)"
| "drop_0x s = s"

definition strtoull16 :: "string \<Rightarrow> u64 \<times> string" where
  "strtoull16 s =
     (let (neg, t) = sign_of (dropWhile isspace s); t = drop_0x t
      in if starts_hex t then
           let (n, rest) = hex_digits t 0
           in (if n \<ge> 2 ^ 64 then - 1 else if neg then - of_nat n else of_nat n, rest)
         else (0, s))"

text \<open>\<open>fgets(line, n, fp)\<close>: at most \<open>n - 1\<close> characters, up to and including a newline;
  \<open>None\<close> at the end of the file.\<close>

fun read_line :: "nat \<Rightarrow> string \<Rightarrow> string \<times> string" where
  "read_line 0 s = ([], s)"
| "read_line (Suc n) [] = ([], [])"
| "read_line (Suc n) (c # cs) =
     (if c = CHR 0x0A then ([c], cs) else let (l, r) = read_line n cs in (c # l, r))"

definition fgets :: "nat \<Rightarrow> string \<Rightarrow> (string \<times> string) option" where
  "fgets n s = (if s = [] then None else Some (read_line (n - 1) s))"

subsection \<open>The gaps\<close>

record MemArea =
  ma_lo :: u64
  ma_hi :: u64

definition BASE :: u64 where "BASE = 0x700000000000"
definition CEIL :: u64 where "CEIL = 0x7fffffffffff"
definition bufsz :: nat where "bufsz = 8192"

text \<open>\<open>oom n\<close>: the \<open>n\<close>-th cell cannot be allocated. \<open>None\<close> is the status -1.\<close>

definition insert_ma :: "(nat \<Rightarrow> bool) \<Rightarrow> u64 \<Rightarrow> u64 \<Rightarrow> MemArea list \<Rightarrow> MemArea list option" where
  "insert_ma oom lo hi list =
     (if oom (length list) then None else Some (\<lparr>ma_lo = lo, ma_hi = hi\<rparr> # list))"

datatype line_res = L_bad | L_skip | L_area u64 u64

definition parse_line :: "string \<Rightarrow> line_res" where
  "parse_line p =
     (let (lo, endp) = strtoull16 p
      in if lo = 0 \<or> \<not> (endp \<noteq> [] \<and> hd endp = CHR ''-'') then L_bad
         else if lo > CEIL then L_skip
         else let (hi, endp) = strtoull16 (tl endp)
              in if hi = 0 \<or> \<not> (endp \<noteq> [] \<and> (hd endp = CHR '' '' \<or> hd endp = CHR 0x09)) then L_bad
                 else L_area lo hi)"

definition note_area :: "(nat \<Rightarrow> bool) \<Rightarrow> u64 \<Rightarrow> u64 \<Rightarrow> u64 \<times> MemArea list \<Rightarrow> (u64 \<times> MemArea list) option" where
  "note_area oom lo hi = (\<lambda>(prev_hi, list). do {
     list \<leftarrow> if lo > prev_hi then insert_ma oom prev_hi lo list else Some list;
     Some (if hi > prev_hi then hi else prev_hi, list) })"

lemma read_line_le: "length (snd (read_line n s)) \<le> length s"
  by (induction n s rule: read_line.induct) (auto simp: Let_def case_prod_beta)

lemma read_line_shorter: "s \<noteq> [] \<Longrightarrow> 0 < n \<Longrightarrow> length (snd (read_line n s)) < length s"
  using read_line_le [of "n - 1" "tl s"] by (cases n; cases s) (auto simp: Let_def case_prod_beta less_Suc_eq_le)

lemma fgets_shorter: "fgets (Suc (Suc n)) s = Some (l, r) \<Longrightarrow> length r < length s"
  using read_line_shorter [of s "Suc n"] by (auto simp: fgets_def split: if_splits)

text \<open>The reading loop; \<open>None\<close> is the jump to \<open>out2\<close>.\<close>

function scan_maps :: "(nat \<Rightarrow> bool) \<Rightarrow> string \<Rightarrow> u64 \<times> MemArea list \<Rightarrow> (u64 \<times> MemArea list) option" where
  "scan_maps oom content st =
     (case fgets (bufsz - 1) content of
        None \<Rightarrow> Some st
      | Some (line, rest) \<Rightarrow>
          (case parse_line line of
             L_bad \<Rightarrow> None
           | L_skip \<Rightarrow> scan_maps oom rest st
           | L_area lo hi \<Rightarrow>
               (case note_area oom lo hi st of None \<Rightarrow> None | Some st \<Rightarrow> scan_maps oom rest st)))"
  by pat_completeness auto
termination
  using fgets_shorter [of "bufsz - 3"]
  by (relation "measure (\<lambda>(oom, content, st). length content)") (auto simp: bufsz_def)

declare scan_maps.simps [simp del]

subsection \<open>Choosing and reserving\<close>

text \<open>\<open>mmf lo len\<close>: whether \<open>mmap\<close> with \<open>MAP_FIXED\<close> and \<open>PROT_NONE\<close> succeeds.
  The answer carries the areas reserved.\<close>

fun reserve_all :: "(u64 \<Rightarrow> u64 \<Rightarrow> bool) \<Rightarrow> MemArea list \<Rightarrow> u64 \<Rightarrow> u64 \<Rightarrow> int \<times> MemArea list" where
  "reserve_all mmf [] target_lo target_hi = (0, [])"
| "reserve_all mmf (p # ps) target_lo target_hi =
     (if ma_lo p \<ge> target_hi \<or> ma_hi p \<le> target_lo then
        if mmf (ma_lo p) (ma_hi p - ma_lo p)
        then let (err, done) = reserve_all mmf ps target_lo target_hi in (err, p # done)
        else (- 1, [])
      else reserve_all mmf ps target_lo target_hi)"

fun find_gap :: "u64 \<Rightarrow> MemArea list \<Rightarrow> MemArea option" where
  "find_gap mn [] = None"
| "find_gap mn (p # ps) = (if ma_hi p - ma_lo p \<ge> mn then Some p else find_gap mn ps)"

definition pick_range :: "u64 \<Rightarrow> MemArea \<Rightarrow> u64 \<times> u64" where
  "pick_range mn p =
     (let lo = (if ma_hi p - ma_lo p > mn then ma_hi p - mn else ma_lo p)
      in (lo AND NOT 15, ma_hi p AND NOT 15))"

record maps_env =
  maps_file :: "string option"
  line_oom :: bool
  cell_oom :: "nat \<Rightarrow> bool"
  map_fixed :: "u64 \<Rightarrow> u64 \<Rightarrow> bool"

text \<open>The answer: the status, the bounds stored through the pointers (if they are), and the
  areas reserved.\<close>

definition setup_memory :: "maps_env \<Rightarrow> u64 \<Rightarrow> (int \<times> (u64 \<times> u64) option \<times> MemArea list) option" where
  "setup_memory E mn =
     (case maps_file E of
        None \<Rightarrow> Some (- 1, None, [])
      | Some content \<Rightarrow> do {
          ensure (\<not> line_oom E);
          (prev_hi, list) \<leftarrow> scan_maps (cell_oom E) content (BASE, []);
          list \<leftarrow> if prev_hi < CEIL then insert_ma (cell_oom E) prev_hi CEIL list else Some list;
          (case find_gap mn list of
             None \<Rightarrow> Some (- 1, None, [])
           | Some p \<Rightarrow>
               let (lo, hi) = pick_range mn p; (err, done) = reserve_all (map_fixed E) list lo hi
               in if err \<noteq> 0 then Some (- 1, None, done) else Some (0, Some (lo, hi), done)) })"

subsection \<open>Reading back a printed file\<close>

text \<open>The lines of \<^verbatim>\<open>/proc/self/maps\<close>: two numbers in hexadecimal, then the rest of the
  line.\<close>

definition hexchar :: "nat \<Rightarrow> char" where
  "hexchar d = char_of (if d < 10 then 48 + d else 87 + d)"

fun hex :: "nat \<Rightarrow> string" where
  "hex n = (if n < 16 then [hexchar n] else hex (n div 16) @ [hexchar (n mod 16)])"

declare hex.simps [simp del]

lemma hexval_hexchar: "d < 16 \<Longrightarrow> hexval (hexchar d) = Some d"
  by (simp add: hexval_def hexchar_def Let_def take_bit_nat_def)

lemma hex_ne: "hex n \<noteq> []"
  by (subst hex.simps) simp

lemma hex_chars: "c \<in> set (hex n) \<Longrightarrow> hexval c \<noteq> None"
proof (induction n rule: hex.induct)
  case (1 n)
  then show ?case
    by (subst (asm) hex.simps) (auto simp: hexval_hexchar split: if_splits)
qed

lemma hex_digits_hex: "hex_digits (hex n @ s) 0 = hex_digits s n"
proof (induction n arbitrary: s rule: hex.induct)
  case (1 n)
  then show ?case
    by (subst hex.simps) (simp add: hexval_hexchar)
qed

lemma not_hex: "\<not> isspace c" "c \<noteq> CHR ''-''" "c \<noteq> CHR ''+''" "c \<noteq> CHR ''x''" "c \<noteq> CHR ''X''" "c \<noteq> CHR 0x0A"
  if "hexval c \<noteq> None"
  using that by (auto simp: hexval_def isspace_def Let_def split: if_splits)

lemma strtoull16_hex:
  assumes "n < 2 ^ 64" "hexval c = None" "c \<noteq> CHR ''x''" "c \<noteq> CHR ''X''"
  shows "strtoull16 (hex n @ c # s) = (of_nat n, c # s)"
proof -
  obtain d ds where h: "hex n = d # ds" using hex_ne by (cases "hex n") auto
  have d: "hexval d \<noteq> None" and ds: "e \<in> set ds \<Longrightarrow> hexval e \<noteq> None" for e
    using hex_chars [of _ n] h by auto
  have "drop_0x (d # ds @ c # s) = d # ds @ c # s"
    using assms(3,4) not_hex(4,5) [OF ds] by (cases ds) auto
  moreover have "hex_digits (d # ds @ c # s) 0 = (n, c # s)"
    using hex_digits_hex [of n "c # s"] assms(2) h by simp
  ultimately show ?thesis
    using d not_hex [OF d] assms(1) h by (simp add: strtoull16_def Let_def)
qed

record maps_entry =
  me_lo :: nat
  me_hi :: nat
  me_rest :: string

definition maps_line :: "maps_entry \<Rightarrow> string" where
  "maps_line m = hex (me_lo m) @ CHR ''-'' # hex (me_hi m) @ CHR '' '' # me_rest m @ [CHR 0x0A]"

definition line_ok :: "maps_entry \<Rightarrow> bool" where
  "line_ok m \<longleftrightarrow> 0 < me_lo m \<and> me_lo m < me_hi m \<and> me_hi m < 2 ^ 64 \<and> CHR 0x0A \<notin> set (me_rest m) \<and>
     length (maps_line m) < bufsz - 1"

lemma read_line_newline:
  "CHR 0x0A \<notin> set l \<Longrightarrow> length l < n \<Longrightarrow> read_line n (l @ CHR 0x0A # r) = (l @ [CHR 0x0A], r)"
  by (induction n "l @ CHR 0x0A # r" arbitrary: l rule: read_line.induct) (auto simp: Cons_eq_append_conv Let_def split: prod.split)

lemma fgets_line:
  assumes "line_ok m"
  shows "fgets (bufsz - 1) (maps_line m @ r) = Some (maps_line m, r)"
proof -
  let ?l = "hex (me_lo m) @ CHR ''-'' # hex (me_hi m) @ CHR '' '' # me_rest m"
  have l: "maps_line m = ?l @ [CHR 0x0A]" by (simp add: maps_line_def)
  have "CHR 0x0A \<notin> set ?l"
    using assms not_hex(6) hex_chars by (fastforce simp: line_ok_def)
  moreover have "length ?l < bufsz - 1 - 1"
    using assms unfolding line_ok_def l by (simp add: bufsz_def)
  ultimately have "read_line (bufsz - 1 - 1) (?l @ CHR 0x0A # r) = (?l @ [CHR 0x0A], r)"
    by (rule read_line_newline)
  then show ?thesis unfolding l by (simp add: fgets_def)
qed

lemma parse_maps_line:
  assumes "line_ok m"
  shows "parse_line (maps_line m) =
    (if of_nat (me_lo m) > CEIL then L_skip else L_area (of_nat (me_lo m)) (of_nat (me_hi m)))"
proof -
  have b: "me_lo m < 2 ^ 64" "me_hi m < 2 ^ 64" "0 < me_lo m" "0 < me_hi m"
    using assms by (simp_all add: line_ok_def)
  have nz: "(of_nat (me_lo m) :: u64) \<noteq> 0" "(of_nat (me_hi m) :: u64) \<noteq> 0"
    using b by (simp_all add: word_of_nat_eq_0_iff) (auto dest!: dvd_imp_le)
  have "strtoull16 (maps_line m) = (of_nat (me_lo m), CHR ''-'' # hex (me_hi m) @ CHR '' '' # me_rest m @ [CHR 0x0A])"
    unfolding maps_line_def using b(1) by (intro strtoull16_hex) (simp_all add: hexval_def)
  moreover have "strtoull16 (hex (me_hi m) @ CHR '' '' # me_rest m @ [CHR 0x0A]) =
      (of_nat (me_hi m), CHR '' '' # me_rest m @ [CHR 0x0A])"
    using b(2) by (intro strtoull16_hex) (simp_all add: hexval_def)
  ultimately show ?thesis
    using nz by (simp add: parse_line_def)
qed

text \<open>The loop over the areas themselves.\<close>

fun scan_areas :: "(nat \<Rightarrow> bool) \<Rightarrow> (u64 \<times> u64) list \<Rightarrow> u64 \<times> MemArea list \<Rightarrow> (u64 \<times> MemArea list) option" where
  "scan_areas oom [] st = Some st"
| "scan_areas oom ((lo, hi) # as) st =
     (if lo > CEIL then scan_areas oom as st
      else do { st \<leftarrow> note_area oom lo hi st; scan_areas oom as st })"

definition area_of :: "maps_entry \<Rightarrow> u64 \<times> u64" where
  "area_of m = (of_nat (me_lo m), of_nat (me_hi m))"

lemma scan_maps_areas:
  "\<forall>m \<in> set ms. line_ok m \<Longrightarrow> scan_maps oom (concat (map maps_line ms)) st = scan_areas oom (map area_of ms) st"
proof (induction ms arbitrary: st)
  case Nil
  then show ?case by (subst scan_maps.simps) (simp add: fgets_def)
next
  case (Cons m ms)
  then have m: "line_ok m" and ms: "\<forall>m \<in> set ms. line_ok m" by simp_all
  note IH = Cons.IH [OF ms]
  have "scan_maps oom (maps_line m @ concat (map maps_line ms)) st = scan_areas oom (area_of m # map area_of ms) st"
    unfolding scan_maps.simps [of oom "maps_line m @ concat (map maps_line ms)"] fgets_line [OF m]
    by (simp add: parse_maps_line [OF m] IH area_of_def [of m] split: option.split)
  then show ?case by simp
qed

subsection \<open>The gaps are the unmapped addresses\<close>

definition mapped :: "(u64 \<times> u64) list \<Rightarrow> u64 \<Rightarrow> bool" where
  "mapped as x \<longleftrightarrow> (\<exists>(lo, hi) \<in> set as. lo \<le> x \<and> x < hi)"

definition in_area :: "MemArea \<Rightarrow> u64 \<Rightarrow> bool" where
  "in_area g x \<longleftrightarrow> ma_lo g \<le> x \<and> x < ma_hi g"

definition areas_ok :: "(u64 \<times> u64) list \<Rightarrow> bool" where
  "areas_ok as \<longleftrightarrow> sorted_wrt (\<lambda>a b. fst a \<le> fst b) as \<and> (\<forall>(lo, hi) \<in> set as. lo < hi)"

text \<open>The state of the loop after the areas \<open>as\<close>.\<close>

definition gaps_inv :: "(u64 \<times> u64) list \<Rightarrow> u64 \<times> MemArea list \<Rightarrow> bool" where
  "gaps_inv as = (\<lambda>(prev, gs).
     BASE \<le> prev \<and> (\<forall>(lo, hi) \<in> set as. hi \<le> prev) \<and> (prev = BASE \<or> prev \<in> snd ` set as) \<and>
     (\<forall>g \<in> set gs. ma_lo g < ma_hi g \<and> ma_hi g \<in> fst ` set as \<and> (ma_lo g = BASE \<or> ma_lo g \<in> snd ` set as)) \<and>
     (\<forall>x. (\<exists>g \<in> set gs. in_area g x) \<longleftrightarrow> BASE \<le> x \<and> x < prev \<and> \<not> mapped as x))"

lemma note_area_gaps:
  assumes inv: "gaps_inv as (prev, gs)" and lt: "lo < hi" and sorted: "\<forall>a \<in> set as. fst a \<le> lo"
    and nt: "note_area (\<lambda>_. False) lo hi (prev, gs) = Some (prev', gs')"
  shows "gaps_inv (as @ [(lo, hi)]) (prev', gs')"
proof -
  have prev': "prev' = max prev hi"
    using nt by (auto simp: note_area_def insert_ma_def max_def split: if_splits)
  have m: "mapped (as @ [(lo, hi)]) x \<longleftrightarrow> mapped as x \<or> lo \<le> x \<and> x < hi" for x
    by (auto simp: mapped_def)
  have "(l, h) \<in> set as \<Longrightarrow> h \<le> prev" for l h
    using inv by (auto simp: gaps_inv_def)
  then have below: "mapped as x \<Longrightarrow> x < prev" for x
    by (auto simp: mapped_def intro: less_le_trans)
  have "g \<in> set gs \<Longrightarrow> ma_hi g \<in> fst ` set as" for g
    using inv by (simp add: gaps_inv_def)
  then have "g \<in> set gs \<Longrightarrow> ma_hi g \<le> lo" for g
    using sorted by fastforce
  then have edge: "in_area g x \<Longrightarrow> g \<in> set gs \<Longrightarrow> x < lo" for g x
    unfolding in_area_def using less_le_trans by blast
  have old: "(\<exists>g \<in> set gs. in_area g x) \<longleftrightarrow> BASE \<le> x \<and> x < prev \<and> \<not> mapped as x" for x
    using inv by (simp add: gaps_inv_def)
  have covers: "(\<exists>g \<in> set gs'. in_area g x) \<longleftrightarrow> BASE \<le> x \<and> x < prev' \<and> \<not> mapped (as @ [(lo, hi)]) x" for x
  proof (cases "lo > prev")
    case True
    then have "gs' = \<lparr>ma_lo = prev, ma_hi = lo\<rparr> # gs"
      using nt by (auto simp: note_area_def insert_ma_def)
    then have "(\<exists>g \<in> set gs'. in_area g x) \<longleftrightarrow> prev \<le> x \<and> x < lo \<or> BASE \<le> x \<and> x < prev \<and> \<not> mapped as x"
      using old by (auto simp: in_area_def)
    moreover have "BASE \<le> prev" using inv by (simp add: gaps_inv_def)
    ultimately show ?thesis
      using True lt below [of x] unfolding prev' m by (auto simp: max_def not_le)
  next
    case False
    then have "gs' = gs" using nt by (auto simp: note_area_def)
    moreover have "BASE \<le> x \<Longrightarrow> x < prev \<Longrightarrow> \<not> mapped as x \<Longrightarrow> x < lo"
      using old [of x] edge by blast
    ultimately show ?thesis
      using False lt old below [of x] unfolding prev' m by (auto simp: max_def not_le)
  qed
  have "ma_lo g < ma_hi g \<and> ma_hi g \<in> fst ` set (as @ [(lo, hi)]) \<and>
      (ma_lo g = BASE \<or> ma_lo g \<in> snd ` set (as @ [(lo, hi)]))" if "g \<in> set gs'" for g
  proof (cases "g \<in> set gs")
    case True
    then have "ma_lo g < ma_hi g \<and> ma_hi g \<in> fst ` set as \<and> (ma_lo g = BASE \<or> ma_lo g \<in> snd ` set as)"
      using inv by (simp add: gaps_inv_def)
    then show ?thesis by auto
  next
    case False
    with that nt have "g = \<lparr>ma_lo = prev, ma_hi = lo\<rparr>" "prev < lo"
      by (auto simp: note_area_def insert_ma_def split: if_splits)
    moreover have "prev = BASE \<or> prev \<in> snd ` set as" using inv by (simp add: gaps_inv_def)
    ultimately show ?thesis by auto
  qed
  moreover have "BASE \<le> prev'" "\<forall>(l, h) \<in> set (as @ [(lo, hi)]). h \<le> prev'"
      "prev' = BASE \<or> prev' \<in> snd ` set (as @ [(lo, hi)])"
    using inv unfolding gaps_inv_def prev' by (auto simp: max_def)
  ultimately show ?thesis
    unfolding gaps_inv_def using covers by simp
qed

definition low_areas :: "(u64 \<times> u64) list \<Rightarrow> (u64 \<times> u64) list" where
  "low_areas as = filter (\<lambda>a. \<not> CEIL < fst a) as"

lemma scan_areas_gaps:
  assumes "gaps_inv done st" "areas_ok (done @ as)"
  shows "\<exists>st'. scan_areas (\<lambda>_. False) as st = Some st' \<and> gaps_inv (done @ low_areas as) st'"
  using assms
proof (induction as arbitrary: "done" st)
  case Nil
  then show ?case by (simp add: low_areas_def)
next
  case (Cons a as)
  obtain lo hi where a: "a = (lo, hi)" by (cases a)
  show ?case
  proof (cases "lo > CEIL")
    case True
    then have "areas_ok (done @ as)"
      using Cons.prems(2) by (auto simp: areas_ok_def sorted_wrt_append)
    from Cons.IH [OF Cons.prems(1) this] show ?thesis
      using True a by (simp add: low_areas_def)
  next
    case False
    obtain prev gs where st: "st = (prev, gs)" by (cases st)
    obtain prev' gs' where n: "note_area (\<lambda>_. False) lo hi (prev, gs) = Some (prev', gs')"
      by (cases "prev < lo") (simp_all add: note_area_def insert_ma_def)
    have "gaps_inv (done @ [(lo, hi)]) (prev', gs')"
      using Cons.prems a st n by (intro note_area_gaps [of "done" prev gs]) (auto simp: areas_ok_def sorted_wrt_append)
    moreover have "areas_ok ((done @ [(lo, hi)]) @ as)" using Cons.prems(2) a by simp
    ultimately obtain st' where "scan_areas (\<lambda>_. False) as (prev', gs') = Some st'"
        "gaps_inv ((done @ [(lo, hi)]) @ low_areas as) st'"
      using Cons.IH by blast
    then show ?thesis using False a st n by (simp add: low_areas_def)
  qed
qed

lemma gaps_inv_start: "gaps_inv [] (BASE, [])"
  by (auto simp: gaps_inv_def mapped_def)

text \<open>\<open>gap_list as gs\<close>: the gaps \<open>gs\<close> are the runs of unmapped addresses between
  \<open>BASE\<close> and \<open>CEIL\<close>, each ended by an area or by \<open>CEIL\<close>.\<close>

definition gap_list :: "(u64 \<times> u64) list \<Rightarrow> MemArea list \<Rightarrow> bool" where
  "gap_list as gs \<longleftrightarrow>
     (\<forall>g \<in> set gs. ma_lo g < ma_hi g \<and> (ma_hi g = CEIL \<or> ma_hi g \<in> fst ` set as) \<and>
        (ma_lo g = BASE \<or> ma_lo g \<in> snd ` set as)) \<and>
     (\<forall>x. (\<exists>g \<in> set gs. in_area g x) \<longleftrightarrow> BASE \<le> x \<and> x < CEIL \<and> \<not> mapped as x)"

lemma mapped_low: "x < CEIL \<Longrightarrow> mapped (low_areas as) x = mapped as x"
proof -
  assume "x < CEIL"
  then have "a \<le> x \<Longrightarrow> \<not> CEIL < a" for a by auto
  then show ?thesis unfolding mapped_def low_areas_def by fastforce
qed

text \<open>The list \<open>setup_memory\<close> works with.\<close>

definition gaps_of :: "(u64 \<times> u64) list \<Rightarrow> MemArea list" where
  "gaps_of as = (case scan_areas (\<lambda>_. False) as (BASE, []) of
     Some (prev, gs) \<Rightarrow> if prev < CEIL then \<lparr>ma_lo = prev, ma_hi = CEIL\<rparr> # gs else gs)"

lemma gap_list_gaps_of:
  assumes "areas_ok as"
  shows "gap_list as (gaps_of as)"
proof -
  obtain prev gs where s: "scan_areas (\<lambda>_. False) as (BASE, []) = Some (prev, gs)"
      and inv: "gaps_inv (low_areas as) (prev, gs)"
    using scan_areas_gaps [OF gaps_inv_start, of as] assms by auto
  have sub: "set (low_areas as) \<subseteq> set as" by (auto simp: low_areas_def)
  have hi: "ma_hi g \<le> CEIL" if "g \<in> set gs" for g
  proof -
    have "ma_hi g \<in> fst ` set (low_areas as)" using inv that by (simp add: gaps_inv_def)
    then show ?thesis by (auto simp: low_areas_def)
  qed
  have below: "mapped (low_areas as) x \<Longrightarrow> x < prev" for x
    using inv by (auto simp: gaps_inv_def mapped_def intro: less_le_trans)
  have old: "(\<exists>g \<in> set gs. in_area g x) \<longleftrightarrow> BASE \<le> x \<and> x < prev \<and> \<not> mapped (low_areas as) x" for x
    using inv by (simp add: gaps_inv_def)
  have old_ceil: "g \<in> set gs \<Longrightarrow> in_area g x \<Longrightarrow> x < CEIL" for g x
    using hi by (auto simp: in_area_def intro: less_le_trans)
  have "(\<exists>g \<in> set (gaps_of as). in_area g x) \<longleftrightarrow> BASE \<le> x \<and> x < CEIL \<and> \<not> mapped as x" for x
  proof (cases "prev < CEIL")
    case True
    have "BASE \<le> prev" using inv by (simp add: gaps_inv_def)
    have "(\<exists>g \<in> set (gaps_of as). in_area g x) \<longleftrightarrow> prev \<le> x \<and> x < CEIL \<or> (\<exists>g \<in> set gs. in_area g x)"
      using True by (auto simp: gaps_of_def s in_area_def)
    then show ?thesis
      using \<open>BASE \<le> prev\<close> True old [of x] below [of x] mapped_low [of x as] less_trans [of x prev CEIL] by auto
  next
    case False
    then have "(\<exists>g \<in> set (gaps_of as). in_area g x) \<longleftrightarrow> (\<exists>g \<in> set gs. in_area g x)"
      by (simp add: gaps_of_def s)
    then show ?thesis
      using False old [of x] old_ceil [of _ x] mapped_low [of x as] by auto
  qed
  moreover have "g \<in> set gs \<Longrightarrow> ma_lo g < ma_hi g \<and> ma_hi g \<in> fst ` set as \<and>
      (ma_lo g = BASE \<or> ma_lo g \<in> snd ` set as)" for g
    using inv image_mono [OF sub, of fst] image_mono [OF sub, of snd] unfolding gaps_inv_def by blast
  moreover have "prev = BASE \<or> prev \<in> snd ` set as"
    using inv image_mono [OF sub, of snd] unfolding gaps_inv_def by blast
  ultimately show ?thesis
    unfolding gap_list_def by (auto simp: gaps_of_def s)
qed

text \<open>Two gaps that share an address are the same gap.\<close>

lemma gap_hi_le:
  assumes ok: "areas_ok as" and gl: "gap_list as gs" and g: "g \<in> set gs" "in_area g y" and p: "p \<in> set gs" "in_area p y"
  shows "ma_hi p \<le> ma_hi g"
proof (rule ccontr)
  assume "\<not> ma_hi p \<le> ma_hi g"
  with g(2) p(2) have "in_area p (ma_hi g)" by (auto simp: in_area_def)
  then have "\<not> mapped as (ma_hi g)" "ma_hi g < CEIL"
    using gl p(1) unfolding gap_list_def by blast+
  moreover have "mapped as (ma_hi g) \<or> ma_hi g = CEIL"
    using gl g(1) ok unfolding gap_list_def areas_ok_def mapped_def by fastforce
  ultimately show False by auto
qed

lemma gap_lo_le:
  assumes ok: "areas_ok as" and gl: "gap_list as gs" and g: "g \<in> set gs" "in_area g y" and p: "p \<in> set gs" "in_area p y"
  shows "ma_lo p \<le> ma_lo g"
proof (rule ccontr)
  assume lt: "\<not> ma_lo p \<le> ma_lo g"
  let ?z = "ma_lo p - 1"
  have "ma_lo p \<noteq> 0" using lt by auto
  then have z: "unat ?z = unat (ma_lo p) - 1" "0 < unat (ma_lo p)"
    by (simp_all add: unat_minus_one unat_gt_0)
  have "ma_lo g < ma_lo p" "ma_lo p \<le> y" "y < ma_hi g"
    using lt g(2) p(2) by (auto simp: in_area_def)
  then have "in_area g ?z"
    using z by (auto simp: in_area_def word_le_nat_alt word_less_nat_alt)
  then have un: "\<not> mapped as ?z" "BASE \<le> ?z"
    using gl g(1) unfolding gap_list_def by blast+
  then have "ma_lo p \<noteq> BASE"
    using z by (auto simp: word_le_nat_alt)
  then obtain l where l: "(l, ma_lo p) \<in> set as"
    using gl p(1) unfolding gap_list_def by fastforce
  then have "l < ma_lo p" using ok by (auto simp: areas_ok_def)
  then have "l \<le> ?z" "?z < ma_lo p" using z by (auto simp: word_le_nat_alt word_less_nat_alt)
  with l un(1) show False by (auto simp: mapped_def)
qed

lemma gaps_disjoint:
  assumes "areas_ok as" "gap_list as gs" "g \<in> set gs" "in_area g y" "p \<in> set gs" "in_area p y"
  shows "g = p"
  using gap_hi_le [OF assms] gap_lo_le [OF assms] gap_hi_le [OF assms(1,2,5,6,3,4)] gap_lo_le [OF assms(1,2,5,6,3,4)]
  by (cases g; cases p) simp

subsection \<open>The choice\<close>

lemma down16: "16 * m \<le> (h :: nat) \<Longrightarrow> h div 16 * 16 = (h - 16 * m) div 16 * 16 + 16 * m"
proof -
  assume "16 * m \<le> h"
  then obtain k where "h = k + 16 * m" by (metis le_iff_add add.commute)
  then show ?thesis by (simp add: algebra_simps)
qed

lemma pick_range_inside:
  assumes "ma_lo p < ma_hi p" "mn \<le> ma_hi p - ma_lo p" "16 dvd unat (ma_lo p)" "16 dvd unat mn" "0 < mn"
    "pick_range mn p = (lo, hi)"
  shows "ma_lo p \<le> lo" "hi \<le> ma_hi p" "unat hi = unat lo + unat mn" "16 dvd unat lo"
proof -
  let ?L = "unat (ma_lo p)" and ?H = "unat (ma_hi p)" and ?M = "unat mn"
  obtain l m where lm: "?L = 16 * l" "?M = 16 * m" using assms(3,4) by (elim dvdE)
  have sz: "unat (ma_hi p - ma_lo p) = ?H - ?L" "?L < ?H"
    using assms(1) unat_sub [of "ma_lo p" "ma_hi p"] by (simp_all add: word_less_nat_alt less_imp_le word_le_nat_alt)
  have M: "?M \<le> ?H - ?L" using assms(2) sz by (simp add: word_le_nat_alt)
  have msk: "unat (x AND - 16) = unat x div 16 * 16" for x :: u64
    using unat_and_not_mask [of x 4] by (simp add: mask_eq_exp_minus_1)
  have hi: "unat hi = ?H div 16 * 16" using assms(6) by (auto simp: pick_range_def Let_def msk)
  have "unat (ma_hi p - mn) = ?H - ?M"
    using M sz by (intro unat_sub) (simp add: word_le_nat_alt)
  then have lo: "unat lo = (?H - ?M) div 16 * 16"
    using assms(6) M sz by (auto simp: pick_range_def Let_def msk word_less_nat_alt split: if_splits)
  show "ma_lo p \<le> lo" "hi \<le> ma_hi p" "unat hi = unat lo + unat mn" "16 dvd unat lo"
    using lo hi lm M sz down16 [of m ?H] by (auto simp: word_le_nat_alt)
qed

lemma find_gap_Some: "find_gap mn gs = Some p \<Longrightarrow> p \<in> set gs \<and> mn \<le> ma_hi p - ma_lo p"
  by (induction gs) (auto split: if_splits)

lemma find_gap_None: "find_gap mn gs = None \<longleftrightarrow> (\<forall>p \<in> set gs. \<not> mn \<le> ma_hi p - ma_lo p)"
  by (induction gs) auto

definition apart :: "u64 \<Rightarrow> u64 \<Rightarrow> MemArea \<Rightarrow> bool" where
  "apart lo hi p \<longleftrightarrow> ma_lo p \<ge> hi \<or> ma_hi p \<le> lo"

lemma reserve_all_outcome:
  "reserve_all mmf gs lo hi = (err, done) \<Longrightarrow>
    set done \<subseteq> set (filter (apart lo hi) gs) \<and>
    (if list_all (\<lambda>p. mmf (ma_lo p) (ma_hi p - ma_lo p)) (filter (apart lo hi) gs)
     then err = 0 \<and> done = filter (apart lo hi) gs else err = - 1)"
  by (induction gs arbitrary: err "done") (auto simp: apart_def split: if_splits prod.splits)

definition maps_ok :: "maps_env \<Rightarrow> maps_entry list \<Rightarrow> bool" where
  "maps_ok E ms \<longleftrightarrow> maps_file E = Some (concat (map maps_line ms)) \<and> (\<forall>m \<in> set ms. line_ok m \<and> 4096 dvd me_hi m) \<and>
     areas_ok (map area_of ms) \<and> \<not> line_oom E \<and> cell_oom E = (\<lambda>_. False)"

lemma setup_memory_gaps:
  assumes "maps_ok E ms"
  defines "as \<equiv> map area_of ms"
  shows "gap_list as (gaps_of as)"
    "setup_memory E mn =
      (case find_gap mn (gaps_of as) of
         None \<Rightarrow> Some (- 1, None, [])
       | Some p \<Rightarrow>
           let (lo, hi) = pick_range mn p; (err, done) = reserve_all (map_fixed E) (gaps_of as) lo hi
           in if err \<noteq> 0 then Some (- 1, None, done) else Some (0, Some (lo, hi), done))"
    "p \<in> set (gaps_of as) \<Longrightarrow> 16 dvd unat (ma_lo p)"
proof -
  have ok: "areas_ok as" using assms(1) by (simp add: maps_ok_def as_def)
  then show gl: "gap_list as (gaps_of as)" by (rule gap_list_gaps_of)
  obtain prev gs where s: "scan_areas (\<lambda>_. False) as (BASE, []) = Some (prev, gs)"
    using scan_areas_gaps [OF gaps_inv_start, of as] ok by auto
  then have "scan_maps (cell_oom E) (concat (map maps_line ms)) (BASE, []) = Some (prev, gs)"
    using scan_maps_areas [of ms] assms(1) by (simp add: maps_ok_def as_def)
  moreover have "(if prev < CEIL then insert_ma (cell_oom E) prev CEIL gs else Some gs) = Some (gaps_of as)"
    using assms(1) by (simp add: gaps_of_def s insert_ma_def maps_ok_def)
  ultimately show "setup_memory E mn =
      (case find_gap mn (gaps_of as) of
         None \<Rightarrow> Some (- 1, None, [])
       | Some p \<Rightarrow>
           let (lo, hi) = pick_range mn p; (err, done) = reserve_all (map_fixed E) (gaps_of as) lo hi
           in if err \<noteq> 0 then Some (- 1, None, done) else Some (0, Some (lo, hi), done))"
    using assms(1) by (simp add: setup_memory_def maps_ok_def)
  assume "p \<in> set (gaps_of as)"
  then consider "ma_lo p = BASE" | "ma_lo p \<in> snd ` set as" using gl unfolding gap_list_def by blast
  then show "16 dvd unat (ma_lo p)"
  proof cases
    case 1
    then show ?thesis by (simp add: BASE_def)
  next
    case 2
    then obtain m where m: "m \<in> set ms" "ma_lo p = of_nat (me_hi m)" by (auto simp: as_def area_of_def)
    then have "unat (ma_lo p) = me_hi m" "4096 dvd me_hi m"
      using assms(1) by (auto simp: maps_ok_def line_ok_def unat_of_nat take_bit_nat_eq_self)
    then show ?thesis using dvd_trans [of 16 4096 "me_hi m"] by simp
  qed
qed

lemma setup_memory_outcome:
  assumes "maps_ok E ms" and "0 < mn" and "16 dvd unat mn"
  shows "\<exists>err out done. setup_memory E mn = Some (err, out, done) \<and>
    (case out of
       None \<Rightarrow> err = - 1
     | Some (lo, hi) \<Rightarrow> err = 0 \<and> 16 dvd unat lo \<and> unat hi = unat lo + unat mn \<and>
         (\<exists>gap. (\<forall>x. lo \<le> x \<and> x < hi \<longrightarrow> in_area gap x) \<and>
            (\<forall>x. in_area gap x \<longrightarrow> BASE \<le> x \<and> x < CEIL \<and> \<not> mapped (map area_of ms) x) \<and>
            (\<forall>x. BASE \<le> x \<and> x < CEIL \<and> \<not> mapped (map area_of ms) x \<and> \<not> in_area gap x \<longrightarrow>
               (\<exists>g \<in> set done. in_area g x))))"
proof (cases "find_gap mn (gaps_of (map area_of ms))")
  case None
  then show ?thesis using setup_memory_gaps(2) [OF assms(1), of mn] by simp
next
  case (Some p)
  let ?as = "map area_of ms"
  note G = setup_memory_gaps [OF assms(1)]
  have p: "p \<in> set (gaps_of ?as)" "mn \<le> ma_hi p - ma_lo p" using find_gap_Some [OF Some] by auto
  then have ord: "ma_lo p < ma_hi p" using G(1) by (simp add: gap_list_def)
  obtain lo hi where lh: "pick_range mn p = (lo, hi)" by fastforce
  obtain err "done" where r: "reserve_all (map_fixed E) (gaps_of ?as) lo hi = (err, done)" by fastforce
  note pick = pick_range_inside [OF ord p(2) G(3) [OF p(1)] assms(3,2) lh]
  have run: "setup_memory E mn = (if err \<noteq> 0 then Some (- 1, None, done) else Some (0, Some (lo, hi), done))"
    using G(2) [of mn] Some lh r by simp
  have "in_area p x" if "lo \<le> x" "x < hi" for x
    using that pick(1,2) by (auto simp: in_area_def)
  moreover have "BASE \<le> x \<and> x < CEIL \<and> \<not> mapped ?as x" if "in_area p x" for x
    using G(1) p(1) that unfolding gap_list_def by blast
  moreover have "\<exists>g \<in> set done. in_area g x"
    if x: "BASE \<le> x" "x < CEIL" "\<not> mapped ?as x" "\<not> in_area p x" and "err = 0" for x
  proof -
    obtain g where g: "g \<in> set (gaps_of ?as)" "in_area g x" using G(1) x unfolding gap_list_def by blast
    have "apart lo hi g"
    proof (rule ccontr)
      assume "\<not> apart lo hi g"
      then have a: "ma_lo g < hi" "lo < ma_hi g" by (auto simp: apart_def)
      let ?y = "max lo (ma_lo g)"
      have "ma_lo g < ma_hi g" using G(1) g(1) by (simp add: gap_list_def)
      moreover have "lo < hi" using pick(3) assms(2) by (simp add: word_less_nat_alt)
      ultimately have "in_area g ?y" "in_area p ?y"
        using a pick(1,2) by (auto simp: in_area_def max_def)
      then have "g = p"
        using assms(1) by (intro gaps_disjoint [OF _ G(1) g(1) _ p(1)]) (auto simp: maps_ok_def)
      with g(2) x(4) show False by simp
    qed
    then have "g \<in> set done"
      using reserve_all_outcome [OF r] g(1) \<open>err = 0\<close> by (auto split: if_splits)
    then show ?thesis using g(2) by blast
  qed
  ultimately show ?thesis using run pick(3,4) by (cases "err = 0") (auto intro!: exI [of _ p])
qed

text \<open>C21: for a well-formed maps file \<open>setup_memory\<close> is defined; when it answers 0, the range it
  stores is 16-byte aligned, has exactly the size asked for, and is unmapped, and every unmapped
  address of the window outside the gap it was taken from is reserved; when it answers -1, it
  stores nothing.\<close>

theorem setup_memory_correct:
  assumes "maps_ok E ms" and "0 < mn" and "16 dvd unat mn"
  shows "\<exists>err out done. setup_memory E mn = Some (err, out, done) \<and>
    (case out of
       None \<Rightarrow> err = - 1
     | Some (lo, hi) \<Rightarrow> err = 0 \<and> 16 dvd unat lo \<and> unat hi = unat lo + unat mn \<and>
         (\<exists>gap. (\<forall>x. lo \<le> x \<and> x < hi \<longrightarrow> in_area gap x) \<and>
            (\<forall>x. in_area gap x \<longrightarrow> BASE \<le> x \<and> x < CEIL \<and> \<not> mapped (map area_of ms) x) \<and>
            (\<forall>x. BASE \<le> x \<and> x < CEIL \<and> \<not> mapped (map area_of ms) x \<and> \<not> in_area gap x \<longrightarrow>
               (\<exists>g \<in> set done. in_area g x))))"
  by (rule setup_memory_outcome [OF assms])

text \<open>A process with a library in the window and its stack near the top of it.\<close>

definition demo_maps :: "nat \<Rightarrow> maps_entry list" where
  "demo_maps sp = [\<lparr>me_lo = 0x7f0000000000, me_hi = 0x7f0000100000, me_rest = ''r-xp 0''\<rparr>,
     \<lparr>me_lo = sp - 0x21000, me_hi = sp, me_rest = ''rw-p 0''\<rparr>]"

definition demo_env :: "nat \<Rightarrow> (u64 \<Rightarrow> u64 \<Rightarrow> bool) \<Rightarrow> maps_env" where
  "demo_env sp mmf = \<lparr>maps_file = Some (concat (map maps_line (demo_maps sp))), line_oom = False,
     cell_oom = (\<lambda>_. False), map_fixed = mmf\<rparr>"

lemma hex_length_aux: "n < 16 ^ k \<Longrightarrow> 0 < k \<Longrightarrow> length (hex n) \<le> k"
proof (induction k arbitrary: n)
  case (Suc k)
  show ?case
  proof (cases "n < 16")
    case False
    then have "0 < k" using Suc.prems(1) by (cases k) simp_all
    moreover have "n div 16 < 16 ^ k"
      using Suc.prems(1) by (intro less_mult_imp_div_less) (simp add: mult.commute)
    ultimately have "length (hex (n div 16)) \<le> k" by (intro Suc.IH)
    then show ?thesis using False by (subst hex.simps) simp
  qed (subst hex.simps, simp)
qed simp

lemma maps_ok_demo:
  assumes "sp \<in> {0x7fff00000000, 0x7ffff0000000}"
  shows "maps_ok (demo_env sp mmf) (demo_maps sp)"
proof -
  have "line_ok m" if "m \<in> set (demo_maps sp)" for m
  proof -
    have "me_lo m < 16 ^ 12" "me_hi m < 16 ^ 12" using that assms by (auto simp: demo_maps_def)
    then have "length (hex (me_lo m)) \<le> 12" "length (hex (me_hi m)) \<le> 12" by (auto intro: hex_length_aux)
    then show ?thesis
      using that assms by (auto simp: demo_maps_def line_ok_def maps_line_def bufsz_def)
  qed
  moreover have "areas_ok (map area_of (demo_maps sp))"
    using assms by (auto simp: areas_ok_def demo_maps_def area_of_def)
  moreover have "\<forall>m \<in> set (demo_maps sp). 4096 dvd me_hi m"
    using assms by (auto simp: demo_maps_def)
  ultimately show ?thesis by (simp add: maps_ok_def demo_env_def)
qed

theorem setup_memory_correct_witness:
  "\<exists>err out done. setup_memory (demo_env 0x7fff00000000 (\<lambda>_ _. True)) 0x40000000 = Some (err, out, done) \<and>
    (case out of None \<Rightarrow> err = - 1 | Some (lo, hi) \<Rightarrow> err = 0 \<and> unat hi = unat lo + 0x40000000)"
proof -
  have "maps_ok (demo_env 0x7fff00000000 (\<lambda>_ _. True)) (demo_maps 0x7fff00000000)" by (rule maps_ok_demo) simp
  from setup_memory_correct [OF this, where mn = "0x40000000"]
  obtain err out "done" where s: "setup_memory (demo_env 0x7fff00000000 (\<lambda>_ _. True)) 0x40000000 = Some (err, out, done)"
      "case out of None \<Rightarrow> err = - 1 | Some (lo, hi) \<Rightarrow> err = 0 \<and> unat hi = unat lo + 0x40000000"
    by (fastforce split: option.splits)
  then show ?thesis by blast
qed

lemma gap_size: "in_area g x \<Longrightarrow> unat (ma_hi g - ma_lo g) = unat (ma_hi g) - unat (ma_lo g)"
  using unat_sub [of "ma_lo g" "ma_hi g"] by (auto simp: in_area_def word_le_nat_alt word_less_nat_alt)

lemma setup_memory_ok_iff:
  assumes "maps_ok E ms" "\<forall>lo len. map_fixed E lo len"
  shows "(\<exists>out done. setup_memory E mn = Some (0, out, done)) \<longleftrightarrow> find_gap mn (gaps_of (map area_of ms)) \<noteq> None"
proof -
  have "fst (reserve_all (map_fixed E) gs lo hi) = 0" for gs lo hi
    using reserve_all_outcome [of "map_fixed E" gs lo hi "fst (reserve_all (map_fixed E) gs lo hi)"] assms(2)
    by (simp add: list_all_iff prod_eq_iff)
  then show ?thesis
    unfolding setup_memory_gaps(2) [OF assms(1)] by (auto simp: Let_def case_prod_beta split: option.splits)
qed

text \<open>A run of unmapped addresses of the window, as long as asked for, and the gap that holds it.\<close>

definition free_run :: "(u64 \<times> u64) list \<Rightarrow> u64 \<Rightarrow> u64 \<Rightarrow> bool" where
  "free_run as mn a \<longleftrightarrow> BASE \<le> a \<and> unat a + unat mn \<le> unat CEIL \<and>
     (\<forall>x. a \<le> x \<and> unat x < unat a + unat mn \<longrightarrow> \<not> mapped as x)"

lemma gap_free_run:
  assumes gl: "gap_list as (gaps_of as)" and p: "find_gap mn (gaps_of as) = Some p"
  shows "free_run as mn (ma_lo p)"
proof -
  note f = find_gap_Some [OF p]
  then have lt: "ma_lo p < ma_hi p" using gl by (simp add: gap_list_def)
  have in_p: "BASE \<le> x \<and> x < CEIL \<and> \<not> mapped as x" if "in_area p x" for x
    using gl f that unfolding gap_list_def by blast
  have last: "unat (ma_hi p - 1) = unat (ma_hi p) - 1" using lt by (intro unat_minus_one) auto
  have self: "in_area p (ma_lo p)" "in_area p (ma_hi p - 1)"
    using lt last by (auto simp: in_area_def word_le_nat_alt word_less_nat_alt)
  have "unat mn \<le> unat (ma_hi p) - unat (ma_lo p)"
    using f gap_size [OF self(1)] by (simp add: word_le_nat_alt)
  moreover have "unat (ma_hi p) \<le> unat CEIL"
    using in_p [OF self(2)] lt last by (auto simp: word_less_nat_alt)
  ultimately have "unat (ma_lo p) + unat mn \<le> unat CEIL" "unat (ma_lo p) + unat mn \<le> unat (ma_hi p)"
    using lt by (auto simp: word_less_nat_alt)
  then show ?thesis
    using in_p [OF self(1)] in_p by (auto simp: free_run_def in_area_def word_less_nat_alt)
qed

lemma free_run_gap:
  assumes gl: "gap_list as (gaps_of as)" and ok: "areas_ok as" and mn: "0 < mn" and run: "free_run as mn a"
  shows "find_gap mn (gaps_of as) \<noteq> None"
proof -
  have a: "BASE \<le> a" "unat a + unat mn \<le> unat CEIL" "\<And>x. a \<le> x \<Longrightarrow> unat x < unat a + unat mn \<Longrightarrow> \<not> mapped as x"
    using run by (auto simp: free_run_def)
  have "0 < unat mn" using mn by (simp add: unat_gt_0 word_neq_0_conv)
  then have "a < CEIL" "\<not> mapped as a" using a by (auto simp: word_less_nat_alt)
  then obtain g where g: "g \<in> set (gaps_of as)" "in_area g a" using gl a(1) unfolding gap_list_def by blast
  have "unat a + unat mn \<le> unat (ma_hi g)"
  proof (rule ccontr)
    assume c: "\<not> unat a + unat mn \<le> unat (ma_hi g)"
    have "a \<le> ma_hi g" using g(2) by (auto simp: in_area_def)
    with c a(3) [of "ma_hi g"] have "\<not> mapped as (ma_hi g)" by simp
    moreover have "ma_hi g \<noteq> CEIL" using c a(2) by auto
    ultimately show False
      using gl g(1) ok unfolding gap_list_def areas_ok_def mapped_def by fastforce
  qed
  then have "mn \<le> ma_hi g - ma_lo g"
    using gap_size [OF g(2)] g(2) by (auto simp: in_area_def word_le_nat_alt)
  then show ?thesis using g(1) find_gap_None by auto
qed

text \<open>C37: the search is complete: if every reservation succeeds, \<open>setup_memory\<close> answers 0
  exactly if the window has a run of unmapped addresses of the size asked for.\<close>

theorem setup_memory_complete:
  assumes "maps_ok E ms" and "0 < mn" and "\<forall>lo len. map_fixed E lo len"
  shows "(\<exists>out done. setup_memory E mn = Some (0, out, done)) \<longleftrightarrow>
    (\<exists>a. BASE \<le> a \<and> unat a + unat mn \<le> unat CEIL \<and>
       (\<forall>x. a \<le> x \<and> unat x < unat a + unat mn \<longrightarrow> \<not> mapped (map area_of ms) x))"
proof -
  have ok: "areas_ok (map area_of ms)" using assms(1) by (simp add: maps_ok_def)
  have "find_gap mn (gaps_of (map area_of ms)) \<noteq> None \<longleftrightarrow> (\<exists>a. free_run (map area_of ms) mn a)"
    using gap_free_run [OF setup_memory_gaps(1) [OF assms(1)]]
      free_run_gap [OF setup_memory_gaps(1) [OF assms(1)] ok assms(2)]
    by blast
  then show ?thesis using setup_memory_ok_iff [OF assms(1,3), of mn] by (simp add: free_run_def)
qed

theorem setup_memory_complete_witness:
  "(\<exists>out done. setup_memory (demo_env 0x7fff00000000 (\<lambda>_ _. True)) 0x40000000 = Some (0, out, done)) = True"
proof -
  let ?E = "demo_env 0x7fff00000000 (\<lambda>_ _. True)"
  have "maps_ok ?E (demo_maps 0x7fff00000000)" by (rule maps_ok_demo) simp
  moreover have "\<forall>lo len. map_fixed ?E lo len" by (simp add: demo_env_def)
  moreover have "\<exists>a. BASE \<le> a \<and> unat a + unat (0x40000000 :: u64) \<le> unat CEIL \<and>
      (\<forall>x. a \<le> x \<and> unat x < unat a + unat (0x40000000 :: u64) \<longrightarrow> \<not> mapped (map area_of (demo_maps 0x7fff00000000)) x)"
    by (rule exI [of _ BASE])
      (auto simp: BASE_def CEIL_def mapped_def demo_maps_def area_of_def word_le_nat_alt word_less_nat_alt)
  ultimately show ?thesis
    using setup_memory_complete [of ?E "demo_maps 0x7fff00000000" "0x40000000"] by simp
qed

text \<open>The gap above the highest area ends at \<open>CEIL\<close>, past what the kernel maps: when that
  gap is too small to be chosen, its reservation fails and with it \<open>setup_memory\<close>, however
  much room there is below.\<close>

lemma setup_memory_top_gap:
  assumes "maps_ok E ms" and "0 < mn"
    and "\<forall>lo len. 0x7ffffffff000 < unat lo + unat len \<longrightarrow> \<not> map_fixed E lo len"
    and "\<forall>(l, h) \<in> set (map area_of ms). l \<le> CEIL \<longrightarrow> h < CEIL"
    and "\<exists>(l, h) \<in> set (map area_of ms). l \<le> CEIL \<and> BASE \<le> h \<and> unat CEIL < unat h + unat mn"
  shows "\<exists>done. setup_memory E mn = Some (- 1, None, done)"
proof -
  let ?as = "map area_of ms"
  note G = setup_memory_gaps [OF assms(1)]
  have ok: "areas_ok ?as" using assms(1) by (simp add: maps_ok_def)
  obtain prev gs where s: "scan_areas (\<lambda>_. False) ?as (BASE, []) = Some (prev, gs)"
      and inv: "gaps_inv (low_areas ?as) (prev, gs)"
    using scan_areas_gaps [OF gaps_inv_start, of ?as] ok by auto
  have hi_prev: "(l, h) \<in> set ?as \<Longrightarrow> l \<le> CEIL \<Longrightarrow> h \<le> prev" for l h
    using inv by (auto simp: gaps_inv_def low_areas_def not_less)
  have "prev = BASE \<or> prev \<in> snd ` set (low_areas ?as)" using inv by (simp add: gaps_inv_def)
  then have prev: "prev < CEIL"
    using assms(4) by (auto simp: low_areas_def BASE_def CEIL_def not_less)
  let ?t = "\<lparr>ma_lo = prev, ma_hi = CEIL\<rparr>"
  have gaps: "gaps_of ?as = ?t # gs" by (simp add: gaps_of_def s prev)
  have sz: "unat (CEIL - prev) = unat CEIL - unat prev" "unat prev < unat CEIL"
    using prev unat_sub [of prev CEIL] by (simp_all add: word_less_nat_alt word_le_nat_alt)
  have "unat CEIL < unat prev + unat mn"
    using assms(5) hi_prev by (fastforce simp: word_le_nat_alt)
  then have small: "\<not> mn \<le> CEIL - prev" using sz by (simp add: word_le_nat_alt)
  show ?thesis
  proof (cases "find_gap mn gs")
    case None
    then show ?thesis using G(2) [of mn] gaps small by simp
  next
    case (Some p)
    then have p: "p \<in> set gs" "mn \<le> ma_hi p - ma_lo p" using find_gap_Some by auto
    have "ma_hi p \<in> fst ` set (low_areas ?as)" using inv p(1) by (simp add: gaps_inv_def)
    then obtain a where "a \<in> set (low_areas ?as)" "ma_hi p = fst a" by blast
    then have h: "(ma_hi p, snd a) \<in> set ?as" "ma_hi p \<le> CEIL"
      unfolding low_areas_def by (simp_all only: set_filter mem_Collect_eq prod.collapse not_less)
    then have "ma_hi p < snd a" "snd a \<le> prev" using ok hi_prev by (auto simp: areas_ok_def)
    then have below: "ma_hi p \<le> prev" by simp
    obtain lo hi where lh: "pick_range mn p = (lo, hi)" by fastforce
    have "hi \<le> ma_hi p" using lh by (auto simp: pick_range_def Let_def word_and_le2)
    with below have "hi \<le> prev" by simp
    then have "reserve_all (map_fixed E) (?t # gs) lo hi = (- 1, [])"
      using assms(3) sz by (simp add: CEIL_def)
    then show ?thesis using G(2) [of mn] gaps small Some lh by simp
  qed
qed

text \<open>Where the buffer cannot be allocated or a line is not understood, the status is read
  from a variable that was never set.\<close>

lemma setup_memory_indeterminate:
  assumes "maps_file E = Some content"
    and "line_oom E \<or> (\<exists>line rest. fgets (bufsz - 1) content = Some (line, rest) \<and> parse_line line = L_bad)"
  shows "setup_memory E mn = None"
  using assms scan_maps.simps [of "cell_oom E" content "(BASE, [])"] by (auto simp: setup_memory_def)

end
