(* ===== verification/Runtime_Start.thy ===== *)
theory Runtime_Start
  imports Runtime_Pool Runtime_Mapping
begin

text \<open>
  \<^verbatim>\<open>runtime/main.c\<close>: the constructor that finds room for the pool and gives the main
  thread its shadow stack, the initialisation of a further thread, and the replacement of
  \<open>pthread_create\<close> with its trampoline.

  A process is the pool, the \<open>GS\<close> base of every thread, the wrapper structures alive on the
  heap and the threads created but not yet running. \<open>exit(EXIT_FAILURE)\<close> ends the process:
  it is the value \<open>Exit\<close>, apart from undefined behaviour. The answers of
  \<open>arch_prctl\<close>, \<open>malloc\<close>, \<open>dlsym\<close> and the real \<open>pthread_create\<close> are
  parameters.
\<close>

datatype 'a outcome = Exit | Cont 'a

record wrapper_args =
  original_routine :: u64
  original_arg :: u64

record process = pool +
  gs_base :: "nat \<Rightarrow> u64"
  wrappers :: "u64 \<Rightarrow> wrapper_args option"
  spawned :: "(nat \<times> u64) list"

definition SHADOW_SIZE :: u64 where "SHADOW_SIZE = 1024 * 1024"
definition MEM_SIZE :: u64 where "MEM_SIZE = 1024 * 1024 * 1024"

text \<open>\<open>prctl t\<close>: whether \<open>arch_prctl(ARCH_SET_GS)\<close> succeeds in thread \<open>t\<close>.\<close>

definition get_chunk :: "(nat \<Rightarrow> bool) \<Rightarrow> nat \<Rightarrow> u64 \<Rightarrow> process \<Rightarrow> process outcome" where
  "get_chunk prctl t chunk s =
     (if prctl t then Cont (s\<lparr>gs_base := (gs_base s)(t := chunk)\<rparr>) else Exit)"

definition shadow_stack_thread_init :: "(nat \<Rightarrow> bool) \<Rightarrow> nat \<Rightarrow> process \<Rightarrow> process outcome option" where
  "shadow_stack_thread_init prctl t s = do {
     (chunk, s) \<leftarrow> MemPoolAlloc s;
     if chunk = 0 then Some Exit else Some (get_chunk prctl t chunk s) }"

text \<open>The main thread is thread 0. The bounds are read only after \<open>setup_memory\<close> answered
  0, which stores them.\<close>

definition shadow_stack_init ::
  "maps_env \<Rightarrow> (u64 \<Rightarrow> u64 \<Rightarrow> u64 option) \<Rightarrow> (nat \<Rightarrow> bool) \<Rightarrow> process \<Rightarrow> process outcome option" where
  "shadow_stack_init E mm prctl s = do {
     (err, out, reserved) \<leftarrow> setup_memory E MEM_SIZE;
     if err \<noteq> 0 then Some Exit
     else do {
       (lo, hi) \<leftarrow> out;
       (case MemPoolInit mm lo SHADOW_SIZE MEM_SIZE s of
          (err, s) \<Rightarrow>
            if err < 0 then Some Exit
            else do {
              (main_chunk, s) \<leftarrow> MemPoolAlloc s;
              if main_chunk = 0 then Some Exit else Some (get_chunk prctl 0 main_chunk s) }) } }"

text \<open>The function that gives a stack back; nothing in the runtime calls it.\<close>

definition put_chunk :: "u64 \<Rightarrow> process \<Rightarrow> process option" where
  "put_chunk chunk s = MemPoolRelease chunk s"

text \<open>The trampoline yields the routine it calls and the argument it passes.\<close>

definition thread_trampoline :: "(nat \<Rightarrow> bool) \<Rightarrow> nat \<Rightarrow> u64 \<Rightarrow> process \<Rightarrow> (u64 \<times> u64 \<times> process) outcome option" where
  "thread_trampoline prctl t w_args s = do {
     r \<leftarrow> shadow_stack_thread_init prctl t s;
     (case r of
        Exit \<Rightarrow> Some Exit
      | Cont s \<Rightarrow> do {
          w \<leftarrow> wrappers s w_args;
          Some (Cont (original_routine w, original_arg w, s\<lparr>wrappers := (wrappers s)(w_args := None)\<rparr>)) }) }"

text \<open>\<open>mal\<close> is the answer of \<open>malloc\<close>, 0 for \<open>NULL\<close>; \<open>real\<close> the status of the
  library's \<open>pthread_create\<close>, \<open>None\<close> when \<open>dlsym\<close> found no such symbol (the call
  through the null pointer is undefined). A status of 0 means that thread \<open>t\<close> will run the
  trampoline on the wrapper.\<close>

definition pthread_create ::
  "u64 \<Rightarrow> int option \<Rightarrow> nat \<Rightarrow> u64 \<Rightarrow> u64 \<Rightarrow> process \<Rightarrow> (int \<times> process) option" where
  "pthread_create mal real t start_routine arg s =
     (if mal = 0 then Some (- 1, s)
      else do {
        let s = s\<lparr>wrappers := (wrappers s)(mal \<mapsto> \<lparr>original_routine = start_routine, original_arg = arg\<rparr>)\<rparr>;
        ret \<leftarrow> real;
        Some (ret, if ret \<noteq> 0 then s\<lparr>wrappers := (wrappers s)(mal := None)\<rparr>
                   else s\<lparr>spawned := spawned s @ [(t, mal)]\<rparr>) })"

subsection \<open>Threads never give their stacks back\<close>

text \<open>What a call of \<open>put_chunk\<close> at the end of a thread would achieve: the next thread
  gets the stack, and the free list and the fresh area are as before.\<close>

lemma put_chunk_reuse:
  assumes "in_pool s c" "c \<noteq> 0" "prctl t"
  shows "\<exists>s1 s2. put_chunk c s = Some s1 \<and> shadow_stack_thread_init prctl t s1 = Some (Cont s2) \<and>
    gs_base s2 = (gs_base s)(t := c) \<and> freelist s2 = freelist s \<and> freearea_start s2 = freearea_start s"
  using assms
  by (simp add: put_chunk_def MemPoolRelease_def shadow_stack_thread_init_def MemPoolAlloc_def recycle_chunk_def
      recycle_locked_def init_chunk_def get_chunk_def in_pool_def Let_def)

lemma thread_init_fresh:
  assumes "pool_rel s \<lparr>afree = [], anext = k\<rparr>" "unat (freearea_start s) + unat (chunk_size s) < 2 ^ 64" "prctl t"
  shows "\<exists>r. shadow_stack_thread_init prctl t s = Some r \<and>
    (if k < pool_cap s
     then \<exists>s'. r = Cont s' \<and> same_area s s' \<and> pool_rel s' \<lparr>afree = [], anext = Suc k\<rparr> \<and>
       gs_base s' = (gs_base s)(t := chunk_at s k) \<and> wrappers s' = wrappers s \<and> spawned s' = spawned s
     else r = Exit)"
proof -
  obtain c q where q: "MemPoolAlloc s = Some (c, q)" "same_area s q" "pool_rel q \<lparr>afree = [], anext = Suc k\<rparr>"
      "c = (if k < pool_cap s then chunk_at s k else 0)"
    using MemPoolAlloc_refines [OF assms(1,2)] by (auto split: if_splits)
  have fr: "gs_base q = gs_base s" "wrappers q = wrappers s" "spawned q = spawned s"
    using q(1) by (auto simp: MemPoolAlloc_def recycle_chunk_def recycle_locked_def alloc_chunk_def init_chunk_def
        fetch_add_def Let_def bind_eq_Some_conv split: if_splits)
  have nz: "k < pool_cap s \<Longrightarrow> chunk_at s k \<noteq> 0"
    using assms(1) geometry_chunk(3) [of s k k] by (simp add: pool_rel_def)
  let ?s = "q\<lparr>gs_base := (gs_base q)(t := chunk_at s k)\<rparr>"
  have "chunk_at ?s = chunk_at q" "geometry ?s (Suc k)" if "geometry q (Suc k)"
    using that by (simp_all add: geometry_def chunk_at_def fun_eq_iff)
  then have "pool_rel ?s \<lparr>afree = [], anext = Suc k\<rparr>" "same_area s ?s"
    using q(2,3) by (simp_all add: pool_rel_def same_area_def)
  then show ?thesis
    using q(1,4) nz assms(3) fr by (auto simp: shadow_stack_thread_init_def get_chunk_def)
qed

text \<open>Threads started one after the other.\<close>

fun start_threads :: "(nat \<Rightarrow> bool) \<Rightarrow> nat list \<Rightarrow> process \<Rightarrow> process outcome option" where
  "start_threads prctl [] s = Some (Cont s)"
| "start_threads prctl (t # ts) s = do {
     r \<leftarrow> shadow_stack_thread_init prctl t s;
     (case r of Exit \<Rightarrow> Some Exit | Cont s \<Rightarrow> start_threads prctl ts s) }"

definition started :: "process \<Rightarrow> nat \<Rightarrow> bool" where
  "started s k \<longleftrightarrow> pool_rel s \<lparr>afree = [], anext = k\<rparr> \<and> chunk_size s = SHADOW_SIZE \<and> pool_cap s = 1023 \<and>
     k \<le> 1023 \<and> unat (mem_pool s) + unat MEM_SIZE < 2 ^ 64"

lemma started_frame [simp]:
  "started (s\<lparr>wrappers := w\<rparr>) k = started s k" "started (s\<lparr>wrappers := w, spawned := l\<rparr>) k = started s k"
  unfolding started_def pool_rel_def geometry_def pool_cap_def pool_len_def chunk_at_def by simp_all

lemma started_room: "started s k \<Longrightarrow> unat (freearea_start s) + unat (chunk_size s) < 2 ^ 64"
  using unat_chunk_at [of s k] by (auto simp: started_def pool_rel_def geometry_def SHADOW_SIZE_def MEM_SIZE_def)

lemma start_threads_outcome:
  assumes "started s k" "distinct ts" "\<forall>t. prctl t"
  shows "if k + length ts \<le> 1023
    then \<exists>s'. start_threads prctl ts s = Some (Cont s') \<and> map (gs_base s') ts = map (chunk_at s) [k..<k + length ts] \<and>
      (\<forall>u. u \<notin> set ts \<longrightarrow> gs_base s' u = gs_base s u)
    else start_threads prctl ts s = Some Exit"
  using assms
proof (induction ts arbitrary: s k)
  case Nil
  then show ?case by (simp add: started_def)
next
  case (Cons t ts)
  have rel: "pool_rel s \<lparr>afree = [], anext = k\<rparr>" and cap: "pool_cap s = 1023"
    using Cons.prems(1) by (simp_all add: started_def)
  note f = thread_init_fresh [OF rel started_room [OF Cons.prems(1)], of prctl t] 
  show ?case
  proof (cases "k < 1023")
    case False
    then show ?thesis using f cap Cons.prems(1,3) by (auto simp: started_def)
  next
    case True
    then obtain q where q: "shadow_stack_thread_init prctl t s = Some (Cont q)" "same_area s q"
        "pool_rel q \<lparr>afree = [], anext = Suc k\<rparr>" "gs_base q = (gs_base s)(t := chunk_at s k)"
      using f cap Cons.prems(3) by auto
    have at: "chunk_at q = chunk_at s" using same_area_facts(1) [OF q(2)] by (simp add: fun_eq_iff)
    have "started q (Suc k)"
      using Cons.prems(1) q(2,3) True same_area_facts(2) [OF q(2)] by (simp add: started_def same_area_def)
    then have IH: "if Suc k + length ts \<le> 1023
      then \<exists>s'. start_threads prctl ts q = Some (Cont s') \<and> map (gs_base s') ts = map (chunk_at s) [Suc k..<Suc k + length ts] \<and>
        (\<forall>u. u \<notin> set ts \<longrightarrow> gs_base s' u = gs_base q u)
      else start_threads prctl ts q = Some Exit"
      using Cons.IH [of q "Suc k", unfolded at] Cons.prems(2,3) by (simp del: upt_Suc)
    then show ?thesis
      using q(1,4) Cons.prems(2) by (auto simp: upt_conv_Cons simp del: upt_Suc split: if_splits)
  qed
qed

lemma shadow_stack_init_outcome:
  assumes "mmap_ok mm" "setup_memory E MEM_SIZE = Some (0, Some (lo, hi), done)" "mm lo MEM_SIZE \<noteq> None" "\<forall>t. prctl t"
  shows "\<exists>s. shadow_stack_init E mm prctl p0 = Some (Cont s) \<and> started s 1 \<and> gs_base s 0 = chunk_at s 0"
proof -
  obtain m where m: "mm lo MEM_SIZE = Some m" using assms(3) by auto
  obtain p where p: "MemPoolInit mm lo SHADOW_SIZE MEM_SIZE p0 = (0, p)" by (simp add: MemPoolInit_def m)
  note init = MemPoolInit_rel [OF assms(1) p]
  have bnd: "unat m + unat MEM_SIZE < 2 ^ 64" using assms(1) m unfolding mmap_ok_def by blast
  have st: "started p 0"
    using init bnd p m by (auto simp: started_def SHADOW_SIZE_def MEM_SIZE_def MemPoolInit_def)
  obtain q where q: "shadow_stack_thread_init prctl 0 p = Some (Cont q)" "same_area p q"
      "pool_rel q \<lparr>afree = [], anext = Suc 0\<rparr>" "gs_base q = (gs_base p)(0 := chunk_at p 0)"
    using thread_init_fresh [of p 0 prctl 0] started_room [OF st] st assms(4) by (auto simp: started_def)
  have "shadow_stack_init E mm prctl p0 = Some (Cont q)"
    using assms(2) p q(1) by (simp add: shadow_stack_init_def shadow_stack_thread_init_def)
  moreover have "started q 1"
    using st q(2,3) same_area_facts(2) [OF q(2)] by (simp add: started_def same_area_def)
  moreover have "gs_base q 0 = chunk_at q 0" using q(4) same_area_facts(1) [OF q(2)] by simp
  ultimately show ?thesis by blast
qed

text \<open>C38: once the constructor has run, the main thread and the first 1022 further threads get
  the consecutive chunks of the pool as their shadow stacks; nothing gives a chunk back, so the
  next thread ends the process, whether or not earlier threads still run.\<close>

theorem runtime_thread_limit:
  assumes "mmap_ok mm" and "setup_memory E MEM_SIZE = Some (0, Some (lo, hi), done)" and "mm lo MEM_SIZE \<noteq> None"
    and "\<forall>t. prctl t" and "distinct (0 # ts)"
  shows "\<exists>s. shadow_stack_init E mm prctl p0 = Some (Cont s) \<and>
    (if length ts \<le> 1022
     then \<exists>s'. start_threads prctl ts s = Some (Cont s') \<and>
       map (gs_base s') (0 # ts) = map (chunk_at s) [0..<Suc (length ts)]
     else start_threads prctl ts s = Some Exit)"
proof -
  obtain s where s: "shadow_stack_init E mm prctl p0 = Some (Cont s)" "started s 1" "gs_base s 0 = chunk_at s 0"
    using shadow_stack_init_outcome [OF assms(1-4)] by blast
  have "[0..<Suc (length ts)] = 0 # [1..<1 + length ts]" by (simp add: upt_conv_Cons del: upt_Suc)
  with s start_threads_outcome [OF s(2) _ assms(4), of ts] assms(5) show ?thesis
    by (auto split: if_splits)
qed

lemma setup_memory_demo:
  "\<exists>lo hi done. setup_memory (demo_env 0x7fff00000000 (\<lambda>_ _. True)) MEM_SIZE = Some (0, Some (lo, hi), done)"
proof -
  let ?E = "demo_env 0x7fff00000000 (\<lambda>_ _. True)"
  have ok: "maps_ok ?E (demo_maps 0x7fff00000000)" by (rule maps_ok_demo) simp
  note G = setup_memory_gaps(2) [OF ok, of MEM_SIZE]
  have "find_gap MEM_SIZE (gaps_of (map area_of (demo_maps 0x7fff00000000))) \<noteq> None"
    by (simp add: demo_maps_def area_of_def gaps_of_def note_area_def insert_ma_def BASE_def CEIL_def MEM_SIZE_def)
  then obtain p where p: "find_gap MEM_SIZE (gaps_of (map area_of (demo_maps 0x7fff00000000))) = Some p" by blast
  have "fst (reserve_all (map_fixed ?E) gs lo hi) = 0" for gs lo hi
    by (induction gs) (auto simp: demo_env_def split: prod.split)
  then show ?thesis using G p by (auto simp: Let_def case_prod_beta)
qed

definition fresh_process :: process where
  "fresh_process = \<lparr>mem_pool = 0, freelist = 0, chunk_size = 0, freearea_start = 0, freearea_end = 0,
     ch_next = (\<lambda>_. 0), ch_top = (\<lambda>_. 0), gs_base = (\<lambda>_. 0), wrappers = (\<lambda>_. None), spawned = []\<rparr>"

theorem runtime_thread_limit_witness:
  "\<exists>s. shadow_stack_init (demo_env 0x7fff00000000 (\<lambda>_ _. True)) demo_mmap (\<lambda>_. True) fresh_process = Some (Cont s) \<and>
     start_threads (\<lambda>_. True) [1..<1024] s = Some Exit"
proof -
  obtain lo hi "done" where
    l: "setup_memory (demo_env 0x7fff00000000 (\<lambda>_ _. True)) MEM_SIZE = Some (0, Some (lo, hi), done)"
    using setup_memory_demo by blast
  have "demo_mmap lo MEM_SIZE \<noteq> None" by (simp add: demo_mmap_def MEM_SIZE_def)
  from runtime_thread_limit [OF mmap_ok_demo l this, of "\<lambda>_. True" "[1..<1024]" fresh_process] show ?thesis
    by (simp del: upt_rec_numeral)
qed

subsection \<open>Creating a thread\<close>

text \<open>\<open>pthread_create\<close> hands the caller's routine and argument to the new thread and nothing
  else: when the library's function succeeds, the trampoline of the new thread sets up the shadow
  stack, calls exactly that routine with that argument, and the wrapper is gone from the heap; when
  it fails, its status is passed on and nothing is left behind.\<close>

lemma pthread_create_roundtrip:
  assumes "mal \<noteq> 0" and "wrappers s mal = None" and "started s k" and "k < 1023" and "\<forall>t. prctl t"
  shows "\<exists>s1. pthread_create mal (Some ret) t f a s = Some (ret, s1) \<and>
    (if ret = 0
     then spawned s1 = spawned s @ [(t, mal)] \<and>
       (\<exists>s2. thread_trampoline prctl t mal s1 = Some (Cont (f, a, s2)) \<and> wrappers s2 = wrappers s \<and>
          gs_base s2 = (gs_base s)(t := chunk_at s k))
     else s1 = s)"
proof (cases "ret = 0")
  case False
  have "s\<lparr>wrappers := (wrappers s)(mal := None)\<rparr> = s"
    using assms(2) fun_upd_triv [of "wrappers s" mal] by simp
  then show ?thesis using False assms(1) by (simp add: pthread_create_def)
next
  case True
  let ?w = "\<lparr>original_routine = f, original_arg = a\<rparr>"
  let ?s = "s\<lparr>wrappers := (wrappers s)(mal \<mapsto> ?w), spawned := spawned s @ [(t, mal)]\<rparr>"
  have at: "chunk_at ?s = chunk_at s" by (simp add: chunk_at_def fun_eq_iff)
  have st: "started ?s k" using assms(3) by simp
  obtain q where q: "shadow_stack_thread_init prctl t ?s = Some (Cont q)"
      "gs_base q = (gs_base ?s)(t := chunk_at ?s k)" "wrappers q = wrappers ?s"
    using thread_init_fresh [of ?s k prctl t] started_room [OF st] st assms(4,5) by (auto simp: started_def)
  have "(wrappers s)(mal := None) = wrappers s" using assms(2) by auto
  then show ?thesis
    using True assms(1) q at by (simp add: pthread_create_def thread_trampoline_def)
qed

end
