(* ===== verification/Alt_Runtime.thy ===== *)
theory Alt_Runtime
  imports Ioctl Runtime_Start
begin

text \<open>
  The runtime that uses the kernel module, \<^verbatim>\<open>alt_runtime/lkm.c\<close>,
  \<^verbatim>\<open>alt_runtime/lkm.h\<close> and \<^verbatim>\<open>alt_runtime/main.c\<close>: requesting a stack through the
  device, the constructor, the start of a thread, and the release of its stack when it ends.
  \<open>fork\<close> is in the theory \<open>Fork_Handshake\<close>.

  The device is a parameter of the client functions, and \<open>chrdev_ioctl\<close> of the module takes
  its place in the lemmas.

  As it stands the directory does not compile, for two reasons, and the model repairs both in the
  way the rest of the code asks for. The header declares \<open>struct ioctl_mem_params\<close> with the
  member \<open>error\<close> only, while both source files name a member \<open>addr\<close> too: the structure is
  modelled with both members, as the module has it, and the command numbers, which contain its
  size, follow from that. And \<open>shadow_fd\<close> is declared \<open>pthread_local\<close>, which is not a keyword
  of C: it is modelled as the name says, one descriptor for every thread, -1 at its start.
\<close>

definition ALT_SHADOW_REQ :: u32 where "ALT_SHADOW_REQ = IOWR 0xca 0x70 16"
definition ALT_SHADOW_FREE :: u32 where "ALT_SHADOW_FREE = IOWR 0xca 0x71 16"

subsection \<open>Requesting and releasing a stack\<close>

text \<open>\<open>req\<close> is the address of the request on the caller's stack and \<open>fd\<close> the calling
  thread's descriptor; on a negative one the system call fails without reaching the module. A
  negative status of the driver is -1 in user space; both are negative.\<close>

definition mem_pool_alloc :: "int \<Rightarrow> 'k device \<Rightarrow> u64 \<Rightarrow> umem \<times> 'k \<Rightarrow> (u64 \<times> umem \<times> 'k) option" where
  "mem_pool_alloc fd dev req = (\<lambda>(u, k). do {
     let u = uwrite req (enc_mem \<lparr>mp_error = 0, mp_addr = 0\<rparr>) u;
     (err, u, k) \<leftarrow> (if fd < 0 then Some (- 1, u, k) else dev ALT_SHADOW_REQ req (u, k));
     let r = dec_mem (uread u req 16);
     if err < 0 \<or> mp_error r \<noteq> 0 then Some (0, u, k)
     else do {
       let chunk = mp_addr r;
       ensure (\<forall>i \<in> {0..<16}. uwritable u (chunk + of_nat i));
       Some (chunk, uwrite chunk (to_bytes 8 0 @ to_bytes 8 (chunk + 16)) u, k) } })"

record alt_process =
  shadow_fd :: "nat \<Rightarrow> int"
  main_thread_chunk :: u64
  alt_gs :: "nat \<Rightarrow> u64"
  cleanup :: "nat \<Rightarrow> u64"
  alt_wrappers :: "u64 \<Rightarrow> wrapper_args option"
  alt_spawned :: "(nat \<times> u64) list"

text \<open>\<open>fd\<close> is the answer of \<open>open\<close>; the main thread is thread 0.\<close>

definition alt_shadow_stack_init ::
  "int \<Rightarrow> 'k device \<Rightarrow> u64 \<Rightarrow> alt_process \<times> umem \<times> 'k \<Rightarrow> (alt_process \<times> umem \<times> 'k) outcome option" where
  "alt_shadow_stack_init fd dev req = (\<lambda>(a, us).
     let a = a\<lparr>shadow_fd := (shadow_fd a)(0 := fd)\<rparr> in
     if fd < 0 then Some Exit
     else do {
       (chunk, us) \<leftarrow> mem_pool_alloc (shadow_fd a 0) dev req us;
       if chunk = 0 then Some Exit
       else Some (Cont (a\<lparr>main_thread_chunk := chunk, alt_gs := (alt_gs a)(0 := chunk)\<rparr>, us)) })"

definition alt_thread_init ::
  "nat \<Rightarrow> 'k device \<Rightarrow> u64 \<Rightarrow> alt_process \<times> umem \<times> 'k \<Rightarrow> (alt_process \<times> umem \<times> 'k) outcome option" where
  "alt_thread_init t dev req = (\<lambda>(a, us). do {
     (chunk, us) \<leftarrow> mem_pool_alloc (shadow_fd a t) dev req us;
     if chunk = 0 then Some Exit
     else Some (Cont (a\<lparr>alt_gs := (alt_gs a)(t := chunk), cleanup := (cleanup a)(t := chunk)\<rparr>, us)) })"

text \<open>The start of a thread, with the parameters of the functions in \<open>Runtime_Start\<close>; the
  constructor has looked up the library's function.\<close>

definition alt_thread_trampoline ::
  "nat \<Rightarrow> 'k device \<Rightarrow> u64 \<Rightarrow> u64 \<Rightarrow> alt_process \<times> umem \<times> 'k \<Rightarrow>
     (u64 \<times> u64 \<times> alt_process \<times> umem \<times> 'k) outcome option" where
  "alt_thread_trampoline t dev req w_args st = do {
     r \<leftarrow> alt_thread_init t dev req st;
     (case r of
        Exit \<Rightarrow> Some Exit
      | Cont (a, us) \<Rightarrow> do {
          w \<leftarrow> alt_wrappers a w_args;
          Some (Cont (original_routine w, original_arg w, a\<lparr>alt_wrappers := (alt_wrappers a)(w_args := None)\<rparr>, us)) }) }"

definition alt_pthread_create ::
  "u64 \<Rightarrow> int option \<Rightarrow> nat \<Rightarrow> u64 \<Rightarrow> u64 \<Rightarrow> alt_process \<Rightarrow> (int \<times> alt_process) option" where
  "alt_pthread_create mal real t start_routine arg a =
     (if mal = 0 then Some (- 1, a)
      else do {
        let a = a\<lparr>alt_wrappers := (alt_wrappers a)(mal \<mapsto> \<lparr>original_routine = start_routine, original_arg = arg\<rparr>)\<rparr>;
        ret \<leftarrow> real;
        Some (ret, if ret \<noteq> 0 then a\<lparr>alt_wrappers := (alt_wrappers a)(mal := None)\<rparr>
                   else a\<lparr>alt_spawned := alt_spawned a @ [(t, mal)]\<rparr>) })"

text \<open>The destructor of the value specific to thread \<open>t\<close>; the status of the request is not looked
  at.\<close>

definition ss_dtor ::
  "nat \<Rightarrow> 'k device \<Rightarrow> u64 \<Rightarrow> u64 \<Rightarrow> alt_process \<times> umem \<times> 'k \<Rightarrow> (alt_process \<times> umem \<times> 'k) option" where
  "ss_dtor t dev req chunk = (\<lambda>(a, u, k).
     if chunk \<noteq> 0 \<and> shadow_fd a t \<ge> 0 then do {
       (err, u, k) \<leftarrow> dev ALT_SHADOW_FREE req (uwrite req (enc_mem \<lparr>mp_error = 0, mp_addr = chunk\<rparr>) u, k);
       Some (a, u, k) }
     else Some (a, u, k))"

subsection \<open>With the module behind the device\<close>

lemma alt_cmds: "ALT_SHADOW_REQ = IOCTL_SHADOW_REQ" "ALT_SHADOW_FREE = IOCTL_SHADOW_FREE"
  by (simp_all add: ALT_SHADOW_REQ_def ALT_SHADOW_FREE_def ioctl_cmds)

text \<open>A request for a stack delivers the status of \<open>sa_alloc\<close>, and if that is 0 the address, at
  which the header of the shadow stack is written.\<close>

lemma mem_pool_alloc_module:
  assumes "uaccess u req 16" "sa_alloc K cur s = Some (err, r, s')" "fd \<ge> 0"
  shows "(word_of_int err :: u64) \<noteq> 0 \<Longrightarrow>
      \<exists>u'. mem_pool_alloc fd (chrdev_ioctl K stale cur) req (u, s) = Some (0, u', s')"
    "err = 0 \<Longrightarrow> r = Some c \<Longrightarrow> \<forall>i < 16. uwritable u (c + of_nat i) \<Longrightarrow>
      \<exists>u'. mem_pool_alloc fd (chrdev_ioctl K stale cur) req (u, s) =
        Some (c, uwrite c (to_bytes 8 0 @ to_bytes 8 (c + 16)) u', s')"
proof -
  let ?v = "uwrite req (enc_mem \<lparr>mp_error = 0, mp_addr = 0\<rparr>) u"
  let ?bs = "enc_mem \<lparr>mp_error = word_of_int err, mp_addr = (case r of Some a \<Rightarrow> a | None \<Rightarrow> stale)\<rparr>"
  have acc: "uaccess ?v req 16" using assms(1) by (simp add: uaccess_def)
  have "chrdev_ioctl K stale cur ALT_SHADOW_REQ req (?v, s) = Some (0, uwrite req ?bs ?v, s')"
    using assms(2) uaccess_copy [OF acc] by (simp add: alt_cmds chrdev_ioctl_def Let_def dec_mem_def)
  moreover have "dec_mem (uread (uwrite req ?bs ?v) req 16) =
      \<lparr>mp_error = word_of_int err, mp_addr = (case r of Some a \<Rightarrow> a | None \<Rightarrow> stale)\<rparr>"
    using uread_uwrite [of ?bs req ?v] by simp
  ultimately show "(word_of_int err :: u64) \<noteq> 0 \<Longrightarrow>
      \<exists>u'. mem_pool_alloc fd (chrdev_ioctl K stale cur) req (u, s) = Some (0, u', s')"
    "err = 0 \<Longrightarrow> r = Some c \<Longrightarrow> \<forall>i < 16. uwritable u (c + of_nat i) \<Longrightarrow>
      \<exists>u'. mem_pool_alloc fd (chrdev_ioctl K stale cur) req (u, s) =
        Some (c, uwrite c (to_bytes 8 0 @ to_bytes 8 (c + 16)) u', s')"
    using assms(3) by (auto simp: mem_pool_alloc_def Let_def ensure_def)
qed

text \<open>The constructor with an open device.\<close>

lemma alt_init_module:
  assumes "uaccess u req 16" "sa_alloc K cur s = Some (err, r, s')" "fd \<ge> 0"
  shows "(word_of_int err :: u64) \<noteq> 0 \<Longrightarrow>
      alt_shadow_stack_init fd (chrdev_ioctl K stale cur) req (a, u, s) = Some Exit"
    "err = 0 \<Longrightarrow> r = Some c \<Longrightarrow> c \<noteq> 0 \<Longrightarrow> \<forall>i < 16. uwritable u (c + of_nat i) \<Longrightarrow>
      \<exists>u'. alt_shadow_stack_init fd (chrdev_ioctl K stale cur) req (a, u, s) =
        Some (Cont (a\<lparr>shadow_fd := (shadow_fd a)(0 := fd), main_thread_chunk := c, alt_gs := (alt_gs a)(0 := c)\<rparr>,
          uwrite c (to_bytes 8 0 @ to_bytes 8 (c + 16)) u', s'))"
  using mem_pool_alloc_module(1) [OF assms, of stale] mem_pool_alloc_module(2) [OF assms, of c stale] assms(3)
  by (auto simp: alt_shadow_stack_init_def Let_def)

text \<open>A thread other than the main one has no descriptor of its own: its start ends the process
  before its routine is reached, and the module is not asked.\<close>

lemma alt_thread_no_descriptor:
  assumes "shadow_fd a t < 0"
  shows "alt_thread_trampoline t dev req w_args (a, u, k) = Some Exit"
  using assms by (simp add: alt_thread_trampoline_def alt_thread_init_def mem_pool_alloc_def Let_def)

text \<open>The end of a thread with a descriptor gives its stack back; without one it does not.\<close>

lemma ss_dtor_module:
  assumes "uaccess u req 16" "sa_free K cur chunk s = Some (err, s')" "chunk \<noteq> 0"
  shows "\<exists>u'. ss_dtor t (chrdev_ioctl K stale cur) req chunk (a, u, s) =
    Some (a, u', if shadow_fd a t \<ge> 0 then s' else s)"
proof -
  let ?r = "\<lparr>mp_error = 0, mp_addr = chunk\<rparr>"
  let ?v = "uwrite req (enc_mem ?r) u"
  have acc: "uaccess ?v req 16" using assms(1) by (simp add: uaccess_def)
  have "uread ?v req 16 = enc_mem ?r" using uread_uwrite [of "enc_mem ?r" req u] by simp
  then have "\<exists>u'. chrdev_ioctl K stale cur ALT_SHADOW_FREE req (?v, s) = Some (0, u', s')"
    using assms(2) uaccess_copy [OF acc] by (simp add: alt_cmds chrdev_ioctl_def Let_def)
  then show ?thesis using assms(3) by (auto simp: ss_dtor_def)
qed

end
