(* ===== verification/Module_Lifecycle.thy ===== *)
theory Module_Lifecycle
  imports Ioctl
begin

text \<open>
  Loading, using and unloading the module: symbol resolution
  (\<^verbatim>\<open>lkm/core/pt_bindings.c\<close>), the debugfs entries (\<^verbatim>\<open>lkm/core/debug.c\<close>), the
  character device (\<^verbatim>\<open>lkm/core/chrdev.c\<close>), its file operations
  (\<open>shadow_open\<close> and \<open>shadow_release\<close> of \<^verbatim>\<open>lkm/core/chrdev_fops.c\<close>) and the
  entry points of \<^verbatim>\<open>lkm/main.c\<close>.

  What the kernel answers to a registration is the record \<open>dev_src\<close>. Releasing something
  that is not registered, and destroying a class whose device still exists, are undefined,
  so a defined cleanup has released everything once and in a legal order.
\<close>

subsection \<open>Symbol resolution\<close>

record bindings =
  p4d_alloc_bnd :: u64
  pud_alloc_bnd :: u64
  pmd_alloc_bnd :: u64
  pte_alloc_bnd :: u64
  flush_tlb_bnd :: u64
  pte_map_lock_bnd :: u64
  pagetable_free_bnd :: u64

definition KERNEL_VERSION :: "nat \<Rightarrow> nat \<Rightarrow> nat \<Rightarrow> nat" where
  "KERNEL_VERSION a b c = a * 65536 + b * 256 + min c 255"

text \<open>The symbols looked up for a kernel version and the variable each is stored in, in the
  order of the source.\<close>

definition symbol_steps :: "nat \<Rightarrow> (string \<times> (u64 \<Rightarrow> bindings \<Rightarrow> bindings) \<times> (bindings \<Rightarrow> u64)) list" where
  "symbol_steps ver =
     [(''__p4d_alloc'', \<lambda>v b. b\<lparr>p4d_alloc_bnd := v\<rparr>, p4d_alloc_bnd),
      (''__pud_alloc'', \<lambda>v b. b\<lparr>pud_alloc_bnd := v\<rparr>, pud_alloc_bnd),
      (''__pmd_alloc'', \<lambda>v b. b\<lparr>pmd_alloc_bnd := v\<rparr>, pmd_alloc_bnd),
      (''__pte_alloc'', \<lambda>v b. b\<lparr>pte_alloc_bnd := v\<rparr>, pte_alloc_bnd),
      (''flush_tlb_mm_range'', \<lambda>v b. b\<lparr>flush_tlb_bnd := v\<rparr>, flush_tlb_bnd)] @
     (if ver \<ge> KERNEL_VERSION 7 0 0 then
        [(''pte_offset_map_lock'', \<lambda>v b. b\<lparr>pte_map_lock_bnd := v\<rparr>, pte_map_lock_bnd)]
      else if ver \<ge> KERNEL_VERSION 6 4 0 then
        [(''__pte_offset_map_lock'', \<lambda>v b. b\<lparr>pte_map_lock_bnd := v\<rparr>, pte_map_lock_bnd)]
      else []) @
     (if ver \<ge> KERNEL_VERSION 6 18 7 then
        [(''pagetable_free_kernel'', \<lambda>v b. b\<lparr>pagetable_free_bnd := v\<rparr>, pagetable_free_bnd)]
      else [])"

fun bind_all ::
  "(string \<Rightarrow> u64) \<Rightarrow> (string \<times> (u64 \<Rightarrow> bindings \<Rightarrow> bindings) \<times> (bindings \<Rightarrow> u64)) list \<Rightarrow> bindings \<Rightarrow> int \<times> bindings" where
  "bind_all ksyms [] b = (0, b)"
| "bind_all ksyms ((name, set_bnd, get_bnd) # steps) b =
     (let b = set_bnd (ksyms name) b in if get_bnd b = 0 then (- 1, b) else bind_all ksyms steps b)"

text \<open>\<open>kp_addr\<close> is what the kprobe found for \<open>kallsyms_lookup_name\<close>, 0 if nothing;
  \<open>ksyms\<close> is that function.\<close>

definition resolve_symbols :: "nat \<Rightarrow> u64 \<Rightarrow> (string \<Rightarrow> u64) \<Rightarrow> bindings \<Rightarrow> int \<times> bindings" where
  "resolve_symbols ver kp_addr ksyms b =
     (if kp_addr = 0 then (- 1, b) else bind_all ksyms (symbol_steps ver) b)"

subsection \<open>The character device\<close>

record chr_state =
  dev_nr :: nat
  region :: bool
  cdev_live :: bool
  class_live :: bool
  dev_class :: bool
  node_live :: bool

record dev_src =
  region_err :: int
  region_nr :: nat
  add_err :: int
  class_err :: int
  node_err :: int

definition unregister_region :: "'a chr_state_scheme \<Rightarrow> 'a chr_state_scheme option" where
  "unregister_region d = do { ensure (region d); Some (d\<lparr>region := False\<rparr>) }"

definition cdev_del :: "'a chr_state_scheme \<Rightarrow> 'a chr_state_scheme option" where
  "cdev_del d = do { ensure (cdev_live d); Some (d\<lparr>cdev_live := False\<rparr>) }"

definition class_destroy :: "'a chr_state_scheme \<Rightarrow> 'a chr_state_scheme option" where
  "class_destroy d = do { ensure (dev_class d \<and> class_live d \<and> \<not> node_live d); Some (d\<lparr>class_live := False\<rparr>) }"

definition device_destroy :: "'a chr_state_scheme \<Rightarrow> 'a chr_state_scheme option" where
  "device_destroy d = do { ensure (dev_class d \<and> class_live d); Some (d\<lparr>node_live := False\<rparr>) }"

text \<open>The class callback asks for access by everyone, in the form of the conversion \<open>%#o\<close>;
  \<open>add_uevent_var\<close> is the kernel's, with its error. The attribute \<open>active\<close> shows nothing.\<close>

fun octal :: "nat \<Rightarrow> string" where
  "octal n = (if n < 8 then [char_of (48 + n)] else octal (n div 8) @ [char_of (48 + n mod 8)])"

declare octal.simps [simp del]

definition alt_octal :: "nat \<Rightarrow> string" where
  "alt_octal n = (if n = 0 then ''0'' else CHR ''0'' # octal n)"

definition my_uevent :: "(string \<Rightarrow> 'e \<Rightarrow> int \<times> 'e) \<Rightarrow> 'e \<Rightarrow> int \<times> 'e" where
  "my_uevent add_uevent_var env = (0, snd (add_uevent_var (''DEVMODE='' @ alt_octal 438) env))"

definition session_show :: "string \<Rightarrow> int \<times> string" where
  "session_show buf = (0, buf)"

text \<open>The labels \<open>out\<close>, \<open>out2\<close> and \<open>out3\<close>.\<close>

definition init_out :: "int \<Rightarrow> 'a chr_state_scheme \<Rightarrow> (int \<times> 'a chr_state_scheme) option" where
  "init_out err d = do { d \<leftarrow> unregister_region d; Some (err, d\<lparr>dev_nr := 0\<rparr>) }"

definition init_out2 :: "int \<Rightarrow> 'a chr_state_scheme \<Rightarrow> (int \<times> 'a chr_state_scheme) option" where
  "init_out2 err d = do { d \<leftarrow> cdev_del d; init_out err d }"

definition init_out3 :: "int \<Rightarrow> 'a chr_state_scheme \<Rightarrow> (int \<times> 'a chr_state_scheme) option" where
  "init_out3 err d = do { d \<leftarrow> class_destroy d; init_out2 err (d\<lparr>dev_class := False\<rparr>) }"

definition chrdev_init :: "dev_src \<Rightarrow> 'a chr_state_scheme \<Rightarrow> (int \<times> 'a chr_state_scheme) option" where
  "chrdev_init k d =
     (if region_err k \<noteq> 0 then Some (region_err k, d)
      else let d = d\<lparr>region := True, dev_nr := region_nr k\<rparr> in
      if add_err k \<noteq> 0 then init_out (add_err k) d
      else let d = d\<lparr>cdev_live := True\<rparr> in
      if class_err k \<noteq> 0 then init_out2 (class_err k) d
      else let d = d\<lparr>class_live := True, dev_class := True\<rparr> in
      if node_err k \<noteq> 0 then init_out3 (node_err k) d
      else Some (0, d\<lparr>node_live := True\<rparr>))"

definition chrdev_cleanup :: "'a chr_state_scheme \<Rightarrow> 'a chr_state_scheme option" where
  "chrdev_cleanup d = do {
     d \<leftarrow> device_destroy d;
     d \<leftarrow> class_destroy d;
     d \<leftarrow> cdev_del (d\<lparr>dev_class := False\<rparr>);
     d \<leftarrow> unregister_region d;
     Some (d\<lparr>dev_nr := 0\<rparr>) }"

subsection \<open>debugfs\<close>

text \<open>The lines \<open>pgd_show\<close> prints. \<open>look\<close> says what the target pid is: no task, a task
  without address space, or one with the raw entries of its pgd.\<close>

datatype seq_line = PidNotFound u32 | NoMm u32 | PidHeader u32 | CsvHeader | Row nat u64

definition pgd_show :: "(u32 \<Rightarrow> (nat \<Rightarrow> u64) option option) \<Rightarrow> u32 \<Rightarrow> bool \<Rightarrow> seq_line list" where
  "pgd_show look target_pid hi =
     (case look target_pid of
        None \<Rightarrow> [PidNotFound target_pid]
      | Some None \<Rightarrow> [NoMm target_pid]
      | Some (Some pgd_val) \<Rightarrow>
          let start = (if hi then 256 else 0) in
          [PidHeader target_pid, CsvHeader] @
          map (\<lambda>i. Row i (pgd_val i)) (filter (\<lambda>i. bit (pgd_val i) 0) (map (\<lambda>i. start + i) [0..<256])))"

record module_state = chr_state +
  debug_dir :: bool
  bound :: bindings

definition debug_init :: "bool \<Rightarrow> 'a module_state_scheme \<Rightarrow> 'a module_state_scheme" where
  "debug_init dir_ok d = d\<lparr>debug_dir := dir_ok\<rparr>"

definition debug_exit :: "'a module_state_scheme \<Rightarrow> 'a module_state_scheme" where
  "debug_exit d = d\<lparr>debug_dir := False\<rparr>"

subsection \<open>Entry points\<close>

record boot_src =
  pti :: bool
  version :: nat
  kp_addr :: u64
  ksyms :: "string \<Rightarrow> u64"
  dir_ok :: bool
  dev_answers :: dev_src

definition runtime_init :: "boot_src \<Rightarrow> 'a module_state_scheme \<Rightarrow> (int \<times> 'a module_state_scheme) option" where
  "runtime_init k d =
     (if pti k then Some (- EINVAL, d)
      else let (e, b) = resolve_symbols (version k) (kp_addr k) (ksyms k) (bound d); d = d\<lparr>bound := b\<rparr> in
      if e < 0 then Some (- 1, d)
      else do {
        (err, d) \<leftarrow> chrdev_init (dev_answers k) (debug_init (dir_ok k) d);
        Some (err, if err \<noteq> 0 then debug_exit d else d) })"

definition runtime_exit ::
  "'a module_state_scheme \<times> 'b gl_state_scheme \<Rightarrow> ('a module_state_scheme \<times> 'b gl_state_scheme) option" where
  "runtime_exit = (\<lambda>(d, s). do {
     d \<leftarrow> chrdev_cleanup (debug_exit d);
     s \<leftarrow> vma_free s;
     Some (d, s) })"

subsection \<open>File operations\<close>

text \<open>The bodies of both functions are commented out in the source: they only return 0. In
  particular no allocator is created when a process opens the device.\<close>

definition shadow_open :: "task \<Rightarrow> 'a kernel_scheme \<Rightarrow> int \<times> 'a kernel_scheme" where
  "shadow_open cur s = (0, s)"

definition shadow_release :: "task \<Rightarrow> 'a kernel_scheme \<Rightarrow> int \<times> 'a kernel_scheme" where
  "shadow_release cur s = (0, s)"

datatype fop = Open task | Release task | Ioctl ioctl_call

definition fop_step ::
  "api_src \<Rightarrow> fop \<Rightarrow> umem \<times> 'a kernel_scheme \<Rightarrow> (int \<times> umem \<times> 'a kernel_scheme) option" where
  "fop_step K f = (\<lambda>(u, s). case f of
     Open cur \<Rightarrow> (case shadow_open cur s of (r, s) \<Rightarrow> Some (r, u, s))
   | Release cur \<Rightarrow> (case shadow_release cur s of (r, s) \<Rightarrow> Some (r, u, s))
   | Ioctl c \<Rightarrow> ioctl_step K c (u, s))"

subsection \<open>Properties of loading and unloading\<close>

text \<open>Symbol resolution answers 0 exactly if \<open>kallsyms_lookup_name\<close> and every symbol
  of the kernel version were found, and then every function pointer the module calls
  through holds its symbol; otherwise it answers -1.\<close>

lemma resolve_symbols_correct:
  "case resolve_symbols ver kp ks b of (r, b') \<Rightarrow>
    if kp \<noteq> 0 \<and> (\<forall>(name, sb, gb) \<in> set (symbol_steps ver). ks name \<noteq> 0)
    then r = 0 \<and> (\<forall>(name, sb, gb) \<in> set (symbol_steps ver). gb b' = ks name)
    else r = - 1"
  by (simp add: resolve_symbols_def symbol_steps_def Let_def)

definition no_bindings :: bindings where
  "no_bindings = \<lparr>p4d_alloc_bnd = 0, pud_alloc_bnd = 0, pmd_alloc_bnd = 0, pte_alloc_bnd = 0, flush_tlb_bnd = 0,
     pte_map_lock_bnd = 0, pagetable_free_bnd = 0\<rparr>"

text \<open>The variable is \<open>DEVMODE=0666\<close>; that it did not fit is not reported.\<close>

lemma my_uevent_mode: "my_uevent add env = (0, snd (add ''DEVMODE=0666'' env))"
proof -
  have "alt_octal 438 = ''0666''" by code_simp
  then show ?thesis by (simp add: my_uevent_def)
qed

definition unregistered :: "'a chr_state_scheme \<Rightarrow> bool" where
  "unregistered d \<longleftrightarrow> dev_nr d = 0 \<and> \<not> region d \<and> \<not> cdev_live d \<and> \<not> class_live d \<and> \<not> dev_class d \<and> \<not> node_live d"

definition registered :: "'a chr_state_scheme \<Rightarrow> bool" where
  "registered d \<longleftrightarrow> region d \<and> cdev_live d \<and> class_live d \<and> dev_class d \<and> node_live d"

lemma chrdev_init_outcome:
  assumes "unregistered d"
  shows "\<exists>err d'. chrdev_init k d = Some (err, d') \<and> chr_state.more d' = chr_state.more d \<and>
    (if err = 0 then registered d' \<and> dev_nr d' = region_nr k else unregistered d')"
  using assms
  by (simp add: chrdev_init_def Let_def init_out_def init_out2_def init_out3_def unregister_region_def
      cdev_del_def class_destroy_def unregistered_def registered_def)

lemma chrdev_cleanup_outcome:
  assumes "registered d"
  shows "\<exists>d'. chrdev_cleanup d = Some d' \<and> chr_state.more d' = chr_state.more d \<and> unregistered d'"
  using assms
  by (simp add: chrdev_cleanup_def unregister_region_def cdev_del_def class_destroy_def device_destroy_def
      unregistered_def registered_def)

text \<open>Registering the device is all or nothing: 0 means the number region, the cdev,
  the class and the node all exist; any other status means that none of them does, whichever
  of the four calls failed.\<close>

lemma chrdev_init_all_or_nothing:
  assumes "unregistered d"
  shows "\<exists>err d'. chrdev_init k d = Some (err, d') \<and>
    (if err = 0 then registered d' \<and> dev_nr d' = region_nr k else unregistered d')"
  using chrdev_init_outcome [OF assms, of k] by blast

definition fresh_module :: module_state where
  "fresh_module = \<lparr>dev_nr = 0, region = False, cdev_live = False, class_live = False, dev_class = False,
     node_live = False, debug_dir = False,
     bound = no_bindings\<rparr>"

lemma unregistered_fresh: "unregistered fresh_module"
  by (simp add: unregistered_def fresh_module_def)

lemma more_moduleD:
  "chr_state.more d' = chr_state.more d \<Longrightarrow>
    debug_dir d' = debug_dir d \<and> bound d' = bound d \<and> module_state.more d' = module_state.more d"
  by (cases d; cases d') (simp add: module_state.defs)

text \<open>C34: loading the module is all or nothing too, debugfs included; after a successful
  load, unloading never has undefined behaviour, leaves nothing registered and frees exactly
  the pages parked on the free list.\<close>

theorem module_lifecycle:
  assumes "unregistered d" and "\<not> debug_dir d" and "gl_inv s"
  shows "\<exists>err d1. runtime_init k d = Some (err, d1) \<and>
    (if err = 0
     then registered d1 \<and> (\<exists>d2 s2. runtime_exit (d1, s) = Some (d2, s2) \<and> unregistered d2 \<and> \<not> debug_dir d2 \<and>
       gl_sa s2 = [] \<and> inuse s2 = owned s)
     else unregistered d1 \<and> \<not> debug_dir d1)"
proof -
  obtain e b where rs: "resolve_symbols (version k) (kp_addr k) (ksyms k) (bound d) = (e, b)" by fastforce
  show ?thesis
  proof (cases "pti k \<or> e < 0")
    case True
    then have "runtime_init k d = Some (if pti k then - EINVAL else - 1, if pti k then d else d\<lparr>bound := b\<rparr>)"
      using rs by (auto simp: runtime_init_def)
    then show ?thesis using assms(1,2) by (auto simp: unregistered_def)
  next
    case False
    let ?d = "debug_init (dir_ok k) (d\<lparr>bound := b\<rparr>)"
    have "unregistered ?d" using assms(1) by (simp add: debug_init_def unregistered_def)
    then obtain err d1 where c: "chrdev_init (dev_answers k) ?d = Some (err, d1)"
      "if err = 0 then registered d1 \<and> dev_nr d1 = region_nr (dev_answers k) else unregistered d1"
      using chrdev_init_outcome by blast
    have i: "runtime_init k d = Some (err, if err \<noteq> 0 then debug_exit d1 else d1)"
      using False rs c(1) by (simp add: runtime_init_def)
    show ?thesis
    proof (cases "err = 0")
      case True
      then have "registered (debug_exit d1)" using c(2) by (simp add: registered_def debug_exit_def)
      then obtain d2 where d2: "chrdev_cleanup (debug_exit d1) = Some d2" "unregistered d2"
        "chr_state.more d2 = chr_state.more (debug_exit d1)"
        using chrdev_cleanup_outcome by blast
      obtain s2 where "vma_free s = Some s2" "gl_sa s2 = []" "inuse s2 = owned s"
        using vma_free_outcome [OF assms(3)] by blast
      then show ?thesis
        using i True c(2) d2 more_moduleD [OF d2(3)] by (simp add: runtime_exit_def debug_exit_def)
    qed (use i c(2) in \<open>simp add: unregistered_def debug_exit_def\<close>)
  qed
qed

definition good_boot :: boot_src where
  "good_boot = \<lparr>pti = False, version = KERNEL_VERSION 6 12 0, kp_addr = 1, ksyms = (\<lambda>_. 4096), dir_ok = True,
     dev_answers = \<lparr>region_err = 0, region_nr = 240, add_err = 0, class_err = 0, node_err = 0\<rparr>\<rparr>"

theorem module_lifecycle_witness:
  "\<exists>d1 d2 s2. runtime_init good_boot fresh_module = Some (0, d1) \<and> registered d1 \<and>
     runtime_exit (d1, one_stack_gl) = Some (d2, s2) \<and> unregistered d2 \<and> inuse s2 = owned one_stack_gl"
proof -
  have "\<exists>d1. runtime_init good_boot fresh_module = Some (0, d1)"
    by (simp add: runtime_init_def good_boot_def resolve_symbols_def symbol_steps_def KERNEL_VERSION_def Let_def
        chrdev_init_def)
  then show ?thesis
    using module_lifecycle [OF unregistered_fresh _ gl_inv_one_stack_gl, of good_boot]
    by (auto simp: fresh_module_def)
qed

text \<open>A dump of a pgd lists exactly its present entries, in ascending order: the two
  files together show every one of the 512 slots.\<close>

lemma pgd_show_rows:
  assumes "look pid = Some (Some pgd_val)"
  shows "pgd_show look pid hi = [PidHeader pid, CsvHeader] @
      map (\<lambda>i. Row i (pgd_val i)) (filter (\<lambda>i. bit (pgd_val i) 0) (if hi then [256..<512] else [0..<256])) \<and>
    (\<forall>i < 512. bit (pgd_val i) 0 \<longrightarrow>
      Row i (pgd_val i) \<in> set (pgd_show look pid False) \<union> set (pgd_show look pid True))"
proof -
  have "map (\<lambda>i. 256 + i) [0..<256] = [256..<512]"
    using map_add_upt [of 256 256] by (simp add: add.commute del: upt_rec_numeral)
  then show ?thesis
    using assms by (auto simp: pgd_show_def Let_def map_idI image_iff simp del: upt_rec_numeral)
qed

subsection \<open>The module in use\<close>

text \<open>With an empty registry every request is refused and the registry stays empty.\<close>

lemma no_allocator:
  assumes "sa_allocators s = Map.empty"
  shows "sa_alloc K cur s = Some (if task_mm cur = None then - EINVAL else - ENOMEM, None, s)"
    "sa_free K cur addr s = Some (- EINVAL, s)"
    "sa_fork K cur pg pp s = Some (if task_mm cur = None then - EINVAL else - ENOMEM, s)"
  using assms
  by (auto simp: sa_alloc_def sa_free_def sa_fork_def alloc_get_def alloc_find_def split: option.split)

lemma sa_pivot_registry: "sa_pivot cur rsp sp s = Some (e, s') \<Longrightarrow> sa_allocators s' = sa_allocators s"
  by (auto simp: sa_pivot_def with_mm_def bind_eq_Some_conv split: option.splits)

lemma ioctl_registry:
  assumes e: "sa_allocators s = Map.empty" and step: "ioctl_step K c (u, s) = Some (r, u', s')"
  shows "sa_allocators s' = Map.empty"
proof (cases "check_ioctl_cmd (ic_cmd c) = 0 \<and> ic_cmd c = IOCTL_SHADOW_PIVOT")
  case True
  show ?thesis
  proof (cases "copy_from_user u (ic_arg c) 24")
    case None
    then show ?thesis using True step e by (simp add: ioctl_defs)
  next
    case (Some bs)
    let ?r = "sa_pivot (caller c) (pp_rsp (dec_pivot bs)) (new_stack_address (dec_pivot bs)) s"
    have "?r \<noteq> None" using True step Some by (cases ?r) (simp_all add: ioctl_defs)
    then obtain x s1 where p: "?r = Some (x, s1)" by auto
    then have "s1 = s'"
      using True step Some by (simp add: ioctl_defs split: prod.splits)
    then show ?thesis using sa_pivot_registry [OF p] e by simp
  qed
next
  case False
  have "s' = s"
  proof (cases "check_ioctl_cmd (ic_cmd c) = 0")
    case True
    then have "ic_cmd c \<in> {IOCTL_SHADOW_REQ, IOCTL_SHADOW_FREE, IOCTL_SHADOW_FORK}"
      using False check_ioctl_cmd_zero by blast
    then show ?thesis
      using step by (auto simp: ioctl_defs no_allocator [OF e] split: option.splits prod.splits if_splits)
  qed (use step in \<open>simp add: ioctl_defs\<close>)
  then show ?thesis using e by simp
qed

interpretation idle: kept_system "\<lambda>(u, s). sa_allocators s = Map.empty" "\<lambda>_ _. True" "fop_step K" for K
proof (unfold_locales, goal_cases)
  case (1 us f out us')
  then show ?case
    by (cases us; cases us'; cases f) (auto simp: fop_step_def shadow_open_def shadow_release_def dest: ioctl_registry)
qed

text \<open>C33: the module never serves a stack. It starts with an empty registry, opening the
  device does not create an allocator, and no request does: after any sequence of file
  operations the registry is still empty, and every well-formed request for a stack answers
  0 with the status \<open>-ENOMEM\<close> in its argument.\<close>

theorem module_never_serves:
  assumes "sa_allocators s0 = Map.empty" and "reach (\<lambda>_ _. True) (fop_step K) (u0, s0) (u, s)"
    and "task_mm (caller c) = Some m" and "ic_cmd c = IOCTL_SHADOW_REQ" and "uaccess u (ic_arg c) 16"
  shows "sa_allocators s = Map.empty \<and> (\<exists>u'. fop_step K (Ioctl c) (u, s) = Some (0, u', s) \<and>
    mp_error (dec_mem (uread u' (ic_arg c) 16)) = word_of_int (- ENOMEM))"
proof -
  have e: "sa_allocators s = Map.empty" using idle.reach_inv [OF assms(2)] assms(1) by simp
  let ?bs = "enc_mem \<lparr>mp_error = word_of_int (- ENOMEM), mp_addr = ic_stale c\<rparr>"
  have "fop_step K (Ioctl c) (u, s) = Some (0, uwrite (ic_arg c) ?bs u, s)"
    using uaccess_copy [OF assms(5)] assms(3,4) no_allocator(1) [OF e]
    by (simp add: fop_step_def ioctl_defs dec_mem_def)
  then show ?thesis
    using e uread_uwrite [of ?bs "ic_arg c" u] by auto
qed

theorem module_never_serves_witness:
  "\<exists>u'. fop_step demo_src (Ioctl \<lparr>caller = demo_task, ic_cmd = IOCTL_SHADOW_REQ, ic_arg = 0x100, ic_stale = 0\<rparr>)
      (demo_umem, boot_kernel) = Some (0, u', boot_kernel) \<and>
    mp_error (dec_mem (uread u' 0x100 16)) = word_of_int (- ENOMEM)"
proof -
  let ?c = "\<lparr>caller = demo_task, ic_cmd = IOCTL_SHADOW_REQ, ic_arg = 0x100, ic_stale = 0\<rparr>"
  have r: "reach (\<lambda>_ _. True) (fop_step demo_src) (demo_umem, boot_kernel) (demo_umem, boot_kernel)"
  proof (rule reach_next [OF reach_start])
    show "fop_step demo_src (Open demo_task) (demo_umem, boot_kernel) = Some (0, demo_umem, boot_kernel)"
      by (simp add: fop_step_def shadow_open_def)
  qed simp
  have "sa_allocators boot_kernel = Map.empty" "task_mm (caller ?c) = Some 7"
    by (simp_all add: boot_kernel_def demo_task_def)
  from module_never_serves [OF this(1) r this(2)] uaccess_demo show ?thesis by auto
qed

end
