(* ===== verification/Fork_Handshake.thy ===== *)
theory Fork_Handshake
  imports Alt_Runtime Module_Lifecycle
begin

text \<open>
  \<open>fork\<close> of the runtime that uses the kernel module, \<^verbatim>\<open>alt_runtime/main.c\<close>: the child asks the
  module to copy its parent's shadow stack and then writes one byte to a pipe, on which the
  parent waits before it returns to its caller.

  The two processes are two program counters, and a step executes one system call of one of
  them. Closing the inherited descriptor of the device, which the child does if it has one, reaches
  the module as \<open>shadow_release\<close> at most, which changes nothing. A pipe is a number of bytes and
  the four descriptors that may be open on it; a read blocks while the pipe is empty and a write
  end is open. The model starts after a successful \<open>pipe\<close>, which the code does not check, where
  \<open>real_fork\<close> has answered in the parent. Either process may be killed at any point of the
  function, which closes its descriptors, and a write with no read end open raises \<open>SIGPIPE\<close>.
  Another thread of the parent that forks at the same time would inherit the write end too; that
  is not modelled.
\<close>

definition ALT_SHADOW_FORK :: u32 where "ALT_SHADOW_FORK = IOWR 0xca 0x72 16"

subsection \<open>The two processes\<close>

datatype ppc = P_close_w | P_read | P_close_r | E_close_r | E_close_w | P_ret | P_dead
datatype cpc = C_close_r | C_close_fd | C_open | C_ioctl | C_write | C_close_w | C_ret | C_dead | C_none

text \<open>What surrounds a call of \<open>fork\<close>: the device and its \<open>open\<close>, the address of
  the child's request, the two ids the parent read before, and whether a signal handler may
  interrupt the parent's read.\<close>

record 'k fork_env =
  fe_dev :: "'k device"
  fe_open :: "'k \<Rightarrow> int \<times> 'k"
  fe_req :: u64
  fe_tgid :: u32
  fe_pid :: u32
  fe_eintr :: bool

record 'k handshake =
  parent :: ppc
  child :: cpc
  pipe_data :: nat
  p_r :: bool
  p_w :: bool
  c_r :: bool
  c_w :: bool
  child_fd :: int
  child_mem :: umem
  hs_dev :: 'k

text \<open>The state right after \<open>real_fork\<close> answered \<open>pid\<close> in the parent: positive, or negative when
  there is no child. \<open>fd\<close> is the forking thread's \<open>shadow_fd\<close>.\<close>

definition after_fork :: "int \<Rightarrow> int \<Rightarrow> umem \<Rightarrow> 'k \<Rightarrow> 'k handshake" where
  "after_fork pid fd u k =
     \<lparr>parent = (if pid > 0 then P_close_w else E_close_r), child = (if pid > 0 then C_close_r else C_none),
      pipe_data = 0, p_r = True, p_w = True, c_r = (pid > 0), c_w = (pid > 0),
      child_fd = fd, child_mem = u, hs_dev = k\<rparr>"

definition fork_request :: "'k fork_env \<Rightarrow> umem \<Rightarrow> umem" where
  "fork_request E u = uwrite (fe_req E) (enc_fork \<lparr>fp_error = 0, p_tgid = fe_tgid E, p_pid = fe_pid E\<rparr>) u"

text \<open>The child's ioctl; on a negative descriptor the system call fails by itself. Its answer
  is not looked at.\<close>

definition child_ioctl :: "'k fork_env \<Rightarrow> int \<Rightarrow> umem \<times> 'k \<Rightarrow> (umem \<times> 'k) option" where
  "child_ioctl E fd = (\<lambda>(u, k).
     if fd < 0 then Some (fork_request E u, k)
     else map_option snd (fe_dev E ALT_SHADOW_FORK (fe_req E) (fork_request E u, k)))"

inductive fork_step :: "'k fork_env \<Rightarrow> 'k handshake \<Rightarrow> 'k handshake \<Rightarrow> bool" for E where
  p_close_w: "parent s = P_close_w \<Longrightarrow> fork_step E s (s\<lparr>parent := P_read, p_w := False\<rparr>)"
| p_read: "parent s = P_read \<Longrightarrow> pipe_data s > 0 \<Longrightarrow>
    fork_step E s (s\<lparr>parent := P_close_r, pipe_data := pipe_data s - 1\<rparr>)"
| p_eof: "parent s = P_read \<Longrightarrow> pipe_data s = 0 \<Longrightarrow> \<not> p_w s \<Longrightarrow> \<not> c_w s \<Longrightarrow>
    fork_step E s (s\<lparr>parent := P_close_r\<rparr>)"
| p_eintr: "parent s = P_read \<Longrightarrow> fe_eintr E \<Longrightarrow> fork_step E s (s\<lparr>parent := P_close_r\<rparr>)"
| p_close_r: "parent s = P_close_r \<Longrightarrow> fork_step E s (s\<lparr>parent := P_ret, p_r := False\<rparr>)"
| e_close_r: "parent s = E_close_r \<Longrightarrow> fork_step E s (s\<lparr>parent := E_close_w, p_r := False\<rparr>)"
| e_close_w: "parent s = E_close_w \<Longrightarrow> fork_step E s (s\<lparr>parent := P_ret, p_w := False\<rparr>)"
| c_close_r: "child s = C_close_r \<Longrightarrow>
    fork_step E s (s\<lparr>child := if child_fd s \<ge> 0 then C_close_fd else C_open, c_r := False\<rparr>)"
| c_close_fd: "child s = C_close_fd \<Longrightarrow> fork_step E s (s\<lparr>child := C_open\<rparr>)"
| c_open: "child s = C_open \<Longrightarrow> fe_open E (hs_dev s) = (fd, k) \<Longrightarrow>
    fork_step E s (s\<lparr>child := C_ioctl, child_fd := fd, hs_dev := k\<rparr>)"
| c_ioctl: "child s = C_ioctl \<Longrightarrow> child_ioctl E (child_fd s) (child_mem s, hs_dev s) = Some (u, k) \<Longrightarrow>
    fork_step E s (s\<lparr>child := C_write, child_mem := u, hs_dev := k\<rparr>)"
| c_write: "child s = C_write \<Longrightarrow> p_r s \<or> c_r s \<Longrightarrow>
    fork_step E s (s\<lparr>child := C_close_w, pipe_data := pipe_data s + 1\<rparr>)"
| c_epipe: "child s = C_write \<Longrightarrow> \<not> p_r s \<Longrightarrow> \<not> c_r s \<Longrightarrow> fork_step E s (s\<lparr>child := C_close_w\<rparr>)"
| c_close_w: "child s = C_close_w \<Longrightarrow> fork_step E s (s\<lparr>child := C_ret, c_w := False\<rparr>)"

text \<open>A process that has not left the function is killed, by \<open>SIGPIPE\<close> among others.\<close>

inductive fork_kill :: "'k handshake \<Rightarrow> 'k handshake \<Rightarrow> bool" where
  p_kill: "parent s \<notin> {P_ret, P_dead} \<Longrightarrow> fork_kill s (s\<lparr>parent := P_dead, p_r := False, p_w := False\<rparr>)"
| c_kill: "child s \<notin> {C_ret, C_dead, C_none} \<Longrightarrow>
    fork_kill s (s\<lparr>child := C_dead, c_r := False, c_w := False\<rparr>)"

definition fork_move :: "'k fork_env \<Rightarrow> 'k handshake \<Rightarrow> 'k handshake \<Rightarrow> bool" where
  "fork_move E s s' \<longleftrightarrow> fork_step E s s' \<or> fork_kill s s'"

lemma fork_moveI: "fork_step E s s' \<Longrightarrow> fork_move E s s'"
  by (simp add: fork_move_def)

inductive_cases fork_stepE: "fork_step E s s'"
inductive_cases fork_killE: "fork_kill s s'"

subsection \<open>The order the pipe enforces\<close>

definition asked :: "'k fork_env \<Rightarrow> umem \<Rightarrow> 'k \<Rightarrow> 'k handshake \<Rightarrow> bool" where
  "asked E u k s \<longleftrightarrow> (case fe_open E k of (fd, k) \<Rightarrow> child_ioctl E fd (u, k) = Some (child_mem s, hs_dev s))"

text \<open>Up to its request the child has changed nothing but what opening the device changes; from
  its write on the request is done. A byte is in the pipe only after the write, and the parent
  is past its read only when the child has written or is dead.\<close>

definition child_before :: "'k fork_env \<Rightarrow> umem \<Rightarrow> 'k \<Rightarrow> 'k handshake \<Rightarrow> bool" where
  "child_before E u k s \<longleftrightarrow> child_mem s = u \<and>
     (child s \<in> {C_close_r, C_close_fd, C_open} \<and> hs_dev s = k \<or>
      child s = C_ioctl \<and> fe_open E k = (child_fd s, hs_dev s))"

definition child_after :: "'k fork_env \<Rightarrow> umem \<Rightarrow> 'k \<Rightarrow> 'k handshake \<Rightarrow> bool" where
  "child_after E u k s \<longleftrightarrow> child s \<in> {C_write, C_close_w, C_ret} \<and> asked E u k s"

definition fork_inv :: "'k fork_env \<Rightarrow> umem \<Rightarrow> 'k \<Rightarrow> 'k handshake \<Rightarrow> bool" where
  "fork_inv E u k s \<longleftrightarrow>
     (child_before E u k s \<or> child_after E u k s \<or> child s = C_dead) \<and>
     (c_w s \<longleftrightarrow> child s \<notin> {C_ret, C_dead}) \<and>
     (p_w s \<longleftrightarrow> parent s = P_close_w) \<and>
     parent s \<notin> {E_close_r, E_close_w} \<and>
     (p_r s \<longleftrightarrow> parent s \<notin> {P_ret, P_dead}) \<and>
     (pipe_data s > 0 \<longrightarrow> child s \<in> {C_close_w, C_ret, C_dead})"

definition in_order :: "'k handshake \<Rightarrow> bool" where
  "in_order s \<longleftrightarrow> (parent s \<in> {P_close_r, P_ret} \<longrightarrow> child s \<in> {C_close_w, C_ret, C_dead})"

lemmas fork_inv_defs = fork_inv_def child_before_def child_after_def asked_def

lemma fork_inv_init: "pid > 0 \<Longrightarrow> fork_inv E u k (after_fork pid fd u k) \<and> in_order (after_fork pid fd u k)"
  by (simp add: fork_inv_defs in_order_def after_fork_def)

lemma fork_inv_move:
  assumes "fork_inv E u k s" "fork_move E s s'"
  shows "fork_inv E u k s'"
  using assms(2) unfolding fork_move_def
proof
  assume "fork_step E s s'"
  then show ?thesis
    using assms(1) by (cases rule: fork_step.cases) (auto simp: fork_inv_defs)
next
  assume "fork_kill s s'"
  then show ?thesis
    using assms(1) by (cases rule: fork_kill.cases) (auto simp: fork_inv_defs)
qed

text \<open>The order needs a read that is not interrupted.\<close>

lemma in_order_move:
  assumes "fork_inv E u k s" "in_order s" "fork_move E s s'" "\<not> fe_eintr E"
  shows "in_order s'"
  using assms(3) unfolding fork_move_def
proof
  assume "fork_step E s s'"
  then show ?thesis
    using assms(1,2,4) by (cases rule: fork_step.cases) (auto simp: fork_inv_def in_order_def)
next
  assume "fork_kill s s'"
  then show ?thesis
    using assms(2) by (cases rule: fork_kill.cases) (auto simp: in_order_def)
qed

lemma fork_inv_reach:
  assumes "(fork_move E)\<^sup>*\<^sup>* (after_fork pid fd u k) s" "pid > 0"
  shows "fork_inv E u k s \<and> (\<not> fe_eintr E \<longrightarrow> in_order s)"
  using assms(1)
proof (induction rule: rtranclp_induct)
  case base
  show ?case using fork_inv_init [OF assms(2), of E u k fd] by simp
next
  case (step s s')
  then show ?case by (blast intro: fork_inv_move in_order_move)
qed

lemma in_order_returned:
  assumes "fork_inv E u k s" "in_order s" "parent s = P_ret" "child s \<noteq> C_dead"
  shows "asked E u k s"
  using assms by (auto simp: fork_inv_def in_order_def child_before_def child_after_def)

text \<open>Without a child the parent closes both ends.\<close>

definition no_child :: "'k handshake \<Rightarrow> bool" where
  "no_child s \<longleftrightarrow> child s = C_none \<and> parent s \<in> {E_close_r, E_close_w, P_ret, P_dead}"

lemma no_child_reach:
  assumes "(fork_move E)\<^sup>*\<^sup>* (after_fork pid fd u k) s" "\<not> pid > 0"
  shows "no_child s"
  using assms(1)
proof (induction rule: rtranclp_induct)
  case base
  then show ?case using assms(2) by (simp add: no_child_def after_fork_def)
next
  case (step s s')
  then show ?case by (auto simp: fork_move_def no_child_def elim!: fork_stepE fork_killE)
qed

subsection \<open>The length of a run\<close>

fun p_rank :: "ppc \<Rightarrow> nat" where
  "p_rank P_close_w = 3" | "p_rank P_read = 2" | "p_rank P_close_r = 1"
| "p_rank E_close_r = 2" | "p_rank E_close_w = 1" | "p_rank P_ret = 0" | "p_rank P_dead = 0"

fun c_rank :: "int \<Rightarrow> cpc \<Rightarrow> nat" where
  "c_rank fd C_close_r = (if fd \<ge> 0 then 6 else 5)" | "c_rank fd C_close_fd = 5" | "c_rank fd C_open = 4"
| "c_rank fd C_ioctl = 3" | "c_rank fd C_write = 2" | "c_rank fd C_close_w = 1"
| "c_rank fd C_ret = 0" | "c_rank fd C_dead = 0" | "c_rank fd C_none = 0"

definition fork_rank :: "'k handshake \<Rightarrow> nat" where
  "fork_rank s = p_rank (parent s) + c_rank (child_fd s) (child s)"

lemma p_rank_pos: "x \<noteq> P_ret \<Longrightarrow> x \<noteq> P_dead \<Longrightarrow> 0 < p_rank x"
  by (cases x) auto

lemma c_rank_pos: "x \<noteq> C_ret \<Longrightarrow> x \<noteq> C_dead \<Longrightarrow> x \<noteq> C_none \<Longrightarrow> 0 < c_rank fd x"
  by (cases x) auto

lemma fork_move_rank: "fork_move E s s' \<Longrightarrow> fork_rank s' < fork_rank s"
  unfolding fork_move_def fork_rank_def
  by (auto elim!: fork_stepE fork_killE simp: p_rank_pos c_rank_pos)

lemma fork_run_rank: "(fork_move E ^^ n) s s' \<Longrightarrow> n + fork_rank s' \<le> fork_rank s"
proof (induction n arbitrary: s')
  case (Suc n)
  then obtain t where "(fork_move E ^^ n) s t" "fork_move E t s'" by auto
  with Suc.IH [of t] fork_move_rank [of E t s'] show ?case by simp
qed simp

definition fork_done :: "'k handshake \<Rightarrow> bool" where
  "fork_done s \<longleftrightarrow> parent s \<in> {P_ret, P_dead} \<and> child s \<in> {C_ret, C_dead, C_none}"

text \<open>The child is never blocked, and the parent only while the child can go on.\<close>

lemma child_progress:
  assumes "fork_inv E u k s" "child s \<notin> {C_ret, C_dead}"
    and "\<And>fd k'. fe_open E k = (fd, k') \<Longrightarrow> child_ioctl E fd (u, k') \<noteq> None"
  shows "\<exists>s'. fork_step E s s'"
proof -
  consider "child s = C_close_r" | "child s = C_close_fd" | "child s = C_open" | "child s = C_ioctl"
    | "child s = C_write" | "child s = C_close_w"
    using assms(1,2) by (auto simp: fork_inv_defs)
  then show ?thesis
  proof cases
    case 3
    then show ?thesis using c_open by (metis prod.exhaust)
  next
    case 4
    then have "child_mem s = u" "fe_open E k = (child_fd s, hs_dev s)"
      using assms(1) by (auto simp: fork_inv_defs)
    then have "child_ioctl E (child_fd s) (child_mem s, hs_dev s) \<noteq> None" using assms(3) by simp
    then show ?thesis using 4 c_ioctl by (metis not_None_eq prod.exhaust)
  next
    case 5
    then show ?thesis using c_write c_epipe by blast
  qed (blast intro: fork_step.intros)+
qed

lemma fork_progress:
  assumes inv: "fork_inv E u k s" and "\<not> fork_done s"
    and dev: "\<And>fd k'. fe_open E k = (fd, k') \<Longrightarrow> child_ioctl E fd (u, k') \<noteq> None"
  shows "\<exists>s'. fork_step E s s'"
proof (cases "child s \<in> {C_ret, C_dead}")
  case True
  then have "\<not> c_w s" "parent s \<in> {P_close_w, P_read, P_close_r}"
    using inv assms(2) by (cases "parent s"; auto simp: fork_inv_def fork_done_def)+
  moreover from this have "parent s = P_read \<Longrightarrow> \<not> p_w s" using inv by (simp add: fork_inv_def)
  ultimately show ?thesis using p_read [of s E] by (cases "pipe_data s") (auto intro: p_close_w p_eof p_close_r)
next
  case False
  then show ?thesis by (rule child_progress [OF inv _ dev])
qed

lemma no_child_progress: "no_child s \<Longrightarrow> fork_done s \<or> (\<exists>s'. fork_step E s s')"
  by (auto simp: no_child_def fork_done_def intro: e_close_r e_close_w)

subsection \<open>The handshake with the module\<close>

text \<open>The module behind the device: the child opens it and is the current task of the
  request.\<close>

definition module_env :: "api_src \<Rightarrow> u64 \<Rightarrow> task \<Rightarrow> int \<Rightarrow> u64 \<Rightarrow> u32 \<Rightarrow> u32 \<Rightarrow> bool \<Rightarrow> kernel fork_env" where
  "module_env K stale cur fd req tg p intr =
     \<lparr>fe_dev = chrdev_ioctl K stale cur, fe_open = (\<lambda>s. (fd, snd (shadow_open cur s))),
      fe_req = req, fe_tgid = tg, fe_pid = p, fe_eintr = intr\<rparr>"

lemma ALT_SHADOW_FORK: "ALT_SHADOW_FORK = IOCTL_SHADOW_FORK"
  by (simp add: ALT_SHADOW_FORK_def ioctl_cmds)

lemma child_ioctl_module:
  assumes "uaccess u req 16" "fd \<ge> 0"
  shows "child_ioctl (module_env K stale cur fd req tg p intr) fd (u, k) =
    map_option (\<lambda>(e, k'). (uwrite req (enc_fork \<lparr>fp_error = word_of_int e, p_tgid = tg, p_pid = p\<rparr>)
        (fork_request (module_env K stale cur fd req tg p intr) u), k'))
      (sa_fork K cur (sint tg) (sint p) k)"
proof -
  let ?r = "\<lparr>fp_error = 0, p_tgid = tg, p_pid = p\<rparr>"
  have "uaccess (uwrite req (enc_fork ?r) u) req 16" using assms(1) by (simp add: uaccess_def)
  moreover have "uread (uwrite req (enc_fork ?r) u) req 16 = enc_fork ?r"
    using uread_uwrite [of "enc_fork ?r" req u] by simp
  ultimately show ?thesis
    using assms(2) uaccess_copy [of "uwrite req (enc_fork ?r) u" req 16]
    by (cases "sa_fork K cur (sint tg) (sint p) k")
      (auto simp: child_ioctl_def module_env_def fork_request_def ALT_SHADOW_FORK chrdev_ioctl_def Let_def
        split: if_splits)
qed

text \<open>A run in which the child goes first.\<close>

lemma fork_run_ex:
  assumes "pid > 0" "fd \<ge> 0" "fe_open E k = (fd', k1)" "child_ioctl E fd' (u, k1) = Some (u', k')"
  shows "\<exists>s. (fork_move E ^^ 9) (after_fork pid fd u k) s \<and> parent s = P_ret \<and> child s = C_ret \<and> hs_dev s = k'"
proof -
  let ?s1 = "(after_fork pid fd u k)\<lparr>child := C_close_fd, c_r := False\<rparr>"
  let ?s2 = "?s1\<lparr>child := C_open\<rparr>"
  let ?s3 = "?s2\<lparr>child := C_ioctl, child_fd := fd', hs_dev := k1\<rparr>"
  let ?s4 = "?s3\<lparr>child := C_write, child_mem := u', hs_dev := k'\<rparr>"
  let ?s5 = "?s4\<lparr>child := C_close_w, pipe_data := pipe_data ?s4 + 1\<rparr>"
  let ?s6 = "?s5\<lparr>child := C_ret, c_w := False\<rparr>"
  let ?s7 = "?s6\<lparr>parent := P_read, p_w := False\<rparr>"
  let ?s8 = "?s7\<lparr>parent := P_close_r, pipe_data := pipe_data ?s7 - 1\<rparr>"
  let ?s9 = "?s8\<lparr>parent := P_ret, p_r := False\<rparr>"
  have m1: "fork_move E (after_fork pid fd u k) ?s1"
    using c_close_r [of "after_fork pid fd u k" E] assms(1,2) by (simp add: after_fork_def fork_move_def)
  have m2: "fork_move E ?s1 ?s2" by (rule fork_moveI, rule c_close_fd) simp
  have m3: "fork_move E ?s2 ?s3" by (rule fork_moveI, rule c_open) (simp_all add: after_fork_def assms(3))
  have m4: "fork_move E ?s3 ?s4" by (rule fork_moveI, rule c_ioctl) (simp_all add: after_fork_def assms(4))
  have m5: "fork_move E ?s4 ?s5" by (rule fork_moveI, rule c_write) (simp_all add: after_fork_def)
  have m6: "fork_move E ?s5 ?s6" by (rule fork_moveI, rule c_close_w) (simp)
  have m7: "fork_move E ?s6 ?s7" by (rule fork_moveI, rule p_close_w) (simp add: after_fork_def assms(1))
  have m8: "fork_move E ?s7 ?s8" by (rule fork_moveI, rule p_read) (simp_all)
  have m9: "fork_move E ?s8 ?s9" by (rule fork_moveI, rule p_close_r) (simp)
  note run = relpowp_Suc_I [of _ "fork_move E"]
  from run [OF run [OF run [OF run [OF run [OF run [OF run [OF run [OF run [OF relpowp_0_I m1] m2] m3] m4] m5] m6] m7] m8] m9]
  have "(fork_move E ^^ 9) (after_fork pid fd u k) ?s9"
    by (simp only: eval_nat_numeral BitM.simps One_nat_def)
  then show ?thesis by (intro exI conjI) auto
qed

text \<open>\<open>fd'\<close> is the answer of the child's \<open>open\<close>.\<close>

definition demo_fork :: "int \<Rightarrow> kernel fork_env" where
  "demo_fork fd' = module_env demo_src 0 demo_task fd' 0x100 5 6 False"

lemma demo_fork_run:
  "\<exists>s. (fork_move (demo_fork fd') ^^ 9) (after_fork 4 5 demo_umem busy_kernel) s \<and>
    parent s = P_ret \<and> child s = C_ret"
proof -
  obtain e k1 where "sa_fork demo_src demo_task (sint (5 :: u32)) (sint (6 :: u32)) busy_kernel = Some (e, k1)"
    using sa_fork_inv [OF api_src_ok_demo _ caller_busy, of "sint (5 :: u32)" "sint (6 :: u32)"] api_inv_busy
    by (auto simp: demo_simps)
  then obtain u' k' where "child_ioctl (demo_fork fd') fd' (demo_umem, busy_kernel) = Some (u', k')"
    unfolding demo_fork_def
    by (cases "fd' \<ge> 0") (auto simp: child_ioctl_module [OF uaccess_demo], simp add: child_ioctl_def)
  moreover have "fe_open (demo_fork fd') busy_kernel = (fd', busy_kernel)"
    by (simp add: demo_fork_def module_env_def shadow_open_def)
  ultimately show ?thesis using fork_run_ex [of 4 5 "demo_fork fd'" busy_kernel fd'] by fastforce
qed

text \<open>C18: the handshake of \<open>fork\<close>. Suppose no signal handler interrupts the parent's read, the
  child's request lies in accessible memory and the child has not been killed. When the parent's
  \<open>fork\<close> returns after a successful \<open>real_fork\<close>, then, if the child's \<open>open\<close> succeeded, the module
  has carried out \<open>sa_fork\<close> for the child with the parent's two ids and nothing else, and the status
  is in the child's request. If the \<open>open\<close> failed, which the code does not check, the module's
  state is what it was before, and the parent returns all the same.\<close>

theorem fork_waits:
  assumes "(fork_move (module_env K stale cur fd' req tg p False))\<^sup>*\<^sup>* (after_fork pid fd u k) s"
    and "pid > 0" and "uaccess u req 16" and "parent s = P_ret" and "child s \<noteq> C_dead"
  shows "if fd' \<ge> 0
    then \<exists>e. sa_fork K cur (sint tg) (sint p) k = Some (e, hs_dev s) \<and>
      dec_fork (uread (child_mem s) req 16) = \<lparr>fp_error = word_of_int e, p_tgid = tg, p_pid = p\<rparr>
    else hs_dev s = k"
proof -
  let ?E = "module_env K stale cur fd' req tg p False"
  have "fork_inv ?E u k s" "in_order s" using fork_inv_reach [OF assms(1,2)] by (auto simp: module_env_def)
  then have "asked ?E u k s" by (rule in_order_returned [OF _ _ assms(4,5)])
  then have io: "child_ioctl ?E fd' (u, k) = Some (child_mem s, hs_dev s)"
    by (simp add: asked_def module_env_def shadow_open_def)
  show ?thesis
  proof (cases "fd' \<ge> 0")
    case True
    with io obtain e where "sa_fork K cur (sint tg) (sint p) k = Some (e, hs_dev s)"
        "child_mem s = uwrite req (enc_fork \<lparr>fp_error = word_of_int e, p_tgid = tg, p_pid = p\<rparr>) (fork_request ?E u)"
      by (auto simp: child_ioctl_module [OF assms(3)])
    then show ?thesis
      using True uread_uwrite [of "enc_fork \<lparr>fp_error = word_of_int e, p_tgid = tg, p_pid = p\<rparr>" req "fork_request ?E u"]
      by simp
  next
    case False
    then show ?thesis using io by (simp add: child_ioctl_def)
  qed
qed

theorem fork_waits_witness:
  "(\<exists>s e. (fork_move (demo_fork 3))\<^sup>*\<^sup>* (after_fork 4 5 demo_umem busy_kernel) s \<and> parent s = P_ret \<and>
    sa_fork demo_src demo_task (sint (5 :: u32)) (sint (6 :: u32)) busy_kernel = Some (e, hs_dev s) \<and>
    dec_fork (uread (child_mem s) 0x100 16) = \<lparr>fp_error = word_of_int e, p_tgid = 5, p_pid = 6\<rparr>) \<and>
   (\<exists>s. (fork_move (demo_fork (-1)))\<^sup>*\<^sup>* (after_fork 4 5 demo_umem busy_kernel) s \<and> parent s = P_ret \<and>
    hs_dev s = busy_kernel)"
proof -
  have "\<exists>s. (fork_move (demo_fork fd'))\<^sup>*\<^sup>* (after_fork 4 5 demo_umem busy_kernel) s \<and> parent s = P_ret \<and> child s \<noteq> C_dead" for fd'
    using demo_fork_run [of fd'] relpowp_imp_rtranclp by fastforce
  then obtain s s' where s: "(fork_move (demo_fork 3))\<^sup>*\<^sup>* (after_fork 4 5 demo_umem busy_kernel) s" "parent s = P_ret" "child s \<noteq> C_dead"
      and s': "(fork_move (demo_fork (-1)))\<^sup>*\<^sup>* (after_fork 4 5 demo_umem busy_kernel) s'" "parent s' = P_ret" "child s' \<noteq> C_dead"
    by blast
  show ?thesis
    using fork_waits [OF s(1)[unfolded demo_fork_def] _ uaccess_demo s(2,3)] s
      fork_waits [OF s'(1)[unfolded demo_fork_def] _ uaccess_demo s'(2,3)] s' by fastforce
qed

text \<open>C19: a call of \<open>fork\<close> ends. Counting the system calls after \<open>real_fork\<close> and the kills of
  parent and child, whichever process runs, whoever is killed and whether or not the parent's read
  is interrupted, a run has at most nine steps, eight when the thread had no descriptor of the
  device, and two when \<open>real_fork\<close> failed; and a run that cannot go on has both processes out of
  the function, so neither waits for the other forever. The request lies in accessible memory,
  the module keeps its invariant and the child's task is a legal caller.\<close>

theorem fork_terminates:
  assumes "(fork_move (module_env K stale cur fd' req tg p intr) ^^ n) (after_fork pid fd u k) s"
    and "uaccess u req 16" and "api_src_ok K" and "api_inv (five_level K) k" and "caller_ok cur k"
  shows "n \<le> (if pid > 0 then if fd \<ge> 0 then 9 else 8 else 2) \<and>
    (fork_done s \<or> (\<exists>s'. fork_step (module_env K stale cur fd' req tg p intr) s s'))"
proof -
  let ?E = "module_env K stale cur fd' req tg p intr"
  have "child_ioctl ?E fd' (u, k) \<noteq> None"
  proof (cases "fd' \<ge> 0")
    case True
    then show ?thesis
      using sa_fork_inv [OF assms(3-5), of "sint tg" "sint p"] by (auto simp: child_ioctl_module [OF assms(2)])
  qed (simp add: child_ioctl_def)
  then have dev: "child_ioctl ?E g (u, k') \<noteq> None" if "fe_open ?E k = (g, k')" for g k'
    using that by (auto simp: module_env_def shadow_open_def)
  note r = relpowp_imp_rtranclp [OF assms(1)]
  have "fork_done s \<or> (\<exists>s'. fork_step ?E s s')"
    using fork_progress [OF conjunct1 [OF fork_inv_reach [OF r]] _ dev] no_child_progress [OF no_child_reach [OF r]] by blast
  moreover have "n \<le> (if pid > 0 then if fd \<ge> 0 then 9 else 8 else 2)"
    using fork_run_rank [OF assms(1)] by (auto simp: after_fork_def fork_rank_def split: if_splits)
  ultimately show ?thesis by blast
qed

theorem fork_terminates_witness:
  "\<exists>s. (fork_move (demo_fork 3) ^^ 9) (after_fork 4 5 demo_umem busy_kernel) s \<and>
    (fork_done s \<or> (\<exists>s'. fork_step (demo_fork 3) s s'))"
proof -
  obtain s where s: "(fork_move (demo_fork 3) ^^ 9) (after_fork 4 5 demo_umem busy_kernel) s"
    using demo_fork_run by blast
  then show ?thesis
    using fork_terminates [OF s[unfolded demo_fork_def] uaccess_demo api_src_ok_demo _ caller_busy] api_inv_busy
    by (auto simp: demo_fork_def demo_simps)
qed

text \<open>The read's answer is not looked at: with a signal handler the parent returns while the
  child has not even opened the device.\<close>

lemma fork_interrupted:
  assumes "fe_eintr E" "pid > 0"
  shows "\<exists>s. (fork_step E)\<^sup>*\<^sup>* (after_fork pid fd u k) s \<and> parent s = P_ret \<and> child s = C_close_r \<and> hs_dev s = k"
proof -
  let ?s = "after_fork pid fd u k"
  let ?s1 = "?s\<lparr>parent := P_read, p_w := False\<rparr>"
  let ?s2 = "?s1\<lparr>parent := P_close_r\<rparr>"
  let ?s3 = "?s2\<lparr>parent := P_ret, p_r := False\<rparr>"
  have "fork_step E ?s ?s1" by (rule p_close_w) (simp add: after_fork_def assms(2))
  moreover have "fork_step E ?s1 ?s2" by (rule p_eintr) (simp_all add: assms(1))
  moreover have "fork_step E ?s2 ?s3" by (rule p_close_r) simp
  ultimately have "(fork_step E)\<^sup>*\<^sup>* ?s ?s3" by (meson converse_rtranclp_into_rtranclp rtranclp.rtrancl_refl)
  then show ?thesis using assms(2) by (intro exI conjI) (auto simp: after_fork_def)
qed

end
