(* ===== verification/Table_Teardown.thy ===== *)
theory Table_Teardown
  imports Stack_Window
begin

unbundle bit_operations_syntax

text \<open>
  The teardown of the stack window in \<^verbatim>\<open>lkm/core/chrdev_fops.c\<close> (\<open>sa_tdown\<close>,
  \<open>sa_remove\<close> and its per-level helpers, the \<open>sa_free_*\<close> functions that release an
  empty table) and the release of a table's page in \<^verbatim>\<open>lkm/core/pt_bindings.h\<close>
  (\<open>my_pagetable_free\<close> and its callers). \<open>shadow_release\<close> holds the only call of
  \<open>sa_tdown\<close>, commented out; the functions are modelled as they stand.

  Two things of the build decide what a release does: \<open>own_free\<close>, whether the kernel is
  at least 6.18.7, and \<open>async_free\<close>, its \<open>CONFIG_ASYNC_KERNEL_PGTABLE_FREE\<close>.
  \<open>kernel_table\<close> is the flag \<open>ptdesc_test_kernel\<close> reads from a table's descriptor.
  The releases made are collected in a log, with the descriptor each left behind.
\<close>

record free_cfg =
  own_free :: bool
  async_free :: bool
  kernel_table :: bool

datatype pt_free = Freed_plain | Freed_kernel

record ptdesc =
  pt_dtor_run :: bool
  pt_kernel :: bool
  pt_freed :: "pt_free option"

subsection \<open>Releasing the page of a table\<close>

text \<open>The kernel's own steps: running the destructor or releasing the page a second time is
  undefined.\<close>

definition pagetable_dtor :: "ptdesc \<Rightarrow> ptdesc option" where
  "pagetable_dtor pt = do { ensure (\<not> pt_dtor_run pt); Some (pt\<lparr>pt_dtor_run := True\<rparr>) }"

definition pagetable_release :: "pt_free \<Rightarrow> ptdesc \<Rightarrow> ptdesc option" where
  "pagetable_release how pt = do { ensure (pt_freed pt = None); Some (pt\<lparr>pt_freed := Some how\<rparr>) }"

definition my_pagetable_free_kernel :: "free_cfg \<Rightarrow> ptdesc \<Rightarrow> ptdesc option" where
  "my_pagetable_free_kernel cfg pt =
     (if async_free cfg then pagetable_release Freed_kernel pt else pagetable_release Freed_plain pt)"

definition my_pagetable_free :: "free_cfg \<Rightarrow> ptdesc \<Rightarrow> ptdesc option" where
  "my_pagetable_free cfg pt =
     (if pt_kernel pt then my_pagetable_free_kernel cfg (pt\<lparr>pt_kernel := False\<rparr>)
      else pagetable_release Freed_plain pt)"

definition my_pagetable_dtor_free :: "free_cfg \<Rightarrow> ptdesc \<Rightarrow> ptdesc option" where
  "my_pagetable_dtor_free cfg pt = do { pt \<leftarrow> pagetable_dtor pt; my_pagetable_free cfg pt }"

text \<open>Before 6.18.7 the wrappers call the kernel's \<open>pagetable_dtor_free\<close>,
  \<open>pmd_free\<close> and \<open>pud_free\<close>, which run the destructor and release the page.\<close>

definition my_pte_free :: "free_cfg \<Rightarrow> ptdesc \<Rightarrow> ptdesc option" where
  "my_pte_free cfg pt =
     (if own_free cfg then my_pagetable_dtor_free cfg pt
      else do { pt \<leftarrow> pagetable_dtor pt; pagetable_release Freed_plain pt })"

definition my_pmd_free :: "free_cfg \<Rightarrow> ptdesc \<Rightarrow> ptdesc option" where
  "my_pmd_free cfg pt =
     (if own_free cfg then my_pagetable_dtor_free cfg pt
      else do { pt \<leftarrow> pagetable_dtor pt; pagetable_release Freed_plain pt })"

definition my_pud_free :: "free_cfg \<Rightarrow> ptdesc \<Rightarrow> ptdesc option" where
  "my_pud_free cfg pt =
     (if own_free cfg then my_pagetable_dtor_free cfg pt
      else do { pt \<leftarrow> pagetable_dtor pt; pagetable_release Freed_plain pt })"

text \<open>The kernel's \<open>p4d_free\<close> returns at once without five-level paging; the module's own
  version does not look, so there its argument has to be a table: \<open>desc\<close> is \<open>None\<close>
  when the address it gets is not one.\<close>

definition my_p4d_free :: "free_cfg \<Rightarrow> bool \<Rightarrow> ptdesc option \<Rightarrow> ptdesc option option" where
  "my_p4d_free cfg l5 desc =
     (if own_free cfg then do { pt \<leftarrow> desc; pt \<leftarrow> my_pagetable_dtor_free cfg pt; Some (Some pt) }
      else if l5 then do { pt \<leftarrow> desc; pt \<leftarrow> pagetable_dtor pt; pt \<leftarrow> pagetable_release Freed_plain pt; Some (Some pt) }
      else Some None)"

definition live_table :: "free_cfg \<Rightarrow> ptdesc" where
  "live_table cfg = \<lparr>pt_dtor_run = False, pt_kernel = kernel_table cfg, pt_freed = None\<rparr>"

type_synonym free_log = "(pt_level \<times> ptdesc) list"

subsection \<open>Releasing an empty table\<close>

text \<open>The loops over a table return at the first entry in use.\<close>

fun entry_none :: "'a entry \<Rightarrow> bool" where
  "entry_none ENone = True"
| "entry_none _ = False"

definition sa_free_pte ::
  "free_cfg \<Rightarrow> pte_tab \<Rightarrow> 'c pt_counts_scheme \<times> free_log \<Rightarrow> (pte_tab entry \<times> 'c pt_counts_scheme \<times> free_log) option" where
  "sa_free_pte cfg t = (\<lambda>(c, log).
     if list_ex (\<lambda>i. t i \<noteq> None) [0..<PTRS] then Some (ETab t, c, log)
     else do {
       pt \<leftarrow> my_pte_free cfg (live_table cfg);
       Some (ENone, c\<lparr>nr_ptes := nr_ptes c - 1\<rparr>, log @ [(L_pte, pt)]) })"

definition sa_free_pmd ::
  "free_cfg \<Rightarrow> pmd_tab \<Rightarrow> 'c pt_counts_scheme \<times> free_log \<Rightarrow> (pmd_tab entry \<times> 'c pt_counts_scheme \<times> free_log) option" where
  "sa_free_pmd cfg t = (\<lambda>(c, log).
     if list_ex (\<lambda>i. \<not> entry_none (t i)) [0..<PTRS] then Some (ETab t, c, log)
     else do {
       pt \<leftarrow> my_pmd_free cfg (live_table cfg);
       Some (ENone, c\<lparr>nr_pmds := nr_pmds c - 1\<rparr>, log @ [(L_pmd, pt)]) })"

definition sa_free_pud ::
  "free_cfg \<Rightarrow> pud_tab \<Rightarrow> 'c pt_counts_scheme \<times> free_log \<Rightarrow> (pud_tab entry \<times> 'c pt_counts_scheme \<times> free_log) option" where
  "sa_free_pud cfg t = (\<lambda>(c, log).
     if list_ex (\<lambda>i. \<not> entry_none (t i)) [0..<PTRS] then Some (ETab t, c, log)
     else do {
       pt \<leftarrow> my_pud_free cfg (live_table cfg);
       Some (ENone, c\<lparr>nr_puds := nr_puds c - 1\<rparr>, log @ [(L_pud, pt)]) })"

text \<open>Without five-level paging the pgd slot is the only p4d entry: where it is empty,
  \<open>pgd_page\<close> of it is page frame 0, which is no table, and \<open>pgd_clear\<close> does
  nothing.\<close>

definition sa_free_p4d ::
  "free_cfg \<Rightarrow> bool \<Rightarrow> p4d_tab \<Rightarrow> free_log \<Rightarrow> (p4d_tab entry \<times> free_log) option" where
  "sa_free_p4d cfg l5 t log =
     (if list_ex (\<lambda>i. \<not> entry_none (t i)) [0..<PTRS_PER_P4D l5] then Some (ETab t, log)
      else do {
        r \<leftarrow> my_p4d_free cfg l5 (if l5 then Some (live_table cfg) else None);
        Some (if l5 then ENone else ETab t,
              case r of Some pt \<Rightarrow> log @ [(L_p4d, pt)] | None \<Rightarrow> log) })"

subsection \<open>Clearing a range\<close>

function sa_remove_pte :: "nat \<Rightarrow> u64 \<Rightarrow> u64 \<Rightarrow> pte_tab \<Rightarrow> pte_tab option" where
  "sa_remove_pte idx addr e t =
     (if addr < e then
        let nxt = (addr + PAGE_SIZE) AND level_mask PAGE_SHIFT;
            nxt = (if nxt > e then e else nxt)
        in if idx < PTRS then sa_remove_pte (Suc idx) nxt e (if t idx = None then t else t(idx := None))
           else None
      else Some t)"
  by pat_completeness auto
termination
  by (relation "measure (\<lambda>(idx, addr, e, t). PTRS - idx)") auto

declare sa_remove_pte.simps [simp del]

text \<open>The loop of the upper levels, \<open>for (; addr < end; addr = next, p?d++)\<close>:
  \<open>body\<close> handles one entry that is present and the range below it.\<close>

function remove_loop ::
  "nat \<Rightarrow> nat \<Rightarrow> (u64 \<Rightarrow> u64 \<Rightarrow> 'a \<Rightarrow> 'a option) \<Rightarrow> nat \<Rightarrow> u64 \<Rightarrow> u64 \<Rightarrow> (nat \<Rightarrow> 'a entry) \<Rightarrow>
   (nat \<Rightarrow> 'a entry) option" where
  "remove_loop sh ptrs body idx addr e t =
     (if addr < e then
        if idx < ptrs then
          (case t idx of
             ENone \<Rightarrow> remove_loop sh ptrs body (Suc idx) (addr_end sh addr e) e t
           | EBad \<Rightarrow> None
           | ETab u \<Rightarrow>
               (case body addr (addr_end sh addr e) u of
                  None \<Rightarrow> None
                | Some u \<Rightarrow> remove_loop sh ptrs body (Suc idx) (addr_end sh addr e) e (t(idx := ETab u))))
        else None
      else Some t)"
  by pat_completeness auto
termination
  by (relation "measure (\<lambda>(sh, ptrs, body, idx, addr, e, t). ptrs - idx)") auto

declare remove_loop.simps [simp del]

definition sa_remove_pmd :: "nat \<Rightarrow> u64 \<Rightarrow> u64 \<Rightarrow> pmd_tab \<Rightarrow> pmd_tab option" where
  "sa_remove_pmd = remove_loop PMD_SHIFT PTRS
     (\<lambda>addr nxt t. sa_remove_pte (pt_index PAGE_SHIFT PTRS addr) addr nxt t)"

definition sa_remove_pud :: "nat \<Rightarrow> u64 \<Rightarrow> u64 \<Rightarrow> pud_tab \<Rightarrow> pud_tab option" where
  "sa_remove_pud = remove_loop PUD_SHIFT PTRS
     (\<lambda>addr nxt t. sa_remove_pmd (pt_index PMD_SHIFT PTRS addr) addr nxt t)"

definition sa_remove_p4d :: "bool \<Rightarrow> nat \<Rightarrow> u64 \<Rightarrow> u64 \<Rightarrow> p4d_tab \<Rightarrow> p4d_tab option" where
  "sa_remove_p4d l5 = remove_loop P4D_SHIFT (PTRS_PER_P4D l5)
     (\<lambda>addr nxt t. sa_remove_pud (pt_index PUD_SHIFT PTRS addr) addr nxt t)"

text \<open>One pgd slot; a slot that is not present is skipped (without five-level paging
  \<open>pgd_present\<close> is constantly true).\<close>

definition sa_remove_slot ::
  "free_cfg \<Rightarrow> bool \<Rightarrow> u64 \<Rightarrow> u64 \<Rightarrow> p4d_tab entry \<Rightarrow> free_log \<Rightarrow> (p4d_tab entry \<times> free_log) option" where
  "sa_remove_slot cfg l5 addr nxt ent log =
     (if entry_none ent then Some (ent, log)
      else do {
        t \<leftarrow> tab_of ent;
        t \<leftarrow> sa_remove_p4d l5 (pt_index P4D_SHIFT (PTRS_PER_P4D l5) addr) addr nxt t;
        sa_free_p4d cfg l5 t log })"

lemma PGDIR_SHIFT_less: "PGDIR_SHIFT l5 < 64"
  by (simp add: PGDIR_SHIFT_def)

lemma addr_end_closer: "addr < e \<Longrightarrow> unat e - unat (addr_end (PGDIR_SHIFT l5) addr e) < unat e - unat addr"
  using addr_end_step(1,2) [OF _ PGDIR_SHIFT_less refl, of addr e l5]
  by (simp add: word_less_nat_alt word_le_nat_alt)

function sa_remove ::
  "free_cfg \<Rightarrow> bool \<Rightarrow> u64 \<Rightarrow> u64 \<Rightarrow> pgd_tab \<Rightarrow> free_log \<Rightarrow> (pgd_tab \<times> free_log) option" where
  "sa_remove cfg l5 addr e t log =
     (if addr < e then
        let nxt = addr_end (PGDIR_SHIFT l5) addr e; idx = pt_index (PGDIR_SHIFT l5) PTRS addr
        in (case sa_remove_slot cfg l5 addr nxt (t idx) log of
              None \<Rightarrow> None
            | Some (ent, log) \<Rightarrow> sa_remove cfg l5 nxt e (t(idx := ent)) log)
      else Some (t, log))"
  by pat_completeness auto
termination
  by (relation "measure (\<lambda>(cfg, l5, addr, e, t, log). unat e - unat addr)") (auto simp: addr_end_closer)

declare sa_remove.simps [simp del]

definition sa_tdown :: "free_cfg \<Rightarrow> bool \<Rightarrow> mm_struct \<Rightarrow> (int \<times> mm_struct \<times> free_log) option" where
  "sa_tdown cfg l5 mm = do {
     ensure (\<not> mmap_locked mm);
     let mm = mm\<lparr>mmap_locked := True\<rparr>;
     (t, log) \<leftarrow> sa_remove cfg l5 SS_START SS_END (pgd mm) [];
     let mm = my_flush_tlb_mm (mm\<lparr>pgd := t\<rparr>);
     Some (0, mm\<lparr>mmap_locked := False\<rparr>, log) }"

subsection \<open>What clearing a range does to the translation\<close>

text \<open>A clearing step has no status and no counters; \<open>clearing\<close> gives it the shape of
  a mapping step, so that \<open>maps_to\<close> with the page \<open>None\<close> states what it does.\<close>

definition clearing :: "(u64 \<Rightarrow> u64 \<Rightarrow> 'e \<Rightarrow> 'e option) \<Rightarrow> u64 \<Rightarrow> u64 \<Rightarrow> 'e \<Rightarrow> unit \<Rightarrow> (int \<times> 'e \<times> unit) option" where
  "clearing body a n ent c = map_option (\<lambda>ent. (0, ent, ())) (body a n ent)"

definition entry_step :: "(u64 \<Rightarrow> u64 \<Rightarrow> 'a \<Rightarrow> 'a option) \<Rightarrow> u64 \<Rightarrow> u64 \<Rightarrow> 'a entry \<Rightarrow> 'a entry option" where
  "entry_step body a n ent =
     (case ent of ENone \<Rightarrow> Some ENone | EBad \<Rightarrow> None | ETab u \<Rightarrow> map_option ETab (body a n u))"

abbreviation clears where
  "clears sh W look lo hi body \<equiv> maps_to sh W look (\<lambda>_. ()) (\<lambda>_. None) lo hi (clearing (entry_step body))"

lemma clearing_entry [simp]:
  "clearing (entry_step body) a n ENone c = Some (0, ENone, ())"
  "clearing (entry_step body) a n EBad c = None"
  "clearing (entry_step body) a n (ETab u) c = map_option (\<lambda>u. (0, ETab u, ())) (body a n u)"
  by (simp_all add: clearing_def entry_step_def option.map_comp comp_def)

lemma remove_loop_level:
  assumes "a < e" "sh < 64"
  shows "map_option (\<lambda>t. (0, t, ())) (remove_loop sh ptrs body idx a e t) =
    level_loop sh ptrs (clearing (entry_step body)) e idx a t ()"
  using assms
proof (induction sh ptrs body idx a e t rule: remove_loop.induct)
  case (1 sh ptrs body idx a e t)
  let ?n = "addr_end sh a e"
  note step = addr_end_step [OF "1.prems" refl]
  have stop: "remove_loop sh ptrs body (Suc idx) e e t' = Some t'" for t'
    by (subst remove_loop.simps) simp
  have go: "?n \<noteq> e \<Longrightarrow> ?n < e" using step(2) by simp
  show ?case
  proof (cases "t idx")
    case ENone
    then have "t(idx := ENone) = t" by auto
    with ENone "1.IH"(1) "1.prems" stop go show ?thesis
      by (subst remove_loop.simps, subst level_loop.simps) (cases "?n = e"; simp)
  next
    case (ETab u)
    with "1.IH"(2) "1.prems" stop go show ?thesis
      by (subst remove_loop.simps, subst level_loop.simps)
        (cases "?n = e"; simp add: fun_upd_def split: option.split)
  qed (use "1.prems" in \<open>subst remove_loop.simps, subst level_loop.simps, simp\<close>)
qed

lemma table_level_clears:
  assumes "clears sh W look lo hi body" "12 \<le> sh" "sh < 64" "ptrs = 2 ^ k"
  shows "clears (sh + k) (wf_tab (\<lambda>ent. W ent)) (look_tab sh ptrs look) lo hi
    (\<lambda>a n t. remove_loop sh ptrs body (pt_index sh ptrs a) a n t)"
  unfolding maps_to_def
proof (intro allI impI, goal_cases)
  case (1 a n ent c)
  show ?case
  proof (cases ent)
    case (ETab t)
    then have W: "\<forall>i. W (t i)" using 1(1) by (simp add: wf_tab_def)
    note l = remove_loop_level [OF 1(2) assms(3), of ptrs body "pt_index sh ptrs a" t]
    from level_loop_maps [OF assms 1(2-7) W refl, of "()"]
    obtain t' where "remove_loop sh ptrs body (pt_index sh ptrs a) a n t = Some t'" "\<forall>i. W (t' i)"
      "\<And>x. unat x div 2 ^ (sh + k) = unat a div 2 ^ (sh + k) \<Longrightarrow>
       upd_at 0 a n x None (look (t (pt_index sh ptrs x)) x) (look (t' (pt_index sh ptrs x)) x)"
      unfolding l [symmetric] by auto
    then show ?thesis
      using ETab by (simp add: clearing_def entry_step_def wf_tab_def look_tab_def)
  qed (use 1(1) in \<open>auto simp: clearing_def entry_step_def wf_tab_def upd_at_def look_tab_def\<close>)
qed

lemma page_next:
  fixes a e :: u64
  assumes "a < e" "4096 dvd unat a" "4096 dvd unat e"
  shows "(a + 4096) AND level_mask 12 = a + 4096" "unat (a + 4096) = unat a + 4096" "a + 4096 \<le> e" "a < a + 4096"
proof -
  have le: "unat a + 4096 \<le> unat e"
    using assms by (intro dvd_step) (simp_all add: word_less_nat_alt)
  then show n: "unat (a + 4096) = unat a + 4096"
    using u64_bound [of e] by (intro unat_add_page) simp
  have "4096 dvd unat (a + 4096)"
    using n assms(2) by simp
  then have "unat ((a + 4096) AND level_mask 12) = unat (a + 4096)"
    by (simp add: level_mask_def unat_and_not_mask)
  then show "(a + 4096) AND level_mask 12 = a + 4096" by (simp add: word_unat_eq_iff)
  show "a + 4096 \<le> e" "a < a + 4096"
    using le n by (simp_all add: word_le_nat_alt word_less_nat_alt)
qed

lemma sa_remove_pte_clears:
  assumes "a < e" "4096 dvd unat a" "4096 dvd unat e"
    "(unat e - 1) div 2 ^ 21 = unat a div 2 ^ 21" "idx = pt_index 12 512 a"
  shows "\<exists>t'. sa_remove_pte idx a e t = Some t' \<and>
    (\<forall>x. unat x div 2 ^ 21 = unat a div 2 ^ 21 \<longrightarrow>
       upd_at 0 a e x None (t (pt_index 12 512 x)) (t' (pt_index 12 512 x)))"
  using assms
proof (induction idx a e t rule: sa_remove_pte.induct)
  case (1 idx a e t)
  let ?ix = "pt_index 12 512"
  let ?blk = "\<lambda>x. unat x div 2 ^ 21 = unat a div 2 ^ 21"
  let ?n = "a + PAGE_SIZE"
  let ?t = "t(idx := None)"
  note nx = page_next [OF "1.prems"(1-3)]
  have blk: "?blk x \<Longrightarrow> ?ix x = idx \<longleftrightarrow> unat x div 2 ^ 12 = unat a div 2 ^ 12" for x
    using "1.prems"(5) idx_eq_iff [of "unat x" "2 ^ 12" "2 ^ 9" "unat a"]
    by (simp add: pt_index_eq)
  have idx: "idx < PTRS" using "1.prems"(5) by (simp add: pt_index_eq)
  have inpage: "unat x div 2 ^ 12 = unat a div 2 ^ 12 \<longleftrightarrow> a \<le> x \<and> x < ?n" for x
    using "1.prems"(2) nx(2) by (auto simp: word_le_nat_alt word_less_nat_alt)
  have t: "(if t idx = None then t else ?t) = ?t" by auto
  have unf: "sa_remove_pte idx a e t = sa_remove_pte (Suc idx) ?n e ?t"
    using "1.prems"(1) nx idx by (subst sa_remove_pte.simps) (simp add: Let_def t leD)
  show ?case
  proof (cases "?n = e")
    case True
    have "sa_remove_pte idx a e t = Some ?t"
      unfolding unf True by (subst sa_remove_pte.simps) simp
    moreover have "upd_at 0 a e x None (t (?ix x)) (?t (?ix x))" if "?blk x" for x
      using blk [OF that] inpage [of x] True by (auto simp: upd_at_def)
    ultimately show ?thesis by blast
  next
    case False
    then have ne: "?n < e" using nx(3) by simp
    have nblk: "?blk ?n"
      using block_between [of a ?n e 21] ne nx(4) "1.prems"(4) by simp
    have ix: "?ix ?n = Suc idx"
      using idx_Suc [of "unat ?n" "2 ^ 12" "unat a" "2 ^ 9"] nblk nx(2) "1.prems"(5)
      by (simp add: pt_index_eq div_add_self2)
    have "\<exists>t'. sa_remove_pte (Suc idx) ?n e (if t idx = None then t else ?t) = Some t' \<and>
      (\<forall>x. unat x div 2 ^ 21 = unat ?n div 2 ^ 21 \<longrightarrow>
       upd_at 0 ?n e x None ((if t idx = None then t else ?t) (?ix x)) (t' (?ix x)))"
      using "1.prems" ne nblk ix nx False idx
      by (intro "1.IH" [OF _ refl]) (auto simp: leD)
    then obtain t' where rec: "sa_remove_pte (Suc idx) ?n e ?t = Some t'"
      and upd: "\<And>x. ?blk x \<Longrightarrow> upd_at 0 ?n e x None (?t (?ix x)) (t' (?ix x))"
      unfolding t using nblk by auto
    have "upd_at 0 a e x None (t (?ix x)) (t' (?ix x))" if "?blk x" for x
      using upd [OF that] blk [OF that] inpage [of x] ne nx(4)
      by (auto simp: upd_at_def not_le split: if_splits)
    then show ?thesis using unf rec by auto
  qed
qed

lemma pte_level_clears:
  "clears PMD_SHIFT wf_pte look_pte lo hi (\<lambda>a n t. sa_remove_pte (pt_index PAGE_SHIFT PTRS a) a n t)"
  unfolding maps_to_def
proof (intro allI impI, goal_cases)
  case (1 a n ent c)
  show ?case
  proof (cases ent)
    case (ETab t)
    with sa_remove_pte_clears [OF 1(2,5-7) refl, of t] show ?thesis
      by (auto simp: look_pte_def wf_pte_def wf_tab_def)
  qed (use 1(1) in \<open>auto simp: wf_pte_def wf_tab_def upd_at_def\<close>)
qed

lemma upper_levels_clear:
  "clears PUD_SHIFT wf_pmd look_pmd lo hi (\<lambda>a n t. sa_remove_pmd (pt_index PMD_SHIFT PTRS a) a n t)"
  "clears P4D_SHIFT wf_pud look_pud lo hi (\<lambda>a n t. sa_remove_pud (pt_index PUD_SHIFT PTRS a) a n t)"
  "clears (PGDIR_SHIFT l5) (wf_tab wf_pud) (look_p4d l5) lo hi
     (\<lambda>a n t. sa_remove_p4d l5 (pt_index P4D_SHIFT (PTRS_PER_P4D l5) a) a n t)"
proof -
  show pmd: "clears PUD_SHIFT wf_pmd look_pmd lo hi (\<lambda>a n t. sa_remove_pmd (pt_index PMD_SHIFT PTRS a) a n t)"
    using table_level_clears [OF pte_level_clears, of PTRS 9 lo hi]
    by (simp add: wf_pmd_def look_pmd_def sa_remove_pmd_def)
  show pud: "clears P4D_SHIFT wf_pud look_pud lo hi (\<lambda>a n t. sa_remove_pud (pt_index PUD_SHIFT PTRS a) a n t)"
    using table_level_clears [OF pmd, of PTRS 9] by (simp add: wf_pud_def look_pud_def sa_remove_pud_def)
  show "clears (PGDIR_SHIFT l5) (wf_tab wf_pud) (look_p4d l5) lo hi
     (\<lambda>a n t. sa_remove_p4d l5 (pt_index P4D_SHIFT (PTRS_PER_P4D l5) a) a n t)"
    using table_level_clears [OF pud, of "PTRS_PER_P4D l5" "if l5 then 9 else 0"]
    by (cases l5) (simp_all add: look_p4d_def sa_remove_p4d_def PGDIR_SHIFT_def PTRS_PER_P4D_def)
qed

subsection \<open>The pgd\<close>

definition slot_step ::
  "free_cfg \<Rightarrow> bool \<Rightarrow> u64 \<Rightarrow> u64 \<Rightarrow> p4d_tab entry \<Rightarrow> free_log \<Rightarrow> (int \<times> p4d_tab entry \<times> free_log) option" where
  "slot_step cfg l5 a n ent log = map_option (\<lambda>r. (0, r)) (sa_remove_slot cfg l5 a n ent log)"

lemma sa_remove_level:
  assumes "a < e" "(unat e - 1) div 2 ^ (PGDIR_SHIFT l5 + 9) = unat a div 2 ^ (PGDIR_SHIFT l5 + 9)"
  shows "map_option (\<lambda>r. (0, r)) (sa_remove cfg l5 a e t log) =
    level_loop (PGDIR_SHIFT l5) PTRS (slot_step cfg l5) e (pt_index (PGDIR_SHIFT l5) PTRS a) a t log"
  using assms
proof (induction cfg l5 a e t log rule: sa_remove.induct)
  case (1 cfg l5 a e t log)
  let ?n = "addr_end (PGDIR_SHIFT l5) a e"
  let ?ix = "pt_index (PGDIR_SHIFT l5) PTRS"
  note step = addr_end_step [OF "1.prems"(1) PGDIR_SHIFT_less refl]
  have idx: "?ix a < PTRS" by (simp add: pt_index_eq)
  show ?case
  proof (cases "sa_remove_slot cfg l5 a ?n (t (?ix a)) log")
    case None
    then show ?thesis
      using "1.prems"(1) idx by (subst sa_remove.simps, subst level_loop.simps) (simp add: slot_step_def)
  next
    case (Some r)
    obtain ent log' where r: "r = (ent, log')" by (cases r)
    show ?thesis
    proof (cases "?n = e")
      case True
      have "sa_remove cfg l5 e e t' log' = Some (t', log')" for t'
        by (subst sa_remove.simps) simp
      then show ?thesis
        using "1.prems"(1) idx Some r True
        by (subst sa_remove.simps, subst level_loop.simps) (simp add: slot_step_def Let_def)
    next
      case False
      have n: "unat ?n div 2 ^ PGDIR_SHIFT l5 = Suc (unat a div 2 ^ PGDIR_SHIFT l5)" "?n < e"
        using False step(2,4) [of l5] by auto
      have nblk: "unat ?n div 2 ^ (PGDIR_SHIFT l5 + 9) = unat a div 2 ^ (PGDIR_SHIFT l5 + 9)"
        using block_between [of a ?n e "PGDIR_SHIFT l5 + 9"] step(1) [of l5] n(2) "1.prems"(2) by simp
      have ix: "?ix ?n = Suc (?ix a)"
        using idx_Suc [OF n(1), of "2 ^ 9"] nblk by (simp add: pt_index_eq power_add)
      have "map_option (\<lambda>r. (0, r)) (sa_remove cfg l5 ?n e (t(?ix a := ent)) log') =
          level_loop (PGDIR_SHIFT l5) PTRS (slot_step cfg l5) e (Suc (?ix a)) ?n (t(?ix a := ent)) log'"
        using "1.IH" [OF "1.prems"(1) refl refl Some r [symmetric] n(2)] "1.prems"(2) nblk
        unfolding ix by (simp add: fun_upd_def)
      then show ?thesis
        using "1.prems"(1) idx Some r False
        by (subst sa_remove.simps, subst level_loop.simps) (simp add: slot_step_def Let_def)
    qed
  qed
qed

lemma my_pagetable_dtor_free_live:
  "\<exists>pt. my_pagetable_dtor_free cfg (live_table cfg) = Some pt"
  by (simp add: my_pagetable_dtor_free_def pagetable_dtor_def my_pagetable_free_def
      my_pagetable_free_kernel_def pagetable_release_def live_table_def)

lemma sa_free_p4d_outcome:
  assumes "own_free cfg \<longrightarrow> l5" "wf_p4d l5 (ETab t)"
  shows "\<exists>ent log'. sa_free_p4d cfg l5 t log = Some (ent, log') \<and> wf_p4d l5 ent \<and>
    look_p4d l5 ent = look_p4d l5 (ETab t)"
proof (cases "list_ex (\<lambda>i. \<not> entry_none (t i)) [0..<PTRS_PER_P4D l5]")
  case True
  then show ?thesis using assms(2) by (simp add: sa_free_p4d_def)
next
  case False
  have "\<exists>r. my_p4d_free cfg l5 (if l5 then Some (live_table cfg) else None) = Some r"
    using assms(1) my_pagetable_dtor_free_live [of cfg]
    by (auto simp: my_p4d_free_def pagetable_dtor_def pagetable_release_def live_table_def)
  moreover have "look_p4d l5 (ETab t) x = None" if l5 for x
  proof -
    have "pt_index P4D_SHIFT (PTRS_PER_P4D l5) x \<in> set [0..<PTRS_PER_P4D l5]"
      by (simp add: pt_index_eq PTRS_PER_P4D_def)
    then have "entry_none (t (pt_index P4D_SHIFT (PTRS_PER_P4D l5) x))"
      using False by (auto simp: list_ex_iff)
    then show ?thesis by (auto simp: look_p4d_def look_tab_def elim!: entry_none.elims)
  qed
  ultimately show ?thesis
    using False assms(2) by (auto simp: sa_free_p4d_def wf_p4d_def look_p4d_def fun_eq_iff)
qed

lemma slot_clears:
  assumes "own_free cfg \<longrightarrow> l5"
  shows "maps_to (PGDIR_SHIFT l5) (wf_p4d l5) (look_p4d l5) (\<lambda>_. ()) (\<lambda>_. None) lo hi (slot_step cfg l5)"
  unfolding maps_to_def
proof (intro allI impI, goal_cases)
  case (1 a n ent log)
  have wf: "wf_tab wf_pud ent" using 1(1) by (simp add: wf_p4d_def)
  show ?case
  proof (cases ent)
    case (ETab t)
    obtain t' where t': "sa_remove_p4d l5 (pt_index P4D_SHIFT (PTRS_PER_P4D l5) a) a n t = Some t'"
        "wf_tab wf_pud (ETab t')"
        "\<And>x. unat x div 2 ^ PGDIR_SHIFT l5 = unat a div 2 ^ PGDIR_SHIFT l5 \<Longrightarrow>
           upd_at 0 a n x None (look_p4d l5 ent x) (look_p4d l5 (ETab t') x)"
      by (rule maps_toD [OF upper_levels_clear(3) wf 1(2-7), where c = "()"]) (auto simp: ETab)
    then have "wf_p4d l5 (ETab t')" by (simp add: wf_p4d_def)
    from sa_free_p4d_outcome [OF assms this, of log] t' ETab show ?thesis
      by (auto simp: slot_step_def sa_remove_slot_def tab_of_def)
  qed (use 1(1) in \<open>auto simp: slot_step_def sa_remove_slot_def wf_p4d_def wf_tab_def upd_at_def look_p4d_def\<close>)
qed

subsection \<open>The teardown\<close>

lemma window_range:
  "SS_START < SS_END" "4096 dvd unat SS_START" "4096 dvd unat SS_END"
  "(unat SS_END - 1) div 2 ^ (PGDIR_SHIFT l5 + 9) = unat SS_START div 2 ^ (PGDIR_SHIFT l5 + 9)"
  by (simp_all add: word_less_nat_alt window_consts PGDIR_SHIFT_def)

lemma sa_tdown_outcome:
  assumes "own_free cfg \<longrightarrow> l5" and "\<not> mmap_locked mm" and "wf_pgd l5 (pgd mm)"
  shows "\<exists>mm' log. sa_tdown cfg l5 mm = Some (0, mm', log) \<and> wf_pgd l5 (pgd mm') \<and> \<not> mmap_locked mm' \<and>
    (\<forall>x. top_block l5 x = top_block l5 SS_START \<longrightarrow>
       translate l5 (pgd mm') x = (if SS_START \<le> x \<and> x < SS_END then None else translate l5 (pgd mm) x)) \<and>
    tlb_flushes mm' = tlb_flushes mm @ [(0, - 1)] \<and>
    nr_ptes mm' = nr_ptes mm \<and> nr_pmds mm' = nr_pmds mm \<and> nr_puds mm' = nr_puds mm"
proof -
  let ?ix = "pt_index (PGDIR_SHIFT l5) PTRS"
  have "12 \<le> PGDIR_SHIFT l5" "PGDIR_SHIFT l5 < 64" "PTRS = 2 ^ 9"
    by (simp_all add: PGDIR_SHIFT_def)
  from level_loop_maps [OF slot_clears [OF assms(1)] this window_range(1) order_refl order_refl
      window_range(2-4), of "pgd mm" "?ix SS_START" "[]"]
  obtain t' log where s: "sa_remove cfg l5 SS_START SS_END (pgd mm) [] = Some (t', log)" "\<forall>i. wf_p4d l5 (t' i)"
      "\<And>x. unat x div 2 ^ (PGDIR_SHIFT l5 + 9) = unat SS_START div 2 ^ (PGDIR_SHIFT l5 + 9) \<Longrightarrow>
       upd_at 0 SS_START SS_END x None (look_p4d l5 (pgd mm (?ix x)) x) (look_p4d l5 (t' (?ix x)) x)"
    using assms(3) unfolding sa_remove_level [OF window_range(1,4), symmetric] by (auto simp: wf_pgd_def)
  then have "\<forall>x. top_block l5 x = top_block l5 SS_START \<longrightarrow>
       translate l5 t' x = (if SS_START \<le> x \<and> x < SS_END then None else translate l5 (pgd mm) x)"
    by (auto simp: top_block_def translate_def upd_at_def)
  with s(1,2) assms(2) show ?thesis
    by (simp add: sa_tdown_def Let_def my_flush_tlb_mm_def flush_tlb_mm_range_def wf_pgd_def)
qed

text \<open>C35: where no table of its own has to be released for a folded level (a kernel before
  6.18.7, or five-level paging), \<open>sa_tdown\<close> is defined, removes every translation of the
  stack window and no other, flushes the TLB and leaves the lock as it found it; it gives back
  none of the page-table, pmd and pud tables.\<close>

theorem sa_tdown_clears:
  assumes "own_free cfg \<longrightarrow> l5" and "\<not> mmap_locked mm" and "wf_pgd l5 (pgd mm)"
  shows "\<exists>mm' log. sa_tdown cfg l5 mm = Some (0, mm', log) \<and> wf_pgd l5 (pgd mm') \<and> \<not> mmap_locked mm' \<and>
    (\<forall>x. top_block l5 x = top_block l5 SS_START \<longrightarrow>
       translate l5 (pgd mm') x = (if SS_START \<le> x \<and> x < SS_END then None else translate l5 (pgd mm) x)) \<and>
    tlb_flushes mm' = tlb_flushes mm @ [(0, - 1)] \<and>
    nr_ptes mm' = nr_ptes mm \<and> nr_pmds mm' = nr_pmds mm \<and> nr_puds mm' = nr_puds mm"
  by (rule sa_tdown_outcome [OF assms])

text \<open>The configurations for the witnesses: an older kernel without and a recent one with
  asynchronous freeing.\<close>

definition old_cfg :: free_cfg where
  "old_cfg = \<lparr>own_free = False, async_free = False, kernel_table = False\<rparr>"

definition new_cfg :: free_cfg where
  "new_cfg = \<lparr>own_free = True, async_free = True, kernel_table = False\<rparr>"

theorem sa_tdown_clears_witness:
  "\<exists>mm' log. sa_tdown old_cfg False init_mm = Some (0, mm', log) \<and> translate False (pgd mm') (id_to_addr 3) = None \<and>
     tlb_flushes mm' = [(0, - 1)]"
proof -
  have "\<not> mmap_locked init_mm" "wf_pgd False (pgd init_mm)" "own_free old_cfg \<longrightarrow> False"
    using wf_empty_pgd [of False] by (simp_all add: init_mm_def old_cfg_def)
  from sa_tdown_clears [OF this(3,1,2)] show ?thesis
    by (auto simp: init_mm_def id_to_addr_def SS_START_def SS_END_def SS_SIZE_def top_block_def PGDIR_SHIFT_def
        dest!: spec [of _ "id_to_addr 3"])
qed

lemma remove_loop_empty:
  "remove_loop sh ptrs body idx a e t = Some t' \<Longrightarrow> entry_none (t' i) = entry_none (t i)"
proof (induction sh ptrs body idx a e t rule: remove_loop.induct)
  case (1 sh ptrs body idx a e t)
  show ?case
    using "1.prems" "1.IH"
    by (subst (asm) remove_loop.simps) (auto simp: fun_upd_def split: if_splits entry.splits option.splits)
qed

lemma sa_remove_slot_needs:
  assumes "own_free cfg" "sa_remove_slot cfg False a n (ETab u) log = Some r"
  shows "\<not> entry_none (u 0)"
proof -
  from assms(2) obtain u' where "sa_remove_p4d False (pt_index P4D_SHIFT (PTRS_PER_P4D False) a) a n u = Some u'"
      and f: "sa_free_p4d cfg False u' log = Some r"
    by (auto simp: sa_remove_slot_def tab_of_def bind_eq_Some_conv)
  then have "entry_none (u' 0) = entry_none (u 0)"
    by (auto simp: sa_remove_p4d_def dest: remove_loop_empty)
  with f assms(1) show ?thesis
    by (auto simp: sa_free_p4d_def my_p4d_free_def PTRS_PER_P4D_def split: if_splits)
qed

lemma sa_remove_needs:
  assumes "sa_remove cfg False a e t log = Some r" "own_free cfg" "a \<le> x" "x < e"
    "t (pt_index (PGDIR_SHIFT False) PTRS x) = ETab u"
  shows "\<not> entry_none (u 0)"
  using assms
proof (induction cfg False a e t log rule: sa_remove.induct)
  case (1 cfg a e t log)
  let ?n = "addr_end (PGDIR_SHIFT False) a e"
  let ?ix = "pt_index (PGDIR_SHIFT False) PTRS"
  have lt: "a < e" using "1.prems"(3,4) by simp
  then obtain ent log' where s: "sa_remove_slot cfg False a ?n (t (?ix a)) log = Some (ent, log')"
      and rec: "sa_remove cfg False ?n e (t(?ix a := ent)) log' = Some r"
    using "1.prems"(1) by (subst (asm) sa_remove.simps) (auto simp: Let_def split: option.splits)
  show ?case
  proof (cases "?ix x = ?ix a")
    case True
    then show ?thesis using sa_remove_slot_needs [OF "1.prems"(2)] s "1.prems"(5) by simp
  next
    case False
    have "?n \<le> x"
    proof (rule ccontr)
      assume "\<not> ?n \<le> x"
      then have "unat x div 2 ^ PGDIR_SHIFT False = unat a div 2 ^ PGDIR_SHIFT False"
        using block_between [OF "1.prems"(3) _ addr_end_step(3) [OF lt PGDIR_SHIFT_less refl]] by simp
      with False show False by (simp add: pt_index_eq)
    qed
    then show ?thesis
      using "1.hyps" [OF lt refl refl s refl] rec "1.prems" False by simp
  qed
qed

text \<open>C36: with four-level paging on a kernel from 6.18.7 on, \<open>sa_tdown\<close> is undefined
  whenever one of the 34 top-level slots of the window is empty: it passes page frame 0 to the
  page-table release.\<close>

theorem sa_tdown_undefined:
  assumes "own_free cfg" and "SS_START \<le> x" and "x < SS_END"
    and "pgd mm (pt_index (PGDIR_SHIFT False) PTRS x) = ETab u" and "u 0 = ENone"
  shows "sa_tdown cfg False mm = None"
proof -
  have "sa_remove cfg False SS_START SS_END (pgd mm) [] = None"
    using sa_remove_needs [of cfg SS_START SS_END "pgd mm" "[]" _ x u] assms
    by (cases "sa_remove cfg False SS_START SS_END (pgd mm) []") auto
  then show ?thesis by (simp add: sa_tdown_def)
qed

theorem sa_tdown_undefined_witness: "sa_tdown new_cfg False init_mm = None"
  by (rule sa_tdown_undefined [of _ "SS_START" _ "\<lambda>_. ENone"])
    (simp_all add: new_cfg_def window_range init_mm_def empty_pgd_def)

definition table_released :: "free_cfg \<Rightarrow> ptdesc \<Rightarrow> bool" where
  "table_released cfg pt \<longleftrightarrow> pt_dtor_run pt \<and>
     pt_freed pt = Some (if own_free cfg \<and> kernel_table cfg \<and> async_free cfg then Freed_kernel else Freed_plain)"

lemma my_free_live:
  "\<exists>pt. my_pte_free cfg (live_table cfg) = Some pt \<and> table_released cfg pt"
  "my_pmd_free cfg = my_pte_free cfg" "my_pud_free cfg = my_pte_free cfg"
  by (auto simp: my_pte_free_def my_pmd_free_def my_pud_free_def my_pagetable_dtor_free_def pagetable_dtor_def
      my_pagetable_free_def my_pagetable_free_kernel_def pagetable_release_def live_table_def table_released_def fun_eq_iff)

definition empty_table :: "(nat \<Rightarrow> 'e) \<Rightarrow> 'e \<Rightarrow> bool" where
  "empty_table t none \<longleftrightarrow> (\<forall>i < PTRS. t i = none)"

lemma entry_none_iff: "entry_none ent \<longleftrightarrow> ent = ENone"
  by (cases ent) simp_all

lemma empty_table_look:
  "empty_table t None \<Longrightarrow> look_pte (ETab t) x = None"
  "empty_table t' ENone \<Longrightarrow> look_tab sh PTRS look (ETab t') x = look ENone x"
  by (simp_all add: empty_table_def look_pte_def look_tab_def pt_index_eq)

text \<open>A page-table, pmd or pud table is released exactly when all its entries are empty: the
  destructor runs once and the page is freed once, the counter goes down by one and the entry
  above is cleared; otherwise nothing changes. No translation changes either way.\<close>

lemma sa_free_pte_outcome:
  "\<exists>ent c' log'. sa_free_pte cfg t (c, log) = Some (ent, c', log') \<and> look_pte ent = look_pte (ETab t) \<and>
    (if empty_table t None
     then ent = ENone \<and> c' = c\<lparr>nr_ptes := nr_ptes c - 1\<rparr> \<and> (\<exists>pt. log' = log @ [(L_pte, pt)] \<and> table_released cfg pt)
     else ent = ETab t \<and> c' = c \<and> log' = log)"
proof -
  have "list_ex (\<lambda>i. t i \<noteq> None) [0..<PTRS] \<longleftrightarrow> \<not> empty_table t None"
    by (auto simp: list_ex_iff empty_table_def simp del: upt_rec_numeral)
  with my_free_live(1) [of cfg] show ?thesis
    by (auto simp: sa_free_pte_def empty_table_look fun_eq_iff simp del: upt_rec_numeral)
qed

lemma table_in_use: "list_ex (\<lambda>i. \<not> entry_none (t i)) [0..<PTRS] \<longleftrightarrow> \<not> empty_table t ENone"
  by (auto simp: list_ex_iff empty_table_def entry_none_iff simp del: upt_rec_numeral)

lemma sa_free_pmd_outcome:
  "\<exists>ent c' log'. sa_free_pmd cfg t (c, log) = Some (ent, c', log') \<and> look_pmd ent = look_pmd (ETab t) \<and>
    (if empty_table t ENone
     then ent = ENone \<and> c' = c\<lparr>nr_pmds := nr_pmds c - 1\<rparr> \<and> (\<exists>pt. log' = log @ [(L_pmd, pt)] \<and> table_released cfg pt)
     else ent = ETab t \<and> c' = c \<and> log' = log)"
  using my_free_live(1) [of cfg]
  by (auto simp: sa_free_pmd_def table_in_use my_free_live(2) look_pmd_def empty_table_look fun_eq_iff
      simp del: upt_rec_numeral)

lemma sa_free_pud_outcome:
  "\<exists>ent c' log'. sa_free_pud cfg t (c, log) = Some (ent, c', log') \<and> look_pud ent = look_pud (ETab t) \<and>
    (if empty_table t ENone
     then ent = ENone \<and> c' = c\<lparr>nr_puds := nr_puds c - 1\<rparr> \<and> (\<exists>pt. log' = log @ [(L_pud, pt)] \<and> table_released cfg pt)
     else ent = ETab t \<and> c' = c \<and> log' = log)"
  using my_free_live(1) [of cfg]
  by (auto simp: sa_free_pud_def table_in_use my_free_live(3) look_pud_def empty_table_look fun_eq_iff
      simp del: upt_rec_numeral)

end
