(* ===== verification/Table_Lifetime.thy ===== *)
theory Table_Lifetime
  imports Shadow_Api Table_Teardown
begin

text \<open>
  The page tables of one process over its life: the section of \<open>sa_alloc\<close> and
  \<open>sa_fork\<close> that maps a stack into its slot, the one of \<open>sa_free\<close> that is to unmap it,
  and the teardown of the window, in any order and each under the lock of the address space.

  The tables are data of a type that admits ill-formed values: an entry may hold something that
  is neither empty nor a table (\<open>EBad\<close>, on which a walk is undefined), and with four levels
  the top entry has to hold the folded level. Well-formedness (\<open>wf_pgd\<close>) excludes both.
  A log of the stacks mapped since the last teardown is kept beside the tables, for the
  specification only.
\<close>

datatype table_op = Map_slot u32 sa_pagelist | Unmap_slot u32 | Teardown

definition table_step ::
  "bool \<Rightarrow> table_src \<Rightarrow> free_cfg \<Rightarrow> table_op \<Rightarrow> mm_struct \<times> (u32 \<times> sa_pagelist) list \<Rightarrow>
   (int \<times> mm_struct \<times> (u32 \<times> sa_pagelist) list) option" where
  "table_step l5 ts cfg op = (\<lambda>(mm, mapped).
     case op of
       Map_slot n pl \<Rightarrow> do {
         mm \<leftarrow> mmap_write_lock mm;
         (err, mm) \<leftarrow> map_range l5 ts (id_to_addr n) (id_to_addr n + SS_SIZE) pl mm;
         mm \<leftarrow> mmap_write_unlock mm;
         Some (err, my_flush_tlb_mm mm, (n, pl) # mapped) }
     | Unmap_slot n \<Rightarrow> do {
         mm \<leftarrow> mmap_write_lock mm;
         mm \<leftarrow> unmap_range (id_to_addr n) (id_to_addr n + SS_SIZE) mm;
         mm \<leftarrow> mmap_write_unlock mm;
         Some (0, mm, mapped) }
     | Teardown \<Rightarrow> do {
         (err, mm, log) \<leftarrow> sa_tdown cfg l5 mm;
         Some (err, mm, []) })"

text \<open>What the callers guarantee: the slot numbers come from the xarray with its inclusive
  limit, the page lists are whole stacks. The teardown is defined on kernels before 6.18.7 and with
  five-level paging; on later kernels with four levels it is undefined in general, and no teardown
  is part of the sequences considered there.\<close>

definition table_enabled :: "bool \<Rightarrow> free_cfg \<Rightarrow> table_op \<Rightarrow> mm_struct \<times> (u32 \<times> sa_pagelist) list \<Rightarrow> bool" where
  "table_enabled l5 cfg op s =
     (case op of
        Map_slot n pl \<Rightarrow> unat n \<le> unat THREADS_LIMIT \<and> wf_pagelist STACK_PAGES pl
      | Unmap_slot n \<Rightarrow> unat n \<le> unat THREADS_LIMIT
      | Teardown \<Rightarrow> own_free cfg \<longrightarrow> l5)"

definition mapped_page :: "u32 \<Rightarrow> sa_pagelist \<Rightarrow> u64 \<Rightarrow> page" where
  "mapped_page n pl x = frames pl ! (unat (x - id_to_addr n) div 4096)"

definition window_sourced :: "bool \<Rightarrow> pgd_tab \<Rightarrow> (u32 \<times> sa_pagelist) list \<Rightarrow> bool" where
  "window_sourced l5 t mapped \<longleftrightarrow> (\<forall>x q. SS_START \<le> x \<and> x < SS_END \<and> translate l5 t x = Some q \<longrightarrow>
     (\<exists>(n, pl) \<in> set mapped. in_slot n x \<and> q = mapped_page n pl x))"

definition tables_ok :: "bool \<Rightarrow> mm_struct \<times> (u32 \<times> sa_pagelist) list \<Rightarrow> bool" where
  "tables_ok l5 = (\<lambda>(mm, mapped). \<not> mmap_locked mm \<and> wf_pgd l5 (pgd mm) \<and>
     window_sourced l5 (pgd mm) mapped)"

lemma window_block: "SS_START \<le> x \<Longrightarrow> top_block l5 x = top_block l5 SS_START"
  by (simp add: top_block_high window_consts word_le_nat_alt)

lemma slot_in_block: "unat n \<le> 0x220000 \<Longrightarrow> top_block l5 (id_to_addr n) = top_block l5 SS_START"
  by (simp add: top_block_high unat_id_to_addr window_consts)

lemma tables_map:
  assumes ok: "tables_ok l5 (mm, mapped)" and n: "unat n \<le> unat THREADS_LIMIT" and pl: "wf_pagelist STACK_PAGES pl"
  shows "\<exists>err s'. table_step l5 ts cfg (Map_slot n pl) (mm, mapped) = Some (err, s') \<and> tables_ok l5 s'"
proof -
  let ?a = "id_to_addr n" and ?mm = "mm\<lparr>mmap_locked := True\<rparr>"
  have n': "unat n \<le> 0x220000" using n by (simp add: window_consts)
  have lk: "mmap_locked ?mm" "wf_pgd l5 (pgd ?mm)" using ok by (simp_all add: tables_ok_def)
  obtain err mm' where m: "map_range l5 ts ?a (?a + SS_SIZE) pl ?mm = Some (err, mm')" "wf_pgd l5 (pgd mm')" "mmap_locked mm'"
    and upd: "\<And>x. top_block l5 x = top_block l5 ?a \<Longrightarrow>
      upd_at err ?a (?a + SS_SIZE) x (page_at (map Some (frames pl)) ?a x) (translate l5 (pgd ?mm) x) (translate l5 (pgd mm') x)"
    using map_stack_outcome [OF lk(1,2) pl n', of ts] by blast
  have "window_sourced l5 (pgd mm') ((n, pl) # mapped)"
    unfolding window_sourced_def
  proof (intro allI impI)
    fix x q assume x: "SS_START \<le> x \<and> x < SS_END \<and> translate l5 (pgd mm') x = Some q"
    have "top_block l5 x = top_block l5 ?a" using x window_block [of x l5] slot_in_block [OF n'] by simp
    note u = upd [OF this]
    show "\<exists>(n, pl) \<in> set ((n, pl) # mapped). in_slot n x \<and> q = mapped_page n pl x"
    proof (cases "translate l5 (pgd mm) x = Some q")
      case True
      then show ?thesis using ok x unfolding tables_ok_def window_sourced_def by fastforce
    next
      case False
      then have s: "in_slot n x" "page_at (map Some (frames pl)) ?a x = Some q"
        using u x by (auto simp: upd_at_def in_slot_def split: if_splits)
      then have "q = mapped_page n pl x"
        using covers_stack(3) [OF pl n', of x] by (simp add: in_slot_def mapped_page_def)
      with s(1) show ?thesis by simp
    qed
  qed
  then have "tables_ok l5 (my_flush_tlb_mm (mm'\<lparr>mmap_locked := False\<rparr>), (n, pl) # mapped)"
    using m ok by (simp add: tables_ok_def my_flush_tlb_mm_def flush_tlb_mm_range_def)
  then show ?thesis
    using m ok by (auto simp: table_step_def tables_ok_def mmap_write_lock_def mmap_write_unlock_def)
qed

lemma tables_unmap:
  assumes "tables_ok l5 (mm, mapped)"
  shows "\<exists>err s'. table_step l5 ts cfg (Unmap_slot n) (mm, mapped) = Some (err, s') \<and> tables_ok l5 s'"
  using assms
  by (simp add: table_step_def tables_ok_def mmap_write_lock_def mmap_write_unlock_def unmap_range_def flush_tlb_mm_range_def)

lemma tables_teardown:
  assumes "own_free cfg \<longrightarrow> l5" "tables_ok l5 (mm, mapped)"
  shows "\<exists>err s'. table_step l5 ts cfg Teardown (mm, mapped) = Some (err, s') \<and> tables_ok l5 s'"
proof -
  have pre: "\<not> mmap_locked mm" "wf_pgd l5 (pgd mm)" using assms(2) by (simp_all add: tables_ok_def)
  obtain mm' log where t: "sa_tdown cfg l5 mm = Some (0, mm', log)" "wf_pgd l5 (pgd mm')" "\<not> mmap_locked mm'"
    and none: "\<forall>x. top_block l5 x = top_block l5 SS_START \<longrightarrow>
       translate l5 (pgd mm') x = (if SS_START \<le> x \<and> x < SS_END then None else translate l5 (pgd mm) x)"
    using sa_tdown_outcome [OF assms(1) pre] by blast
  have "translate l5 (pgd mm') x = None" if "SS_START \<le> x" "x < SS_END" for x
    using none window_block [of x l5] that by simp
  then have "window_sourced l5 (pgd mm') []" by (simp add: window_sourced_def)
  then show ?thesis using t assms by (simp add: table_step_def tables_ok_def)
qed

interpretation table_life: safe_system "tables_ok l5" "table_enabled l5 cfg" "table_step l5 ts cfg" for l5 ts cfg
proof
  show "\<exists>out s'. table_step l5 ts cfg r s = Some (out, s') \<and> tables_ok l5 s'"
    if "tables_ok l5 s" "table_enabled l5 cfg r s" for s r
    using that tables_map [of l5 "fst s" "snd s"] tables_unmap [of l5 "fst s" "snd s"]
      tables_teardown [of cfg l5 "fst s" "snd s"]
    by (cases r) (auto simp: table_enabled_def)
qed

text \<open>C13: from tables that are well-formed, hold no huge page and translate no address of the stack
  window, whatever stacks are mapped, unmapped and torn down, in whatever order and whatever
  page-table pages the kernel grants, the tables of the process stay well-formed at every level,
  every further operation is defined and leaves the lock free, and an address of the window
  translates, if at all, to the page at its offset in a stack that was mapped at its slot since
  the last teardown. Teardowns are included on kernels before 6.18.7 and with five-level paging;
  with four levels on a later kernel, where a teardown is undefined, this is about mapping and
  unmapping.\<close>

theorem tables_stay_well_formed:
  assumes "wf_pgd l5 (pgd mm0)" and "\<not> mmap_locked mm0"
    and "\<forall>x. SS_START \<le> x \<and> x < SS_END \<longrightarrow> translate l5 (pgd mm0) x = None"
    and "reach (table_enabled l5 cfg) (table_step l5 ts cfg) (mm0, []) (mm, mapped)"
  shows "wf_pgd l5 (pgd mm) \<and> \<not> mmap_locked mm \<and>
    (\<forall>op. (case op of
        Map_slot n pl \<Rightarrow> unat n \<le> unat THREADS_LIMIT \<and> wf_pagelist STACK_PAGES pl
      | Unmap_slot n \<Rightarrow> unat n \<le> unat THREADS_LIMIT
      | Teardown \<Rightarrow> own_free cfg \<longrightarrow> l5) \<longrightarrow> (\<exists>r. table_step l5 ts cfg op (mm, mapped) = Some r)) \<and>
    (\<forall>x q. SS_START \<le> x \<and> x < SS_END \<and> translate l5 (pgd mm) x = Some q \<longrightarrow>
      (\<exists>(n, pl) \<in> set mapped. in_slot n x \<and> q = mapped_page n pl x))"
proof -
  have start: "tables_ok l5 (mm0, [])" using assms(1-3) by (simp add: tables_ok_def window_sourced_def)
  have "tables_ok l5 (mm, mapped)" by (rule table_life.reach_inv [OF assms(4) start])
  moreover have "\<exists>r. table_step l5 ts cfg op (mm, mapped) = Some r" if "table_enabled l5 cfg op (mm, mapped)" for op
    using table_life.reach_progress [OF assms(4) start that] by blast
  ultimately show ?thesis by (simp add: tables_ok_def window_sourced_def table_enabled_def)
qed

lemma empty_translates: "translate l5 (empty_pgd l5) x = None"
  by (simp add: translate_def empty_pgd_def look_p4d_def look_tab_def)

theorem tables_stay_well_formed_witness:
  "\<exists>s. run_all (table_enabled False old_cfg) (table_step False (\<lambda>l t. t < 2) old_cfg)
      [Map_slot 3 one_stack, Unmap_slot 3, Teardown, Map_slot 4 one_stack] (init_mm, []) = Some s \<and>
    wf_pgd False (pgd (fst s)) \<and> \<not> mmap_locked (fst s)"
proof -
  let ?ops = "[Map_slot 3 one_stack, Unmap_slot 3, Teardown, Map_slot 4 one_stack]"
  let ?step = "table_step False (\<lambda>l t. t < 2) old_cfg"
  have start: "wf_pgd False (pgd init_mm)" "\<not> mmap_locked init_mm"
      "\<forall>x. SS_START \<le> x \<and> x < SS_END \<longrightarrow> translate False (pgd init_mm) x = None"
    using wf_empty_pgd [of False] by (simp_all add: init_mm_def empty_translates)
  have en: "table_enabled False old_cfg r s" if "r \<in> set ?ops" for r s
    using that wf_one_stack by (auto simp: table_enabled_def old_cfg_def window_consts STACK_PAGES_eq)
  have "tables_ok False (init_mm, [])" using start by (simp add: tables_ok_def window_sourced_def)
  then obtain s where s: "run_all (table_enabled False old_cfg) ?step ?ops (init_mm, []) = Some s"
    using table_life.run_all_defined [of False "(init_mm, [])" ?ops old_cfg "\<lambda>l t. t < 2"] en
    by blast
  have "reach (table_enabled False old_cfg) ?step (init_mm, []) (fst s, snd s)" using reach_run [OF s reach_start] by simp
  from tables_stay_well_formed [OF start this] s show ?thesis by auto
qed

end
