(* ===== verification/Alloc_Race.thy ===== *)
theory Alloc_Race
  imports Api_Properties
begin

text \<open>
  Two threads of a process inside the module at the same time. \<open>sa_alloc\<close> holds no lock between
  the reservation of a slot and the entry of its thread descriptor: the slot is in the xarray with
  a NULL entry meanwhile. \<open>sa_free\<close> erases whatever is in the slot before it looks at it, so
  a release of an address whose allocation is under way takes the reservation away.

  \<open>sa_alloc\<close> is split where the reservation is visible to others; run without a gap its two
  halves are \<open>sa_alloc\<close>.
\<close>

definition sa_alloc_reserve ::
  "api_src \<Rightarrow> task \<Rightarrow> 'a kernel_scheme \<Rightarrow> ((int + nat \<times> nat \<times> u32) \<times> 'a kernel_scheme) option" where
  "sa_alloc_reserve K cur s =
     (case task_mm cur of
        None \<Rightarrow> Some (Inl (- EINVAL), s)
      | Some m \<Rightarrow> do {
          (r, s) \<leftarrow> alloc_get (task_tgid cur) s;
          case r of
            None \<Rightarrow> Some (Inl (- ENOMEM), s)
          | Some p \<Rightarrow> do {
              (r, s) \<leftarrow> xa_alloc_thread K p s;
              case r of
                Inl err \<Rightarrow> do { s \<leftarrow> alloc_put K p s; Some (Inl err, s) }
              | Inr n \<Rightarrow> Some (Inr (m, p, n), s) } })"

definition sa_alloc_finish ::
  "api_src \<Rightarrow> task \<Rightarrow> nat \<times> nat \<times> u32 \<Rightarrow> 'a kernel_scheme \<Rightarrow> (int \<times> u64 option \<times> 'a kernel_scheme) option" where
  "sa_alloc_finish K cur = (\<lambda>(m, p, n) s.
     case kmalloc (src K) s of
       (False, s) \<Rightarrow> do {
         (_, s) \<leftarrow> xa_erase_thread p n s;
         s \<leftarrow> alloc_put K p s;
         Some (- ENOMEM, None, s) }
     | (True, s) \<Rightarrow> do {
         (err, r, s) \<leftarrow> gl_alloc_stack (src K) (max_order K) (junk K) s;
         case r of
           None \<Rightarrow> do {
             (_, s) \<leftarrow> xa_erase_thread p n s;
             s \<leftarrow> alloc_put K p s;
             Some (err, None, s) }
         | Some pl \<Rightarrow> sa_alloc_map K cur m p n pl s })"

lemma sa_alloc_halves:
  "sa_alloc K cur s = do {
     (r, s) \<leftarrow> sa_alloc_reserve K cur s;
     case r of Inl err \<Rightarrow> Some (err, None, s) | Inr slot \<Rightarrow> sa_alloc_finish K cur slot s }"
  unfolding sa_alloc_def sa_alloc_reserve_def sa_alloc_finish_def
  by (simp split: option.split sum.split bind_split prod.split)

subsection \<open>The two halves when nothing fails\<close>

definition plenty :: "api_src \<Rightarrow> bool" where
  "plenty K \<longleftrightarrow> (\<forall>l t. table_ok K l t) \<and> (\<forall>t. ks_kmalloc (src K) t)"

lemma reserve_run:
  assumes "task_mm cur = Some m" "sa_allocators s (task_tgid cur) = Some p" "allocs s p = Some a" "kref a > 0"
    "xa_pick K THREADS_LIMIT (dom (threads a)) (tick s) = Inr n"
  shows "sa_alloc_reserve K cur s = Some (Inr (m, p, n), s\<lparr>tick := Suc (tick s),
    allocs := (allocs s)(p \<mapsto> a\<lparr>kref := Suc (kref a), threads := (threads a)(n \<mapsto> None)\<rparr>)\<rparr>)"
  using assms alloc_get_run [OF assms(2-4)]
  by (simp add: sa_alloc_reserve_def xa_alloc_thread_def upd_alloc_def)

lemma free_reserved:
  assumes "task_mm cur = Some m" "sa_allocators s (task_tgid cur) = Some p" "allocs s p = Some a" "\<not> al_lock a"
    "threads a n = Some None" "unat n < unat THREADS_LIMIT"
  shows "sa_free K cur (id_to_addr n) s =
    Some (- EINVAL, s\<lparr>allocs := (allocs s)(p \<mapsto> a\<lparr>threads := (threads a)(n := None)\<rparr>)\<rparr>)"
  using assms id_to_addr_valid [of n] addr_to_id_id_to_addr [of n]
  by (simp add: sa_free_def alloc_find_def xa_erase_thread_def upd_alloc_def window_consts ensure_def)

lemma finish_run:
  assumes "plenty K" "gl_inv s" "gl_sa s = pl # rest" "allocs s p = Some a" "mms s m = Some mm" "mm_ok (five_level K) mm"
    "unat n \<le> unat THREADS_LIMIT"
  shows "\<exists>s' mm'. sa_alloc_finish K cur (m, p, n) s = Some (0, Some (id_to_addr n), s') \<and>
    allocs s' = (allocs s)(p \<mapsto> a\<lparr>max_id := atomic64_max (max_id a) (int (unat n)),
      threads := (threads a)(n \<mapsto> Some \<lparr>tid = task_pid cur, thread_addr = id_to_addr n, pagelist = pl\<rparr>)\<rparr>) \<and>
    sa_allocators s' = sa_allocators s \<and> gl_inv s' \<and> gl_sa s' = rest \<and>
    mms s' = (mms s)(m \<mapsto> mm') \<and> mm_ok (five_level K) mm' \<and> stack_mapped (five_level K) (pgd mm') n pl"
proof -
  let ?s = "s\<lparr>tick := Suc (tick s), gl_size := gl_size s - 1, gl_sa := rest\<rparr>"
  have inv: "gl_inv (s\<lparr>tick := Suc (tick s)\<rparr>)" using assms(2) by (simp add: gl_inv_def owned_def gl_frames_def)
  have pop: "gl_alloc_stack (src K) (max_order K) (junk K) (s\<lparr>tick := Suc (tick s)\<rparr>) = Some (0, Some pl, ?s)"
    using assms(2,3) by (simp add: gl_alloc_stack_def gl_spin_lock_def gl_spin_unlock_def gl_inv_def)
  have inv': "gl_inv ?s" and pl: "wf_pagelist STACK_PAGES pl"
    using gl_alloc_stack_pop [OF inv, of pl rest "src K" "max_order K" "junk K"] assms(3) pop
    by (auto simp: stack_given_def)
  obtain err mm' where m: "map_stack K m (id_to_addr n) pl ?s = Some (err, ?s\<lparr>mms := (mms ?s)(m \<mapsto> mm')\<rparr>)"
      "mm_ok (five_level K) mm'" "err = 0 \<longrightarrow> stack_mapped (five_level K) (pgd mm') n pl"
    using map_stack_run [of ?s m mm K pl n] assms(5-7) pl by (auto simp: mm_ok_def window_consts)
  then have "err = 0"
    using assms(1) map_range_ok [of "table_ok K"]
    by (auto simp: map_stack_def with_mm_def bind_eq_Some_conv plenty_def split: bind_split)
  then show ?thesis
    using m pop inv' assms(1,4)
    by (simp add: sa_alloc_finish_def kmalloc_def plenty_def sa_alloc_map_def Let_def upd_alloc_def gl_inv_def owned_def
        gl_frames_def) blast
qed

subsection \<open>The race\<close>

text \<open>C12: three threads of one process are enough to break the isolation of shadow stacks. While the
  first is between the halves of \<open>sa_alloc\<close>, a release of the address it is about to get answers
  \<open>-EINVAL\<close> and still takes its slot; the next request is given the same slot, and both
  requests succeed with the same address. Afterwards the slot is the second thread's and
  translates to the second stack for both, the descriptor of the first is overwritten and its pages
  are not back on the free list, and the allocator counts two references for the one thread.\<close>

theorem sa_alloc_race:
  assumes "plenty K" and "api_inv (five_level K) s" and "sa_allocators s tg = Some p" and "allocs s p = Some a"
    and "gl_sa s = pl1 # pl2 # rest" and "alloc_mm a = Some m"
    and "\<forall>t. xa_pick K THREADS_LIMIT (dom (threads a)) t = Inr n" and "n \<notin> dom (threads a)" and "unat n < unat THREADS_LIMIT"
    and "\<forall>cur \<in> {cur1, cur2, cur3}. task_mm cur = Some m \<and> task_tgid cur = tg"
  shows "\<exists>s1 s2 s3 s4 s5 a' mm'.
    sa_alloc_reserve K cur1 s = Some (Inr (m, p, n), s1) \<and>
    sa_free K cur3 (id_to_addr n) s1 = Some (- EINVAL, s2) \<and>
    sa_alloc_reserve K cur2 s2 = Some (Inr (m, p, n), s3) \<and>
    sa_alloc_finish K cur1 (m, p, n) s3 = Some (0, Some (id_to_addr n), s4) \<and>
    sa_alloc_finish K cur2 (m, p, n) s4 = Some (0, Some (id_to_addr n), s5) \<and>
    allocs s5 p = Some a' \<and> mms s5 m = Some mm' \<and>
    threads a' = (threads a)(n \<mapsto> Some \<lparr>tid = task_pid cur2, thread_addr = id_to_addr n, pagelist = pl2\<rparr>) \<and>
    stack_mapped (five_level K) (pgd mm') n pl2 \<and> kref a' = Suc (Suc (kref a)) \<and> gl_sa s5 = rest"
proof -
  have ok: "alloc_ok (five_level K) s p a" and gl: "gl_inv s" using api_invD [OF assms(2)] assms(4) by auto
  then have a: "kref a > 0" "\<not> al_lock a" by (auto simp: alloc_ok_def)
  obtain mm where mm: "mms s m = Some mm" "mm_ok (five_level K) mm"
    using ok assms(6) api_invD(2) [OF assms(2)] by (auto simp: alloc_ok_def)
  have cur: "task_mm cur1 = Some m" "task_tgid cur1 = tg" "task_mm cur2 = Some m" "task_tgid cur2 = tg"
      "task_mm cur3 = Some m" "task_tgid cur3 = tg"
    using assms(10) by simp_all
  have same: "(threads a)(n := None) = threads a" using assms(8) by auto
  let ?a1 = "a\<lparr>kref := Suc (kref a), threads := (threads a)(n \<mapsto> None)\<rparr>" and ?a2 = "a\<lparr>kref := Suc (kref a)\<rparr>"
  let ?a3 = "a\<lparr>kref := Suc (Suc (kref a)), threads := (threads a)(n \<mapsto> None)\<rparr>"
  let ?s1 = "s\<lparr>tick := Suc (tick s), allocs := (allocs s)(p \<mapsto> ?a1)\<rparr>"
  let ?s2 = "s\<lparr>tick := Suc (tick s), allocs := (allocs s)(p \<mapsto> ?a2)\<rparr>"
  let ?s3 = "s\<lparr>tick := Suc (Suc (tick s)), allocs := (allocs s)(p \<mapsto> ?a3)\<rparr>"
  have 1: "sa_alloc_reserve K cur1 s = Some (Inr (m, p, n), ?s1)"
    using cur assms(3,4,7) a by (intro reserve_run) auto
  have 2: "sa_free K cur3 (id_to_addr n) ?s1 = Some (- EINVAL, ?s2)"
    using cur assms(3,9) a same free_reserved [of cur3 m ?s1 p ?a1 n K] by simp
  have 3: "sa_alloc_reserve K cur2 ?s2 = Some (Inr (m, p, n), ?s3)"
    using cur assms(3,7) a reserve_run [of cur2 m ?s2 p ?a2 K n] by simp
  have gl3: "gl_inv ?s3" using gl by (simp add: gl_inv_def owned_def gl_frames_def)
  obtain s4 mm4 where 4: "sa_alloc_finish K cur1 (m, p, n) ?s3 = Some (0, Some (id_to_addr n), s4)"
      "allocs s4 p = Some (?a3\<lparr>max_id := atomic64_max (max_id a) (int (unat n)),
        threads := (threads a)(n \<mapsto> Some \<lparr>tid = task_pid cur1, thread_addr = id_to_addr n, pagelist = pl1\<rparr>)\<rparr>)"
      "gl_inv s4" "gl_sa s4 = pl2 # rest" "mms s4 m = Some mm4" "mm_ok (five_level K) mm4"
    using finish_run [OF assms(1) gl3, of pl1 "pl2 # rest" p ?a3 m mm n cur1] assms(5,9) mm by auto
  from finish_run [OF assms(1) 4(3,4,2,5,6), of n cur2] assms(9)
  obtain s5 mm5 where "sa_alloc_finish K cur2 (m, p, n) s4 = Some (0, Some (id_to_addr n), s5)"
      "allocs s5 p = Some (?a3\<lparr>max_id := atomic64_max (atomic64_max (max_id a) (int (unat n))) (int (unat n)),
        threads := (threads a)(n \<mapsto> Some \<lparr>tid = task_pid cur2, thread_addr = id_to_addr n, pagelist = pl2\<rparr>)\<rparr>)"
      "mms s5 m = Some mm5" "stack_mapped (five_level K) (pgd mm5) n pl2" "gl_sa s5 = rest"
    by auto
  with 1 2 3 4(1) show ?thesis by (intro exI conjI) auto
qed

text \<open>Two stacks parked on the free list.\<close>

definition two_parked :: kernel where
  "two_parked = parked_kernel\<lparr>inuse := {0..<8192}, gl_size := 2, gl_sa := [slot_stack 2, slot_stack 3]\<rparr>"

lemma gl_frames_two: "gl_frames two_parked = frames (slot_stack 2) @ frames (slot_stack 3)"
  by (simp add: two_parked_def gl_frames_def)

lemma owned_two: "owned two_parked = {0..<4096}" "unsplit two_parked = {}"
  by (auto simp: owned_def gl_frames_two set_slot_stack) (auto simp: two_parked_def parked_kernel_def busy_kernel_def boot_kernel_def)

lemma api_inv_two: "api_inv False two_parked"
proof -
  have "distinct (frames (slot_stack k))" for k using wf_slot_stack [of k] by (simp only: wf_pagelist_def)
  then have "gl_inv two_parked"
    by (simp add: gl_inv_def owned_two gl_frames_two set_slot_stack)
      (auto simp: two_parked_def parked_kernel_def busy_kernel_def boot_kernel_def GL_SA_CAPACITY_def wf_slot_stack STACK_PAGES_eq)
  moreover have "held two_parked pl = held busy_kernel pl" for pl
    by (simp add: held_def owned_two owned_busy)
  ultimately show ?thesis
    using api_inv_busy
    by (simp add: api_inv_def alloc_ok_def thread_ok_def live_def) (simp add: two_parked_def parked_kernel_def)
qed

theorem sa_alloc_race_witness:
  "\<exists>s1 s2 s3 s4 s5.
    sa_alloc_reserve demo_src demo_task two_parked = Some (Inr (7, 5, 2), s1) \<and>
    sa_free demo_src demo_task (id_to_addr 2) s1 = Some (- EINVAL, s2) \<and>
    sa_alloc_reserve demo_src (demo_task\<lparr>task_pid := 102\<rparr>) s2 = Some (Inr (7, 5, 2), s3) \<and>
    sa_alloc_finish demo_src demo_task (7, 5, 2) s3 = Some (0, Some (id_to_addr 2), s4) \<and>
    sa_alloc_finish demo_src (demo_task\<lparr>task_pid := 102\<rparr>) (7, 5, 2) s4 = Some (0, Some (id_to_addr 2), s5)"
proof -
  have "plenty demo_src" by (simp add: plenty_def demo_src_def bump_src_def)
  moreover have "api_inv (five_level demo_src) two_parked" using api_inv_two by (simp add: demo_simps)
  moreover have "sa_allocators two_parked 100 = Some 5" "allocs two_parked 5 = Some demo_alloc"
      "gl_sa two_parked = [slot_stack 2, slot_stack 3]"
    by (simp_all add: two_parked_def parked_kernel_def busy_kernel_def)
  moreover have "alloc_mm demo_alloc = Some 7" "2 \<notin> dom (threads demo_alloc)" by (simp_all add: demo_alloc_def)
  moreover from this have "\<forall>t. xa_pick demo_src THREADS_LIMIT (dom (threads demo_alloc)) t = Inr 2"
    by (simp add: demo_src_def window_consts)
  ultimately show ?thesis
    using sa_alloc_race [of demo_src two_parked 100 5 demo_alloc "slot_stack 2" "slot_stack 3" "[]" 7 2 demo_task
        "demo_task\<lparr>task_pid := 102\<rparr>" demo_task]
    by (auto simp: demo_task_def window_consts)
qed

end
