(* ===== verification/Free_List_Threads.thy ===== *)
theory Free_List_Threads
  imports Page_Lists
begin

text \<open>
  The global free list of \<^verbatim>\<open>lkm/core/api.c\<close> when several threads are inside
  \<open>gl_alloc_stack\<close> and \<open>gl_free\<close> at once. Both functions are cut where another thread can
  get in between: the two critical sections of \<open>gl_lock\<close> are one step each, the growth by a
  new stack, the look at \<open>gl_size\<close> (which \<open>gl_free\<close> takes without the lock), the
  clearing of the pages and their release are steps of their own. The steps of the page allocator
  and the clearing touch pages no other thread has, so each is one step. Executed without a gap
  the steps are the two functions.
\<close>

subsection \<open>The pieces of the two functions\<close>

definition gl_pop :: "'a gl_state_scheme \<Rightarrow> (sa_pagelist option \<times> 'a gl_state_scheme) option" where
  "gl_pop s = do {
     s \<leftarrow> gl_spin_lock s;
     case gl_sa s of
       pl # rest \<Rightarrow> do {
         s \<leftarrow> gl_spin_unlock (s\<lparr>gl_size := gl_size s - 1, gl_sa := rest\<rparr>);
         Some (Some pl, s) }
     | [] \<Rightarrow> do { s \<leftarrow> gl_spin_unlock s; Some (None, s) } }"

definition gl_grow ::
  "ksrc \<Rightarrow> nat \<Rightarrow> sa_pagelist \<Rightarrow> 'a gl_state_scheme \<Rightarrow> (int \<times> sa_pagelist option \<times> 'a gl_state_scheme) option" where
  "gl_grow ks max_order junk s =
     (case kmalloc ks s of
        (False, s) \<Rightarrow> Some (- ENOMEM, None, s)
      | (True, s) \<Rightarrow> do {
          (err, pl, s) \<leftarrow> sa_pagelist_alloc_pages ks max_order GFP_KERNEL_ZERO
                           (unat (drop_bit PAGE_SHIFT SS_SIZE)) junk s;
          if err \<noteq> 0 then Some (err, None, s) else Some (0, Some pl, s) })"

definition gl_full :: "'a gl_state_scheme \<Rightarrow> bool" where
  "gl_full s \<longleftrightarrow> gl_size s \<ge> GL_SA_CAPACITY"

definition gl_clear :: "sa_pagelist \<Rightarrow> 'a gl_state_scheme \<Rightarrow> 'a gl_state_scheme option" where
  "gl_clear pl s =
     (if nr_pages pl \<le> 0 then Some s
      else do { ps \<leftarrow> pages pl; clear_pages_loop 0 (nat (nr_pages pl)) ps s })"

definition gl_push :: "sa_pagelist \<Rightarrow> 'a gl_state_scheme \<Rightarrow> 'a gl_state_scheme option" where
  "gl_push pl s = do {
     s \<leftarrow> gl_spin_lock s;
     gl_spin_unlock (s\<lparr>gl_size := gl_size s + 1, gl_sa := pl # gl_sa s\<rparr>) }"

lemma gl_alloc_stack_pieces:
  "gl_alloc_stack ks m junk s = do {
     (r, s) \<leftarrow> gl_pop s;
     case r of Some pl \<Rightarrow> Some (0, Some pl, s) | None \<Rightarrow> gl_grow ks m junk s }"
  unfolding gl_alloc_stack_def gl_pop_def gl_grow_def
  by (simp add: gl_spin_lock_def gl_spin_unlock_def ensure_def split: list.split)

lemma gl_free_pieces:
  "gl_free pl s = (if gl_full s then sa_pagelist_free pl s else do { s \<leftarrow> gl_clear pl s; gl_push pl s })"
  by (simp add: gl_free_def gl_full_def gl_clear_def gl_push_def)

subsection \<open>Threads\<close>

text \<open>Where a thread stands, with the stack it is giving back. \<open>hands\<close> are the stacks of the
  callers, who may write to them.\<close>

datatype loc = Away | Growing | Dropping sa_pagelist | Clearing sa_pagelist | Pushing sa_pagelist

datatype gl_action = Pop | Grow | Offer sa_pagelist | Drop | Clear | Push | Store page pagedata

record gl_conc = gl_state +
  locs :: "nat \<Rightarrow> loc"
  hands :: "sa_pagelist set"

definition goto :: "nat \<Rightarrow> loc \<Rightarrow> gl_conc \<Rightarrow> gl_conc" where
  "goto t l s = s\<lparr>locs := (locs s)(t := l)\<rparr>"

definition take_stack :: "sa_pagelist option \<Rightarrow> gl_conc \<Rightarrow> gl_conc" where
  "take_stack r s = (case r of None \<Rightarrow> s | Some pl \<Rightarrow> s\<lparr>hands := insert pl (hands s)\<rparr>)"

definition gl_step :: "ksrc \<Rightarrow> nat \<Rightarrow> sa_pagelist \<Rightarrow> nat \<times> gl_action \<Rightarrow> gl_conc \<Rightarrow> (unit \<times> gl_conc) option" where
  "gl_step ks m junk = (\<lambda>(t, act) s.
     case (act, locs s t) of
       (Pop, _) \<Rightarrow> do {
         (r, s) \<leftarrow> gl_pop s;
         Some ((), goto t (if r = None then Growing else Away) (take_stack r s)) }
     | (Grow, _) \<Rightarrow> do {
         (err, r, s) \<leftarrow> gl_grow ks m junk s;
         Some ((), goto t Away (take_stack r s)) }
     | (Offer pl, _) \<Rightarrow>
         Some ((), goto t (if gl_full s then Dropping pl else Clearing pl) (s\<lparr>hands := hands s - {pl}\<rparr>))
     | (Drop, Dropping pl) \<Rightarrow> do { s \<leftarrow> sa_pagelist_free pl s; Some ((), goto t Away s) }
     | (Clear, Clearing pl) \<Rightarrow> do { s \<leftarrow> gl_clear pl s; Some ((), goto t (Pushing pl) s) }
     | (Push, Pushing pl) \<Rightarrow> do { s \<leftarrow> gl_push pl s; Some ((), goto t Away s) }
     | (Store q w, _) \<Rightarrow> Some ((), s\<lparr>content := (content s)(q := w)\<rparr>)
     | _ \<Rightarrow> None)"

text \<open>The control flow of \<open>n\<close> threads. The only assumption on a caller is that it gives back
  and writes to stacks it holds.\<close>

definition gl_enabled :: "nat \<Rightarrow> nat \<times> gl_action \<Rightarrow> gl_conc \<Rightarrow> bool" where
  "gl_enabled n = (\<lambda>(t, act) s. t < n \<and>
     (case act of
        Pop \<Rightarrow> locs s t = Away
      | Grow \<Rightarrow> locs s t = Growing
      | Offer pl \<Rightarrow> locs s t = Away \<and> pl \<in> hands s
      | Drop \<Rightarrow> (case locs s t of Dropping _ \<Rightarrow> True | _ \<Rightarrow> False)
      | Clear \<Rightarrow> (case locs s t of Clearing _ \<Rightarrow> True | _ \<Rightarrow> False)
      | Push \<Rightarrow> (case locs s t of Pushing _ \<Rightarrow> True | _ \<Rightarrow> False)
      | Store q w \<Rightarrow> locs s t = Away \<and> (\<exists>pl \<in> hands s. q \<in> set (frames pl))))"


subsection \<open>The invariant\<close>

text \<open>A stack off the list has one owner: the caller that holds it, or the thread that is giving
  it back.\<close>

datatype owner = Caller sa_pagelist | Thread nat

fun in_flight :: "loc \<Rightarrow> sa_pagelist set" where
  "in_flight (Dropping pl) = {pl}"
| "in_flight (Clearing pl) = {pl}"
| "in_flight (Pushing pl) = {pl}"
| "in_flight _ = {}"

fun goods :: "gl_conc \<Rightarrow> owner \<Rightarrow> sa_pagelist set" where
  "goods s (Caller pl) = hands s \<inter> {pl}"
| "goods s (Thread t) = in_flight (locs s t)"

definition apart :: "(owner \<Rightarrow> sa_pagelist set) \<Rightarrow> bool" where
  "apart G \<longleftrightarrow> (\<forall>x y pl pl'. x \<noteq> y \<and> pl \<in> G x \<and> pl' \<in> G y \<longrightarrow> set (frames pl) \<inter> set (frames pl') = {})"

fun parking :: "loc \<Rightarrow> bool" where
  "parking (Clearing pl) = True"
| "parking (Pushing pl) = True"
| "parking _ = False"

text \<open>The invariant of the list without its capacity, which the threads do not keep.\<close>

definition gl_core :: "'a gl_state_scheme \<Rightarrow> bool" where
  "gl_core s \<longleftrightarrow> \<not> gl_lock s \<and> gl_size s = int (length (gl_sa s)) \<and>
     unsplit s \<subseteq> owned s \<and> set (gl_frames s) \<subseteq> inuse s \<and> distinct (gl_frames s) \<and>
     (\<forall>pl \<in> set (gl_sa s). wf_pagelist STACK_PAGES pl) \<and>
     (\<forall>q \<in> set (gl_frames s). content s q = zero_page)"

lemma gl_inv_core: "gl_inv s \<longleftrightarrow> gl_core s \<and> gl_size s \<le> GL_SA_CAPACITY"
  by (auto simp: gl_inv_def gl_core_def)

definition goods_ok :: "gl_conc \<Rightarrow> bool" where
  "goods_ok s \<longleftrightarrow> gl_core s \<and> apart (goods s) \<and> (\<forall>x. \<forall>pl \<in> goods s x. held s pl) \<and>
     (\<forall>t pl. locs s t = Pushing pl \<longrightarrow> (\<forall>q \<in> set (frames pl). content s q = zero_page))"

definition parked_bound :: "nat \<Rightarrow> gl_conc \<Rightarrow> bool" where
  "parked_bound n s \<longleftrightarrow> gl_size s + int (card {t. t < n \<and> parking (locs s t)}) < GL_SA_CAPACITY + int n"

definition conc_inv :: "nat \<Rightarrow> gl_conc \<Rightarrow> bool" where
  "conc_inv n s \<longleftrightarrow> goods_ok s \<and> parked_bound n s"

lemma apart_move:
  "apart G \<Longrightarrow> inj f \<Longrightarrow> (\<And>x. G' x \<subseteq> G (f x)) \<Longrightarrow> apart G'"
  unfolding apart_def by (metis injD subsetD)

lemma apart_new:
  "apart G \<Longrightarrow> (\<And>x. x \<noteq> c \<Longrightarrow> G' x \<subseteq> G x) \<Longrightarrow> G' c \<subseteq> {pl} \<Longrightarrow>
    (\<And>x q. q \<in> G x \<Longrightarrow> set (frames q) \<inter> set (frames pl) = {}) \<Longrightarrow> apart G'"
  unfolding apart_def by (metis inf_commute singletonD subsetD)

lemma goods_frames:
  assumes "goods_ok s" "pl \<in> goods s x"
  shows "wf_pagelist STACK_PAGES pl" "set (frames pl) \<subseteq> inuse s" "set (frames pl) \<inter> unsplit s = {}"
    "set (frames pl) \<inter> set (gl_frames s) = {}"
  using assms by (auto simp: goods_ok_def held_def owned_def)

lemma goods_apart:
  "goods_ok s \<Longrightarrow> pl \<in> goods s x \<Longrightarrow> pl' \<in> goods s y \<Longrightarrow> x \<noteq> y \<Longrightarrow> set (frames pl) \<inter> set (frames pl') = {}"
  unfolding goods_ok_def apart_def by blast

lemma parked_update:
  fixes n :: nat
  shows "\<not> parking l \<Longrightarrow> card {u. u < n \<and> parking ((f(t := l)) u)} \<le> card {u. u < n \<and> parking (f u)}"
    and "parking (f t) \<Longrightarrow> card {u. u < n \<and> parking ((f(t := l)) u)} \<le> card {u. u < n \<and> parking (f u)}"
    and "t < n \<Longrightarrow> parking (f t) \<Longrightarrow> \<not> parking l \<Longrightarrow>
      Suc (card {u. u < n \<and> parking ((f(t := l)) u)}) = card {u. u < n \<and> parking (f u)}"
    and "card {u. u < n \<and> parking (f u)} \<le> n"
proof -
  have fin: "finite {u. u < n \<and> parking (f u)}" for f by simp
  show "card {u. u < n \<and> parking ((f(t := l)) u)} \<le> card {u. u < n \<and> parking (f u)}" if "\<not> parking l"
    using that by (intro card_mono fin) (auto split: if_splits)
  show "card {u. u < n \<and> parking ((f(t := l)) u)} \<le> card {u. u < n \<and> parking (f u)}" if "parking (f t)"
    using that by (intro card_mono fin) (auto split: if_splits)
  show "Suc (card {u. u < n \<and> parking ((f(t := l)) u)}) = card {u. u < n \<and> parking (f u)}"
    if "t < n" "parking (f t)" "\<not> parking l"
  proof -
    have "{u. u < n \<and> parking ((f(t := l)) u)} = {u. u < n \<and> parking (f u)} - {t}" using that by auto
    then show ?thesis using that card_Suc_Diff1 [OF fin, of t f] by simp
  qed
  have "card {u. u < n \<and> parking (f u)} \<le> card {..<n}" by (intro card_mono) auto
  then show "card {u. u < n \<and> parking (f u)} \<le> n" by simp
qed

subsection \<open>The steps keep it\<close>

lemma thread_fields [simp]:
  "held (goto t l s) pl \<longleftrightarrow> held s pl" "gl_core (goto t l s) \<longleftrightarrow> gl_core s" "content (goto t l s) = content s"
  "hands (goto t l s) = hands s" "locs (goto t l s) = (locs s)(t := l)" "gl_size (goto t l s) = gl_size s"
  "gl_lock (goto t l s) = gl_lock s" "inuse (goto t l s) = inuse s" "unsplit (goto t l s) = unsplit s" "gl_sa (goto t l s) = gl_sa s"
  "held (s\<lparr>content := c\<rparr>) pl \<longleftrightarrow> held s pl"
  "held (s\<lparr>hands := H\<rparr>) pl \<longleftrightarrow> held s pl" "gl_core (s\<lparr>hands := H\<rparr>) \<longleftrightarrow> gl_core s"
  by (simp_all add: goto_def held_def owned_def gl_frames_def gl_core_def)

text \<open>A step that leaves every stack with an owner it can be traced to.\<close>

lemma goods_ok_move:
  assumes "goods_ok s" "gl_core s'" "inj f" "\<And>x. goods s' x \<subseteq> goods s (f x)"
    "\<And>x pl. pl \<in> goods s' x \<Longrightarrow> held s' pl"
    "\<And>t pl. locs s' t = Pushing pl \<Longrightarrow> \<forall>q \<in> set (frames pl). content s' q = zero_page"
  shows "goods_ok s'"
  using assms apart_move [of "goods s" f "goods s'"] unfolding goods_ok_def by blast

text \<open>A step that hands a stack to a caller.\<close>

lemma goods_ok_take:
  assumes ok: "goods_ok s" and "gl_core s1" and g: "stack_given s pl s1" and "locs s1 = locs s" "hands s1 = hands s"
    and "in_flight l = {}"
  shows "goods_ok (goto t l (s1\<lparr>hands := insert pl (hands s1)\<rparr>))"
proof -
  let ?s = "goto t l (s1\<lparr>hands := insert pl (hands s1)\<rparr>)"
  have sub: "goods ?s x \<subseteq> goods s x" if "x \<noteq> Caller pl" for x
    using that assms(4-6) by (cases x) auto
  have new: "set (frames q) \<inter> set (frames pl) = {}" if "q \<in> goods s x" for q x
    using ok g that unfolding goods_ok_def stack_given_def held_def by blast
  have "apart (goods ?s)"
  proof (rule apart_new [of "goods s" "Caller pl" _ pl])
    show "apart (goods s)" using ok by (simp add: goods_ok_def)
    show "goods ?s (Caller pl) \<subseteq> {pl}" by simp
  qed (rule sub new, assumption)+
  moreover have "held ?s q" if "q \<in> goods ?s x" for q x
  proof (cases "x = Caller pl")
    case True
    with that show ?thesis using stack_given_held [OF g] by simp
  next
    case False
    then have "q \<in> goods s x" using sub that by blast
    then show ?thesis using ok held_kept(1) [OF _ g] by (simp add: goods_ok_def)
  qed
  moreover have "content s1 q = zero_page" if "locs ?s u = Pushing pl'" "q \<in> set (frames pl')" for u pl' q
  proof -
    have u: "locs s u = Pushing pl'" using that(1) assms(4,6) by (auto split: if_splits)
    then have "pl' \<in> goods s (Thread u)" by simp
    then have "q \<in> owned s" using ok that(2) unfolding goods_ok_def held_def by blast
    then show ?thesis using ok g u that(2) by (auto simp: goods_ok_def stack_given_def)
  qed
  ultimately show ?thesis using assms(2) by (simp add: goods_ok_def)
qed

lemma pop_law:
  assumes ok: "goods_ok s" and t: "locs s t = Away"
  shows "\<exists>r s'. gl_pop s = Some (r, s') \<and> goods_ok (goto t (if r = None then Growing else Away) (take_stack r s')) \<and>
    gl_size s' \<le> gl_size s \<and> locs s' = locs s"
proof (cases "gl_sa s")
  case Nil
  then have "gl_pop s = Some (None, s)" using ok by (simp add: gl_pop_def gl_spin_lock_def gl_spin_unlock_def goods_ok_def gl_core_def)
  moreover have "goods_ok (goto t Growing s)"
  proof (rule goods_ok_move [OF ok, of _ id])
    show "goods (goto t Growing s) x \<subseteq> goods s (id x)" for x by (cases x) auto
    then show "held (goto t Growing s) pl" if "pl \<in> goods (goto t Growing s) x" for x pl
      using ok that unfolding goods_ok_def by fastforce
  qed (use ok in \<open>auto simp: goods_ok_def split: if_splits\<close>)
  ultimately show ?thesis by (simp add: take_stack_def)
next
  case (Cons pl rest)
  let ?s = "s\<lparr>gl_size := gl_size s - 1, gl_sa := rest\<rparr>"
  have core: "gl_core s" using ok by (simp add: goods_ok_def)
  then have "gl_pop s = Some (Some pl, ?s)" using Cons by (simp add: gl_pop_def gl_spin_lock_def gl_spin_unlock_def gl_core_def)
  moreover have "gl_core ?s" "stack_given s pl ?s"
    using core Cons by (auto simp: gl_core_def stack_given_def gl_frames_def owned_def)
  ultimately show ?thesis using goods_ok_take [OF ok, of ?s pl Away t] by (simp add: take_stack_def)
qed

lemma more_gl_concD:
  "gl_state.more s = gl_state.more s' \<Longrightarrow> locs s = locs s' \<and> hands s = hands s'"
  by (cases s; cases s') (simp add: gl_conc.defs)

text \<open>The growth finds the list as another thread left it, not empty in general.\<close>

lemma grow_outcome:
  assumes ks: "ksrc_ok ks" and core: "gl_core s"
  shows "\<exists>err r s'. gl_grow ks m junk s = Some (err, r, s') \<and> gl_core s' \<and> gl_size s' = gl_size s \<and>
    gl_state.more s' = gl_state.more s \<and>
    (case r of Some pl \<Rightarrow> stack_given s pl s' | None \<Rightarrow> stack_refused s s')"
proof (cases "ks_kmalloc ks (tick s)")
  case False
  then show ?thesis
    using core by (auto simp: gl_grow_def kmalloc_def gl_core_def owned_def gl_frames_def stack_refused_def)
next
  case True
  let ?s = "s\<lparr>tick := Suc (tick s)\<rparr>"
  have u: "unsplit ?s \<subseteq> inuse ?s" using core by (auto simp: gl_core_def owned_def)
  obtain err pl s' where
    run: "sa_pagelist_alloc_pages ks m GFP_KERNEL_ZERO STACK_PAGES junk ?s = Some (err, pl, s')"
    and out: "alloc_outcome GFP_KERNEL_ZERO STACK_PAGES ?s err pl s'"
    using sa_pagelist_alloc_pages_outcome [OF ks u] by blast
  have eq: "gl_grow ks m junk s = (if err \<noteq> 0 then Some (err, None, s') else Some (0, Some pl, s'))"
    using True run by (simp add: gl_grow_def kmalloc_def STACK_PAGES_def [symmetric])
  from out have "pmem.more s' = pmem.more s" by (auto simp: alloc_outcome_def granted_def)
  then have gl: "gl_sa s' = gl_sa s" "gl_size s' = gl_size s" "gl_lock s' = gl_lock s" "gl_frames s' = gl_frames s"
    and more: "gl_state.more s' = gl_state.more s"
    by (auto dest!: more_gl_stateD simp: gl_frames_def)
  consider (ok) "err = 0" "wf_pagelist STACK_PAGES pl" "granted GFP_KERNEL_ZERO s (frames pl) s'"
    | (fail) "err = - ENOMEM" "inuse s' = inuse s" "unsplit s' = unsplit s" "\<forall>q \<in> inuse s. content s' q = content s q"
    using out by (auto simp: alloc_outcome_def)
  then show ?thesis
  proof cases
    case ok
    then have "gl_core s'" "stack_given s pl s'"
      using core gl u by (auto simp: gl_core_def stack_given_def granted_def owned_def GFP_KERNEL_ZERO_def)
    then show ?thesis using eq ok(1) gl(2) more by simp
  next
    case fail
    then have "gl_core s'" "stack_refused s s'"
      using core gl by (auto simp: gl_core_def stack_refused_def owned_def)
    then show ?thesis using eq fail(1) gl(2) more by simp
  qed
qed

lemma grow_law:
  assumes ks: "ksrc_ok ks" and ok: "goods_ok s"
  shows "\<exists>err r s'. gl_grow ks m junk s = Some (err, r, s') \<and> goods_ok (goto t Away (take_stack r s')) \<and>
    gl_size s' = gl_size s \<and> locs s' = locs s"
proof -
  have "gl_core s" using ok by (simp add: goods_ok_def)
  from grow_outcome [OF ks this] obtain err r s' where
    run: "gl_grow ks m junk s = Some (err, r, s')" and core: "gl_core s'" and sz: "gl_size s' = gl_size s"
    and more: "gl_state.more s' = gl_state.more s"
    and out: "case r of Some pl \<Rightarrow> stack_given s pl s' | None \<Rightarrow> stack_refused s s'" by blast
  note same = more_gl_concD [OF more]
  have "goods_ok (goto t Away (take_stack r s'))"
  proof (cases r)
    case None
    then have ref: "stack_refused s s'" using out by simp
    have "goods_ok (goto t Away s')"
    proof (rule goods_ok_move [OF ok, of _ id])
      show sub: "goods (goto t Away s') x \<subseteq> goods s (id x)" for x using same by (cases x) auto
      show "held (goto t Away s') pl" if "pl \<in> goods (goto t Away s') x" for x pl
        using ok sub that held_kept(2) [OF _ ref] unfolding goods_ok_def by fastforce
      show "\<forall>q \<in> set (frames pl). content (goto t Away s') q = zero_page" if "locs (goto t Away s') u = Pushing pl" for u pl
      proof
        fix q assume q: "q \<in> set (frames pl)"
        have u: "locs s u = Pushing pl" using that same by (auto split: if_splits)
        then have "pl \<in> goods s (Thread u)" by simp
        then have "q \<in> owned s" using ok q unfolding goods_ok_def held_def by blast
        then show "content (goto t Away s') q = zero_page"
          using ref ok u q by (auto simp: goods_ok_def stack_refused_def)
      qed
    qed (use core in simp_all)
    then show ?thesis using None by (simp add: take_stack_def)
  next
    case (Some pl)
    then show ?thesis using goods_ok_take [OF ok core, of pl Away t] out same by (simp add: take_stack_def)
  qed
  with run sz same show ?thesis by blast
qed

lemma offer_law:
  assumes ok: "goods_ok s" and t: "locs s t = Away" and pl: "pl \<in> hands s" and l: "l = Dropping pl \<or> l = Clearing pl"
  shows "goods_ok (goto t l (s\<lparr>hands := hands s - {pl}\<rparr>))"
proof -
  let ?s = "goto t l (s\<lparr>hands := hands s - {pl}\<rparr>)" and ?f = "id(Thread t := Caller pl, Caller pl := Thread t)"
  have sub: "goods ?s x \<subseteq> goods s (?f x)" for x using pl l by (cases x) auto
  have h: "held ?s q" if "q \<in> goods ?s x" for q x
    using ok sub [of x] that unfolding goods_ok_def by auto
  have z: "\<forall>q \<in> set (frames p). content ?s q = zero_page" if "locs ?s u = Pushing p" for u p
    using ok l that unfolding goods_ok_def by (auto split: if_splits)
  have inj: "inj ?f" by (auto simp: inj_def split: if_splits)
  have core: "gl_core ?s" using ok by (simp add: goods_ok_def)
  show ?thesis by (rule goods_ok_move [OF ok core inj]) (rule sub | erule h | erule z)+
qed

text \<open>The stack a thread is done with is apart from all that remain off the list.\<close>

lemma rest_apart:
  assumes ok: "goods_ok s" and t: "in_flight (locs s t) = {pl}"
    and s': "locs s' = (locs s)(t := Away)" "hands s' = hands s"
  shows "goods s' x \<subseteq> goods s x" and "q \<in> goods s' x \<Longrightarrow> held s q \<and> set (frames q) \<inter> set (frames pl) = {}"
proof -
  show sub: "goods s' x \<subseteq> goods s x" using s' by (cases x) auto
  assume q: "q \<in> goods s' x"
  then have "x \<noteq> Thread t" using s' by auto
  moreover have "pl \<in> goods s (Thread t)" using t by simp
  ultimately show "held s q \<and> set (frames q) \<inter> set (frames pl) = {}"
    using ok sub q goods_apart [of s q x pl "Thread t"] unfolding goods_ok_def by blast
qed

lemma drop_law:
  assumes ok: "goods_ok s" and t: "locs s t = Dropping pl"
  shows "\<exists>s'. sa_pagelist_free pl s = Some s' \<and> goods_ok (goto t Away s') \<and> gl_size s' = gl_size s \<and> locs s' = locs s"
proof -
  have "pl \<in> goods s (Thread t)" using t by simp
  note pl = goods_frames [OF ok this]
  let ?s = "s\<lparr>inuse := inuse s - set (frames pl)\<rparr>"
  have "goods_ok (goto t Away ?s)"
  proof (rule goods_ok_move [OF ok, of _ id])
    have rest: "goods (goto t Away ?s) x \<subseteq> goods s x"
        "q \<in> goods (goto t Away ?s) x \<Longrightarrow> held s q \<and> set (frames q) \<inter> set (frames pl) = {}" for x q
      using rest_apart [OF ok, of t pl "goto t Away ?s"] t by simp_all
    show "goods (goto t Away ?s) x \<subseteq> goods s (id x)" for x using rest by simp
    show "held (goto t Away ?s) q" if "q \<in> goods (goto t Away ?s) x" for x q
      using rest(2) [OF that] by (auto simp: held_def owned_def gl_frames_def)
    show "gl_core (goto t Away ?s)" using ok pl by (auto simp: goods_ok_def gl_core_def owned_def gl_frames_def)
  qed (use ok in \<open>auto simp: goods_ok_def split: if_splits\<close>)
  then show ?thesis using sa_pagelist_free_wf [OF pl(1-3)] by simp
qed

lemma clear_law:
  assumes ok: "goods_ok s" and t: "locs s t = Clearing pl"
  shows "\<exists>s'. gl_clear pl s = Some s' \<and> goods_ok (goto t (Pushing pl) s') \<and> gl_size s' = gl_size s \<and> locs s' = locs s"
proof -
  have "pl \<in> goods s (Thread t)" using t by simp
  note pl = goods_frames [OF ok this]
  let ?c = "\<lambda>q. if q \<in> set (frames pl) then zero_page else content s q"
  let ?s = "s\<lparr>content := ?c\<rparr>"
  have "clear_pages_loop 0 (nat (nr_pages pl)) (the (pages pl)) s = Some ?s"
    using pl clear_pages_loop_run [of 0 STACK_PAGES "frames pl" s "[]"] by (auto simp: wf_pagelist_def)
  then have run: "gl_clear pl s = Some ?s" using pl(1) by (auto simp: gl_clear_def wf_pagelist_def STACK_PAGES_eq)
  have "goods_ok (goto t (Pushing pl) ?s)"
  proof (rule goods_ok_move [OF ok, of _ id])
    show sub: "goods (goto t (Pushing pl) ?s) x \<subseteq> goods s (id x)" for x using t by (cases x) auto
    show "held (goto t (Pushing pl) ?s) q" if "q \<in> goods (goto t (Pushing pl) ?s) x" for x q
      using ok subsetD [OF sub that] by (simp add: goods_ok_def)
    show "gl_core (goto t (Pushing pl) ?s)" using ok by (auto simp: goods_ok_def gl_core_def owned_def gl_frames_def)
  qed (use ok in \<open>auto simp: goods_ok_def split: if_splits\<close>)
  then show ?thesis using run by simp
qed

lemma push_law:
  assumes ok: "goods_ok s" and t: "locs s t = Pushing pl"
  shows "\<exists>s'. gl_push pl s = Some s' \<and> goods_ok (goto t Away s') \<and> gl_size s' = gl_size s + 1 \<and> locs s' = locs s"
proof -
  have "pl \<in> goods s (Thread t)" using t by simp
  note pl = goods_frames [OF ok this]
  have core: "gl_core s" and z: "\<forall>q \<in> set (frames pl). content s q = zero_page" using ok t by (auto simp: goods_ok_def)
  let ?s = "s\<lparr>gl_size := gl_size s + 1, gl_sa := pl # gl_sa s\<rparr>"
  have run: "gl_push pl s = Some ?s" using core by (simp add: gl_push_def gl_spin_lock_def gl_spin_unlock_def gl_core_def)
  have "goods_ok (goto t Away ?s)"
  proof (rule goods_ok_move [OF ok, of _ id])
    have rest: "goods (goto t Away ?s) x \<subseteq> goods s x"
        "q \<in> goods (goto t Away ?s) x \<Longrightarrow> held s q \<and> set (frames q) \<inter> set (frames pl) = {}" for x q
      using rest_apart [OF ok, of t pl "goto t Away ?s"] t by simp_all
    show "goods (goto t Away ?s) x \<subseteq> goods s (id x)" for x using rest by simp
    show "held (goto t Away ?s) q" if "q \<in> goods (goto t Away ?s) x" for x q
      using rest(2) [OF that] by (auto simp: held_def owned_def gl_frames_def)
    show "gl_core (goto t Away ?s)" using core pl z by (auto simp: gl_core_def owned_def gl_frames_def wf_pagelist_def)
  qed (use ok in \<open>auto simp: goods_ok_def split: if_splits\<close>)
  then show ?thesis using run by simp
qed

text \<open>A caller's write to its own stack reaches neither the list nor a stack about to join it.\<close>

lemma store_law:
  assumes ok: "goods_ok s" and pl: "pl \<in> hands s" "q \<in> set (frames pl)"
  shows "goods_ok (s\<lparr>content := (content s)(q := w)\<rparr>)"
proof (rule goods_ok_move [OF ok, of _ id])
  let ?s = "s\<lparr>content := (content s)(q := w)\<rparr>"
  have mine: "pl \<in> goods s (Caller pl)" using pl by simp
  show sub: "goods ?s x \<subseteq> goods s (id x)" for x by (cases x) auto
  show "held ?s p" if "p \<in> goods ?s x" for x p
    using ok subsetD [OF sub that] by (simp add: goods_ok_def)
  show "gl_core ?s" using ok pl(2) goods_frames(4) [OF ok mine] by (auto simp: goods_ok_def gl_core_def owned_def gl_frames_def)
  show "\<forall>r \<in> set (frames p). content ?s r = zero_page" if "locs ?s t = Pushing p" for t p
  proof -
    have "p \<in> goods s (Thread t)" using that by simp
    from goods_apart [OF ok mine this] have "q \<notin> set (frames p)" using pl(2) by auto
    then show ?thesis using ok that by (auto simp: goods_ok_def)
  qed
qed simp

subsection \<open>Any interleaving\<close>

lemma parked_step:
  fixes s s' :: gl_conc
  assumes "parked_bound n s" "gl_size s' \<le> gl_size s" "locs s' = (locs s)(t := l)" "\<not> parking l \<or> parking (locs s t)"
  shows "parked_bound n s'"
proof -
  have "card {u. u < n \<and> parking (locs s' u)} \<le> card {u. u < n \<and> parking (locs s u)}"
    using assms(4) parked_update(1,2) [where l = l and f = "locs s" and t = t and n = n] unfolding assms(3) by blast
  then show ?thesis using assms(1,2) unfolding parked_bound_def by linarith
qed

lemma parked_offer:
  assumes "\<not> gl_full s" "gl_size s' = gl_size s"
  shows "parked_bound n s'"
  using assms parked_update(4) [where n = n and f = "locs s'"] by (simp add: parked_bound_def gl_full_def)

lemma parked_push:
  fixes s s' :: gl_conc
  assumes "parked_bound n s" "gl_size s' = gl_size s + 1" "locs s' = (locs s)(t := Away)" "t < n" "parking (locs s t)"
  shows "parked_bound n s'"
  using assms(1,2) parked_update(3) [where f = "locs s" and t = t and l = Away and n = n] assms(4) assms(5) unfolding parked_bound_def assms(3) by simp

lemma gl_step_law:
  assumes ks: "ksrc_ok ks" and inv: "conc_inv n s" and en: "gl_enabled n (t, act) s"
  shows "\<exists>s'. gl_step ks m junk (t, act) s = Some ((), s') \<and> conc_inv n s'"
proof -
  have ok: "goods_ok s" and pb: "parked_bound n s" and t: "t < n" using inv en by (simp_all add: conc_inv_def gl_enabled_def)
  show ?thesis
  proof (cases act)
    case Pop
    then have away: "locs s t = Away" using en by (simp add: gl_enabled_def)
    obtain r s' where run: "gl_pop s = Some (r, s')" "goods_ok (goto t (if r = None then Growing else Away) (take_stack r s'))"
        "gl_size s' \<le> gl_size s" "locs s' = locs s"
      using pop_law [OF ok away] by blast
    then have "parked_bound n (goto t (if r = None then Growing else Away) (take_stack r s'))"
      by (intro parked_step [OF pb, of _ t "if r = None then Growing else Away"]) (auto simp: take_stack_def split: option.split)
    with run Pop show ?thesis by (simp add: gl_step_def conc_inv_def)
  next
    case Grow
    obtain err r s' where run: "gl_grow ks m junk s = Some (err, r, s')" "goods_ok (goto t Away (take_stack r s'))"
        "gl_size s' = gl_size s" "locs s' = locs s"
      using grow_law [OF ks ok] by blast
    then have "parked_bound n (goto t Away (take_stack r s'))"
      by (intro parked_step [OF pb, of _ t]) (auto simp: take_stack_def split: option.split)
    with run Grow show ?thesis by (simp add: gl_step_def conc_inv_def)
  next
    case (Offer pl)
    let ?s = "\<lambda>l. goto t l (s\<lparr>hands := hands s - {pl}\<rparr>)"
    have "goods_ok (?s (Dropping pl))" "goods_ok (?s (Clearing pl))"
      using offer_law [OF ok, of t pl] en Offer by (auto simp: gl_enabled_def)
    moreover have "parked_bound n (?s (Dropping pl))" by (rule parked_step [OF pb, of _ t]) auto
    moreover have "\<not> gl_full s \<Longrightarrow> parked_bound n (?s (Clearing pl))" by (rule parked_offer) auto
    ultimately show ?thesis using Offer by (auto simp: gl_step_def conc_inv_def)
  next
    case Drop
    then obtain pl where pl: "locs s t = Dropping pl" using en by (auto simp: gl_enabled_def split: loc.splits)
    then obtain s' where "sa_pagelist_free pl s = Some s'" "goods_ok (goto t Away s')" "gl_size s' = gl_size s" "locs s' = locs s"
      using drop_law [OF ok] by blast
    moreover from this have "parked_bound n (goto t Away s')" by (intro parked_step [OF pb, of _ t]) auto
    ultimately show ?thesis using Drop pl by (simp add: gl_step_def conc_inv_def)
  next
    case Clear
    then obtain pl where pl: "locs s t = Clearing pl" using en by (auto simp: gl_enabled_def split: loc.splits)
    then obtain s' where "gl_clear pl s = Some s'" "goods_ok (goto t (Pushing pl) s')" "gl_size s' = gl_size s" "locs s' = locs s"
      using clear_law [OF ok] by blast
    moreover from this pl have "parked_bound n (goto t (Pushing pl) s')" by (intro parked_step [OF pb, of _ t]) auto
    ultimately show ?thesis using Clear pl by (simp add: gl_step_def conc_inv_def)
  next
    case Push
    then obtain pl where pl: "locs s t = Pushing pl" using en by (auto simp: gl_enabled_def split: loc.splits)
    then obtain s' where "gl_push pl s = Some s'" "goods_ok (goto t Away s')" "gl_size s' = gl_size s + 1" "locs s' = locs s"
      using push_law [OF ok] by blast
    moreover from this pl t have "parked_bound n (goto t Away s')" by (intro parked_push [OF pb, of _ t]) auto
    ultimately show ?thesis using Push pl by (simp add: gl_step_def conc_inv_def)
  next
    case (Store q w)
    then have "goods_ok (s\<lparr>content := (content s)(q := w)\<rparr>)" using store_law [OF ok] en by (auto simp: gl_enabled_def)
    then show ?thesis using Store pb by (simp add: gl_step_def conc_inv_def parked_bound_def)
  qed
qed

interpretation conc_gl: safe_system "\<lambda>s. ksrc_ok ks \<and> conc_inv n s" "gl_enabled n" "gl_step ks m junk"
  for ks n m junk
proof
  show "\<exists>out s'. gl_step ks m junk r s = Some (out, s') \<and> (ksrc_ok ks \<and> conc_inv n s')"
    if "ksrc_ok ks \<and> conc_inv n s" "gl_enabled n r s" for s r
    using gl_step_law [of ks n s "fst r" "snd r" m junk] that by auto
qed

text \<open>The states to start from: a free list in order, no thread inside the functions, the stacks
  of the callers apart.\<close>

definition gl_start :: "nat \<Rightarrow> gl_conc \<Rightarrow> bool" where
  "gl_start n s \<longleftrightarrow> 0 < n \<and> gl_inv s \<and> (\<forall>t. locs s t = Away) \<and> (\<forall>pl \<in> hands s. held s pl) \<and>
     (\<forall>pl \<in> hands s. \<forall>pl' \<in> hands s. pl \<noteq> pl' \<longrightarrow> set (frames pl) \<inter> set (frames pl') = {})"

lemma gl_start_inv: "gl_start n s \<Longrightarrow> conc_inv n s"
proof -
  assume s: "gl_start n s"
  have g: "pl \<in> goods s x \<longleftrightarrow> x = Caller pl \<and> pl \<in> hands s" for x pl
    using s by (cases x) (auto simp: gl_start_def)
  have "goods_ok s" using s by (auto simp: goods_ok_def apart_def g gl_inv_core gl_start_def)
  then show ?thesis using s by (simp add: conc_inv_def parked_bound_def gl_start_def gl_inv_core)
qed

text \<open>C11: however \<open>n\<close> threads interleave their calls of \<open>gl_alloc_stack\<close> and
  \<open>gl_free\<close>, whatever the page allocator answers and whatever the callers write to their
  stacks, no step is undefined, no page belongs to two stacks in use or to one in use and one on the
  free list, every page on the list is zero, and the list holds fewer than
  \<open>GL_SA_CAPACITY + n\<close> stacks.\<close>

theorem gl_threads_safe:
  assumes "ksrc_ok ks" and "gl_start n s0" and "reach (gl_enabled n) (gl_step ks m junk) s0 s"
  shows "(\<forall>r. gl_enabled n r s \<longrightarrow> (\<exists>s'. gl_step ks m junk r s = Some ((), s'))) \<and>
    (\<forall>pl \<in> hands s. wf_pagelist STACK_PAGES pl \<and> set (frames pl) \<inter> set (gl_frames s) = {}) \<and>
    (\<forall>pl \<in> hands s. \<forall>pl' \<in> hands s. pl \<noteq> pl' \<longrightarrow> set (frames pl) \<inter> set (frames pl') = {}) \<and>
    distinct (gl_frames s) \<and> (\<forall>q \<in> set (gl_frames s). content s q = zero_page) \<and>
    gl_size s = int (length (gl_sa s)) \<and> gl_size s < GL_SA_CAPACITY + int n"
proof -
  have start: "ksrc_ok ks \<and> conc_inv n s0" using assms(1) gl_start_inv [OF assms(2)] by simp
  have "conc_inv n s" using conc_gl.reach_inv [OF assms(3) start] by simp
  then have ok: "goods_ok s" and bound: "parked_bound n s" by (simp_all add: conc_inv_def)
  then have core: "gl_core s" by (simp add: goods_ok_def)
  have "\<exists>s'. gl_step ks m junk r s = Some ((), s')" if "gl_enabled n r s" for r
    using conc_gl.reach_progress [OF assms(3) start that] by auto
  moreover have "wf_pagelist STACK_PAGES pl \<and> set (frames pl) \<inter> set (gl_frames s) = {}" if "pl \<in> hands s" for pl
    using goods_frames(1,4) [OF ok, of pl "Caller pl"] that by simp
  moreover have "set (frames pl) \<inter> set (frames pl') = {}" if "pl \<in> hands s" "pl' \<in> hands s" "pl \<noteq> pl'" for pl pl'
    using goods_apart [OF ok, of pl "Caller pl" pl' "Caller pl'"] that by simp
  moreover have "gl_size s < GL_SA_CAPACITY + int n" using bound by (simp add: parked_bound_def)
  ultimately show ?thesis using core by (simp add: gl_core_def)
qed

text \<open>The schedule in which all threads look at \<open>gl_size\<close> before any of them adds its
  stack.\<close>

definition rush :: "sa_pagelist list \<Rightarrow> (nat \<times> gl_action) list" where
  "rush pls = map (\<lambda>i. (i, Offer (pls ! i))) [0..<length pls] @ map (\<lambda>i. (i, Clear)) [0..<length pls] @
     map (\<lambda>i. (i, Push)) [0..<length pls]"

lemma gl_step_run:
  assumes "ksrc_ok ks" "conc_inv n s" "gl_enabled n (t, act) s" "\<And>s'. gl_step ks m junk (t, act) s = Some ((), s') \<Longrightarrow> Q s'"
  shows "gl_enabled n (t, act) s \<and> (\<exists>out s'. gl_step ks m junk (t, act) s = Some (out, s') \<and> conc_inv n s' \<and> Q s')"
  using gl_step_law [OF assms(1-3), of m junk] assms(3,4) by auto

lemma rush_offers:
  assumes ks: "ksrc_ok ks" and inv: "conc_inv n s" and sz: "gl_size s = GL_SA_CAPACITY - 1" and away: "\<forall>t. locs s t = Away"
    and pls: "length pls = n" "distinct pls" "set pls \<subseteq> hands s"
  shows "\<exists>s'. run_all (gl_enabled n) (gl_step ks m junk) (map (\<lambda>i. (i, Offer (pls ! i))) [0..<n]) s = Some s' \<and>
    conc_inv n s' \<and> gl_size s' = gl_size s \<and> (\<forall>t < n. locs s' t = Clearing (pls ! t))"
proof -
  let ?P = "\<lambda>k s'. conc_inv n s' \<and> gl_size s' = gl_size s \<and> (\<forall>t. locs s' t = (if t < k then Clearing (pls ! t) else Away)) \<and>
    set (drop k pls) \<subseteq> hands s'"
  have "\<exists>s'. run_all (gl_enabled n) (gl_step ks m junk) (map (\<lambda>i. (i, Offer (pls ! i))) [0..<n]) s = Some s' \<and> ?P n s'"
  proof (rule run_all_phase [where P = ?P])
    show "?P 0 s" using inv away pls(3) by simp
    fix k s' assume k: "k < n" and P: "?P k s'"
    have d: "drop k pls = pls ! k # drop (Suc k) pls" "pls ! k \<notin> set (drop (Suc k) pls)"
    proof -
      show d: "drop k pls = pls ! k # drop (Suc k) pls" using k pls(1) by (simp add: Cons_nth_drop_Suc)
      have "distinct (drop k pls)" using pls(2) by simp
      then show "pls ! k \<notin> set (drop (Suc k) pls)" unfolding d by simp
    qed
    show "gl_enabled n (k, Offer (pls ! k)) s' \<and>
        (\<exists>out s''. gl_step ks m junk (k, Offer (pls ! k)) s' = Some (out, s'') \<and> ?P (Suc k) s'')"
      using P sz k d by (intro gl_step_run [OF ks]) (auto simp: gl_enabled_def gl_step_def gl_full_def)
  qed
  then show ?thesis by auto
qed

lemma rush_clears:
  assumes ks: "ksrc_ok ks" and inv: "conc_inv n s" and at: "\<forall>t < n. locs s t = Clearing (pls ! t)"
  shows "\<exists>s'. run_all (gl_enabled n) (gl_step ks m junk) (map (\<lambda>i. (i, Clear)) [0..<n]) s = Some s' \<and>
    conc_inv n s' \<and> gl_size s' = gl_size s \<and> (\<forall>t < n. locs s' t = Pushing (pls ! t))"
proof -
  let ?P = "\<lambda>k s'. conc_inv n s' \<and> gl_size s' = gl_size s \<and>
    (\<forall>t < n. locs s' t = (if t < k then Pushing (pls ! t) else Clearing (pls ! t)))"
  have "\<exists>s'. run_all (gl_enabled n) (gl_step ks m junk) (map (\<lambda>i. (i, Clear)) [0..<n]) s = Some s' \<and> ?P n s'"
  proof (rule run_all_phase [where P = ?P])
    show "?P 0 s" using inv at by simp
    fix k s' assume k: "k < n" and P: "?P k s'"
    then have loc: "locs s' k = Clearing (pls ! k)" by simp
    then obtain s1 where "gl_clear (pls ! k) s' = Some s1" "gl_size s1 = gl_size s'" "locs s1 = locs s'"
      using clear_law [of s' k] P by (auto simp: conc_inv_def)
    then show "gl_enabled n (k, Clear) s' \<and> (\<exists>out s''. gl_step ks m junk (k, Clear) s' = Some (out, s'') \<and> ?P (Suc k) s'')"
      using P k loc by (intro gl_step_run [OF ks]) (auto simp: gl_enabled_def gl_step_def)
  qed
  then show ?thesis by auto
qed

lemma rush_pushes:
  assumes ks: "ksrc_ok ks" and inv: "conc_inv n s" and at: "\<forall>t < n. locs s t = Pushing (pls ! t)"
  shows "\<exists>s'. run_all (gl_enabled n) (gl_step ks m junk) (map (\<lambda>i. (i, Push)) [0..<n]) s = Some s' \<and>
    conc_inv n s' \<and> gl_size s' = gl_size s + int n"
proof -
  let ?P = "\<lambda>k s'. conc_inv n s' \<and> gl_size s' = gl_size s + int k \<and> (\<forall>t < n. k \<le> t \<longrightarrow> locs s' t = Pushing (pls ! t))"
  have "\<exists>s'. run_all (gl_enabled n) (gl_step ks m junk) (map (\<lambda>i. (i, Push)) [0..<n]) s = Some s' \<and> ?P n s'"
  proof (rule run_all_phase [where P = ?P])
    show "?P 0 s" using inv at by simp
    fix k s' assume k: "k < n" and P: "?P k s'"
    then have loc: "locs s' k = Pushing (pls ! k)" by simp
    then obtain s1 where "gl_push (pls ! k) s' = Some s1" "gl_size s1 = gl_size s' + 1" "locs s1 = locs s'"
      using push_law [of s' k] P by (auto simp: conc_inv_def)
    then show "gl_enabled n (k, Push) s' \<and> (\<exists>out s''. gl_step ks m junk (k, Push) s' = Some (out, s'') \<and> ?P (Suc k) s'')"
      using P k loc by (intro gl_step_run [OF ks]) (auto simp: gl_enabled_def gl_step_def)
  qed
  then show ?thesis by auto
qed

text \<open>C25: the capacity is not a bound. With one place left on the list, \<open>n\<close> threads that give
  back a stack each can all pass the unlocked test of \<open>gl_free\<close> before one of them takes the
  lock, and the list ends with \<open>GL_SA_CAPACITY - 1 + n\<close> stacks.\<close>

theorem gl_capacity_exceeded:
  assumes "ksrc_ok ks" and "gl_start n s0" and "reach (gl_enabled n) (gl_step ks m junk) s0 s"
    and "gl_size s = GL_SA_CAPACITY - 1" and "\<forall>t. locs s t = Away"
    and "length pls = n" and "distinct pls" and "set pls \<subseteq> hands s"
  shows "\<exists>s'. run_all (gl_enabled n) (gl_step ks m junk) (rush pls) s = Some s' \<and>
    gl_size s' = GL_SA_CAPACITY - 1 + int n"
proof -
  have start: "ksrc_ok ks \<and> conc_inv n s0" using assms(1) gl_start_inv [OF assms(2)] by simp
  have inv: "conc_inv n s" using conc_gl.reach_inv [OF assms(3) start] by simp
  obtain s1 where 1: "run_all (gl_enabled n) (gl_step ks m junk) (map (\<lambda>i. (i, Offer (pls ! i))) [0..<n]) s = Some s1"
      "conc_inv n s1" "gl_size s1 = gl_size s" "\<forall>t < n. locs s1 t = Clearing (pls ! t)"
    using rush_offers [OF assms(1) inv assms(4-8)] by blast
  obtain s2 where 2: "run_all (gl_enabled n) (gl_step ks m junk) (map (\<lambda>i. (i, Clear)) [0..<n]) s1 = Some s2"
      "conc_inv n s2" "gl_size s2 = gl_size s1" "\<forall>t < n. locs s2 t = Pushing (pls ! t)"
    using rush_clears [OF assms(1) 1(2,4)] by blast
  obtain s3 where 3: "run_all (gl_enabled n) (gl_step ks m junk) (map (\<lambda>i. (i, Push)) [0..<n]) s2 = Some s3"
      "gl_size s3 = gl_size s2 + int n"
    using rush_pushes [OF assms(1) 2(2,4)] by blast
  show ?thesis
    using 1 2 3 assms(4,6) by (simp add: rush_def run_all_append)
qed

subsection \<open>A list with one place left\<close>

definition almost_full :: gl_conc where
  "almost_full = \<lparr>inuse = {0..<130 * 2048}, unsplit = {}, content = (\<lambda>_. zero_page), tick = 0,
     gl_size = 127, gl_sa = map slot_stack [0..<127], gl_lock = False,
     locs = (\<lambda>_. Away), hands = {slot_stack 127, slot_stack 128, slot_stack 129}\<rparr>"

lemma gl_frames_slots: "concat (map (\<lambda>k. frames (slot_stack k)) [0..<n]) = [0..<n * 2048]"
proof (induction n)
  case (Suc n)
  then show ?case using upt_add_eq_append [of 0 "n * 2048" 2048] by (simp add: frames_slot_stack add.commute)
qed simp

lemma gl_frames_almost: "gl_frames almost_full = [0..<127 * 2048]"
  using gl_frames_slots [of 127] by (simp add: gl_frames_def almost_full_def comp_def del: upt_rec_numeral)

lemma slot_stack_inj: "slot_stack j = slot_stack k \<Longrightarrow> j = k"
proof -
  assume "slot_stack j = slot_stack k"
  then have "{j * 2048..<j * 2048 + 2048} = {k * 2048..<k * 2048 + 2048}" using set_slot_stack [of j] set_slot_stack [of k] by simp
  then show "j = k" using atLeastLessThan_eq_iff [of "j * 2048" "j * 2048 + 2048" "k * 2048" "k * 2048 + 2048"] by simp
qed

lemma slot_stacks_apart: "slot_stack j \<noteq> slot_stack k \<Longrightarrow> set (frames (slot_stack j)) \<inter> set (frames (slot_stack k)) = {}"
  by (cases j k rule: linorder_cases) (auto simp: set_slot_stack)

lemma almost_full_start: "gl_start 3 almost_full"
proof -
  have own: "owned almost_full = {127 * 2048..<130 * 2048}"
    by (auto simp: owned_def gl_frames_almost simp del: upt_rec_numeral) (auto simp: almost_full_def)
  have "gl_inv almost_full"
    using wf_slot_stack
    by (simp add: gl_inv_def own gl_frames_almost STACK_PAGES_eq del: upt_rec_numeral)
      (auto simp: almost_full_def GL_SA_CAPACITY_def simp del: upt_rec_numeral)
  moreover have "held almost_full (slot_stack k)" if "127 \<le> k" "k < 130" for k
  proof -
    have "unsplit almost_full = {}" by (simp add: almost_full_def)
    then show ?thesis using that wf_slot_stack [of k] by (auto simp: held_def own set_slot_stack STACK_PAGES_eq)
  qed
  ultimately show ?thesis using slot_stacks_apart by (auto simp: gl_start_def almost_full_def)
qed

theorem gl_threads_safe_witness:
  "\<exists>s. run_all (gl_enabled 3) (gl_step bump_src 10 \<lparr>nr_pages = 0, pages = None\<rparr>)
      [(0, Offer (slot_stack 128)), (1, Offer (slot_stack 127)), (2, Pop)] almost_full = Some s \<and>
    hands s = {slot_stack 0, slot_stack 129} \<and> set (frames (slot_stack 0)) \<inter> set (frames (slot_stack 129)) = {} \<and>
    gl_size s < 131"
proof -
  let ?acts = "[(0, Offer (slot_stack 128)), (1, Offer (slot_stack 127)), (2, Pop)]"
  let ?step = "gl_step bump_src 10 \<lparr>nr_pages = 0, pages = None\<rparr>"
  have d: "slot_stack j = slot_stack k \<longleftrightarrow> j = k" for j k using slot_stack_inj by blast
  have sa: "gl_sa almost_full = slot_stack 0 # map slot_stack [1..<127]"
    by (simp add: almost_full_def upt_conv_Cons del: upt_rec_numeral)
  have f: "gl_lock almost_full = False" "gl_size almost_full = 127" "locs almost_full = (\<lambda>_. Away)"
      "hands almost_full = {slot_stack 127, slot_stack 128, slot_stack 129}"
    by (simp_all add: almost_full_def)
  have h: "insert (slot_stack 0) ({slot_stack 127, slot_stack 128, slot_stack 129} - {slot_stack 128} - {slot_stack 127}) =
      {slot_stack 0, slot_stack 129}"
    by (auto simp: d)
  obtain s where s: "run_all (gl_enabled 3) ?step ?acts almost_full = Some s" "hands s = {slot_stack 0, slot_stack 129}"
    by (auto simp: gl_enabled_def gl_step_def gl_full_def GL_SA_CAPACITY_def f sa d h gl_pop_def gl_spin_lock_def gl_spin_unlock_def
        take_stack_def goto_def simp del: upt_rec_numeral)
  have r: "reach (gl_enabled 3) ?step almost_full s" by (rule reach_run [OF s(1) reach_start])
  show ?thesis
    using gl_threads_safe [OF ksrc_ok_bump_src almost_full_start r] s by (auto simp: d GL_SA_CAPACITY_def)
qed

theorem gl_capacity_exceeded_witness:
  "\<exists>s'. run_all (gl_enabled 3) (gl_step bump_src 10 \<lparr>nr_pages = 0, pages = None\<rparr>)
      (rush [slot_stack 127, slot_stack 128, slot_stack 129]) almost_full = Some s' \<and> gl_size s' = 130"
proof -
  have "distinct [slot_stack 127, slot_stack 128, slot_stack 129]" by (auto dest: slot_stack_inj)
  moreover have "set [slot_stack 127, slot_stack 128, slot_stack 129] \<subseteq> hands almost_full" "\<forall>t. locs almost_full t = Away"
      "gl_size almost_full = GL_SA_CAPACITY - 1"
    by (simp_all add: almost_full_def GL_SA_CAPACITY_def)
  ultimately show ?thesis
    using gl_capacity_exceeded [OF ksrc_ok_bump_src almost_full_start reach_start, where m = 10 and junk = "\<lparr>nr_pages = 0, pages = None\<rparr>"
        and pls = "[slot_stack 127, slot_stack 128, slot_stack 129]"]
    by (simp add: GL_SA_CAPACITY_def del: distinct.simps insert_subset)
qed

end
