(* ===== verification/Byte_Memory.thy ===== *)
theory Byte_Memory
  imports SS_Prelude
begin

text \<open>
  Words in byte memory: reading and writing eight bytes in the order of x86-64, what a write
  leaves alone, and arithmetic on addresses that do not wrap.
\<close>

definition read64 :: "(u64 \<Rightarrow> byte) \<Rightarrow> u64 \<Rightarrow> u64" where
  "read64 m a = of_bytes (map (\<lambda>i. m (a + of_nat i)) [0..<8])"

definition write64 :: "(u64 \<Rightarrow> byte) \<Rightarrow> u64 \<Rightarrow> u64 \<Rightarrow> u64 \<Rightarrow> byte" where
  "write64 m a v = (\<lambda>x. if unat (x - a) < 8 then to_bytes 8 v ! unat (x - a) else m x)"

text \<open>Two eight-byte cells that do not overlap, seen as distances modulo the address space.\<close>

definition sep :: "u64 \<Rightarrow> u64 \<Rightarrow> bool" where
  "sep a b \<longleftrightarrow> 8 \<le> a - b \<and> 8 \<le> b - a"

lemma sep_sym: "sep a b \<longleftrightarrow> sep b a"
  by (auto simp: sep_def)

lemma sep_shift [simp]: "sep (a + c) (b + c) \<longleftrightarrow> sep a b"
  by (simp add: sep_def)

lemma write64_out: "8 \<le> x - a \<Longrightarrow> write64 m a v x = m x"
  by (simp add: write64_def word_le_nat_alt)

lemma sep_byte:
  assumes "sep a b" "i < 8"
  shows "8 \<le> a + of_nat i - b"
proof -
  have le: "8 \<le> unat (a - b)" "8 \<le> unat (b - a)"
    using assms(1) by (simp_all add: sep_def word_le_nat_alt)
  have i: "unat (of_nat i :: u64) = i"
    using assms(2) by (simp add: unat_of_nat take_bit_nat_eq_self)
  have "unat (a - b) + unat (b - a) = 2 ^ 64"
    using le(1) u64_bound [of a] u64_bound [of b] by (auto simp: unat_sub_if' split: if_splits)
  then have "unat (a - b) + unat (of_nat i :: u64) < 2 ^ 64" using le i assms(2) by simp
  then have "unat ((a - b) + of_nat i) = unat (a - b) + i" using i by (simp add: unat_word_ariths)
  then have "8 \<le> unat ((a - b) + of_nat i)" using le(1) by simp
  moreover have "a + of_nat i - b = (a - b) + of_nat i" by simp
  ultimately show ?thesis by (simp only: word_le_nat_alt) simp
qed

lemma read64_write64_same [simp]: "read64 (write64 m a v) a = v"
proof -
  have "map (\<lambda>i. write64 m a v (a + of_nat i)) [0..<8] = map ((!) (to_bytes 8 v)) [0..<8]"
    by (rule map_cong [OF refl]) (simp add: write64_def unat_of_nat take_bit_nat_eq_self)
  also have "\<dots> = to_bytes 8 v" using map_nth [of "to_bytes 8 v"] by simp
  finally show ?thesis by (simp add: read64_def)
qed

lemma read64_write64_sep: "sep b a \<Longrightarrow> read64 (write64 m a v) b = read64 m b"
  unfolding read64_def by (intro arg_cong [of _ _ of_bytes] map_cong refl) (simp add: write64_out sep_byte)

lemma sep_unat: "unat a + 8 \<le> unat b \<Longrightarrow> unat b + 8 \<le> 2 ^ 64 \<Longrightarrow> sep a b \<and> sep b a"
  by (auto simp: sep_def word_le_nat_alt unat_sub_if')

lemma read64_cong: "(\<And>i. i < 8 \<Longrightarrow> m' (a + of_nat i) = m (a + of_nat i)) \<Longrightarrow> read64 m' a = read64 m a"
  unfolding read64_def by (intro arg_cong [of _ _ of_bytes] map_cong refl) simp

lemma write64_outside:
  "unat a + 8 \<le> 2 ^ 64 \<Longrightarrow> unat x < unat a \<or> unat a + 8 \<le> unat x \<Longrightarrow> write64 m a v x = m x"
  by (rule write64_out) (auto simp: word_le_nat_alt unat_sub_if')

lemma unat_minus_small: "n \<le> unat (a :: u64) \<Longrightarrow> unat (a - of_nat n) = unat a - n"
  using u64_bound [of a] by (simp add: unat_sub_if' unat_of_nat take_bit_nat_eq_self)

lemma unat_plus_small: "unat (a :: u64) + n < 2 ^ 64 \<Longrightarrow> unat (a + of_nat n) = unat a + n"
  by (simp add: unat_word_ariths unat_of_nat take_bit_nat_eq_self)

end
