(* ===== verification/Stack_Relocation.thy ===== *)
theory Stack_Relocation
  imports Ioctl Byte_Memory
begin

unbundle bit_operations_syntax

text \<open>
  \<^verbatim>\<open>runtime/stckcpy.S\<close>: \<open>relocate_stack\<close> runs before \<open>_start\<close>. It maps a new stack,
  looks for the end of the strings the kernel put on the initial one, copies everything from the
  stack pointer up to there, moves the pointers in the copied argument, environment and auxiliary
  vectors, and asks the module to make the new area the stack of the process.

  Registers are variables with their names. Memory is that of \<open>Ioctl\<close>; an access that is not
  allowed ends the process with a fault, \<open>None\<close>. The loops over the vectors stop at a null
  word, which the memory may not have: they are partial functions, \<open>None\<close> also if they never
  stop. What the system calls answer is in the record \<open>start_env\<close>. The end of the routine, which
  closes the device and restores \<open>rdx\<close> for \<open>_start\<close>, has no effect on memory or the module and is
  left out.
\<close>

definition STACK_SIZE :: u64 where "STACK_SIZE = 0x800000"
definition ADR_HINT :: u64 where "ADR_HINT = 0x600000000000"

abbreviation AT_BASE :: u64 where "AT_BASE \<equiv> 7"

definition AT_moved :: "u64 \<Rightarrow> bool" where
  "AT_moved k \<longleftrightarrow> k = AT_BASE \<or> k = AT_PLATFORM \<or> k = AT_RANDOM \<or> k = AT_EXECFN"

subsection \<open>Memory accesses\<close>

definition ld64 :: "umem \<Rightarrow> u64 \<Rightarrow> u64 option" where
  "ld64 u a = (if list_all (\<lambda>i. ureadable u (a + of_nat i)) [0..<8] then Some (read64 (ubyte u) a) else None)"

definition st64 :: "u64 \<Rightarrow> u64 \<Rightarrow> umem \<Rightarrow> umem option" where
  "st64 a v u = (if list_all (\<lambda>i. uwritable u (a + of_nat i)) [0..<8]
     then Some (u\<lparr>ubyte := write64 (ubyte u) a v\<rparr>) else None)"

subsection \<open>The end of the initial stack\<close>

text \<open>\<open>_scan_argv\<close> and \<open>_scan_envp\<close>, the same loop: the highest pointer so far in
  \<open>rdi\<close>. The answer is the address after the terminator.\<close>

partial_function (option) scan_ptrs :: "umem \<Rightarrow> u64 \<Rightarrow> u64 \<Rightarrow> (u64 \<times> u64) option" where
  "scan_ptrs u r8 rdi = do {
     r9 \<leftarrow> ld64 u r8;
     if r9 = 0 then Some (r8 + 8, rdi)
     else scan_ptrs u (r8 + 8) (if r9 \<le> rdi then rdi else r9) }"

text \<open>\<open>_scan_auxv\<close>: \<open>r11\<close> is set when the highest pointer is that of \<open>AT_RANDOM\<close>.\<close>

partial_function (option) scan_auxv :: "umem \<Rightarrow> u64 \<Rightarrow> u64 \<Rightarrow> u64 \<Rightarrow> (u64 \<times> u64) option" where
  "scan_auxv u r8 rdi r11 = do {
     r9 \<leftarrow> ld64 u r8;
     if r9 = 0 then Some (rdi, r11)
     else if AT_moved r9 then do {
       r10 \<leftarrow> ld64 u (r8 + 8);
       if r10 \<le> rdi then scan_auxv u (r8 + 16) rdi r11
       else scan_auxv u (r8 + 16) r10 (if r9 = AT_RANDOM then 1 else 0) }
     else scan_auxv u (r8 + 16) rdi r11 }"

text \<open>\<open>repne scasb\<close> with \<open>al = 0\<close>: the address after the first null byte, or after
  \<open>rcx\<close> bytes.\<close>

function scasb :: "umem \<Rightarrow> u64 \<Rightarrow> u64 \<Rightarrow> u64 option" where
  "scasb u rdi rcx =
     (if rcx = 0 then Some rdi
      else if \<not> ureadable u rdi then None
      else if ubyte u rdi = 0 then Some (rdi + 1)
      else scasb u (rdi + 1) (rcx - 1))"
  by pat_completeness auto
termination
  by (relation "measure (\<lambda>(u, rdi, rcx). unat rcx)") (auto simp: measure_unat)

declare scasb.simps [simp del]

definition stack_top :: "umem \<Rightarrow> u64 \<Rightarrow> u64 option" where
  "stack_top u rsp = do {
     (r8, rdi) \<leftarrow> scan_ptrs u (rsp + 8) 0;
     (r8, rdi) \<leftarrow> scan_ptrs u r8 rdi;
     (rdi, r11) \<leftarrow> scan_auxv u r8 rdi 0;
     if r11 \<noteq> 0 then Some (rdi + 16) else scasb u rdi (- 1) }"

subsection \<open>The copy\<close>

text \<open>\<open>rep movsb\<close> with the direction flag clear.\<close>

function movsb :: "u64 \<Rightarrow> u64 \<Rightarrow> u64 \<Rightarrow> umem \<Rightarrow> umem option" where
  "movsb rcx rsi rdi u =
     (if rcx = 0 then Some u
      else if \<not> ureadable u rsi \<or> \<not> uwritable u rdi then None
      else movsb (rcx - 1) (rsi + 1) (rdi + 1) (u\<lparr>ubyte := (ubyte u)(rdi := ubyte u rsi)\<rparr>))"
  by pat_completeness auto
termination
  by (relation "measure (\<lambda>(rcx, rsi, rdi, u). unat rcx)") (auto simp: measure_unat)

declare movsb.simps [simp del]

subsection \<open>Moving the pointers\<close>

text \<open>\<open>_patch_argv\<close> and \<open>_patch_envp\<close>.\<close>

partial_function (option) patch_ptrs :: "u64 \<Rightarrow> u64 \<Rightarrow> umem \<Rightarrow> (u64 \<times> umem) option" where
  "patch_ptrs r9 r10 u = do {
     r11 \<leftarrow> ld64 u r10;
     if r11 = 0 then Some (r10 + 8, u)
     else do {
       u \<leftarrow> st64 r10 (r11 + r9) u;
       patch_ptrs r9 (r10 + 8) u } }"

partial_function (option) patch_auxv :: "u64 \<Rightarrow> u64 \<Rightarrow> umem \<Rightarrow> umem option" where
  "patch_auxv r9 r10 u = do {
     r11 \<leftarrow> ld64 u r10;
     if r11 = 0 then Some u
     else if AT_moved r11 then do {
       r11 \<leftarrow> ld64 u (r10 + 8);
       u \<leftarrow> st64 (r10 + 8) (r11 + r9) u;
       patch_auxv r9 (r10 + 16) u }
     else patch_auxv r9 (r10 + 16) u }"

text \<open>From \<open>_patch\<close> to \<open>_patch_auxv_exit\<close>; the answer is the new stack pointer.\<close>

definition move_stack :: "u64 \<Rightarrow> u64 \<Rightarrow> u64 \<Rightarrow> umem \<Rightarrow> (u64 \<times> umem) option" where
  "move_stack rdx rsp rdi u = do {
     let rcx = rdi - rsp + 1;
     let rax = (rdx + STACK_SIZE - rcx) AND NOT 15;
     u \<leftarrow> movsb rcx rsp rax u;
     let r9 = rax - rsp;
     (r10, u) \<leftarrow> patch_ptrs r9 (rax + 8) u;
     (r10, u) \<leftarrow> patch_ptrs r9 r10 u;
     u \<leftarrow> patch_auxv r9 r10 u;
     Some (rax, u) }"

subsection \<open>The whole routine\<close>

text \<open>\<open>mmap\<close> answers an address or a negated error number and changes what is mapped;
  \<open>open\<close> answers a descriptor or a negated error number.\<close>

record 'k start_env =
  se_mmap :: "u64 \<Rightarrow> u64 \<Rightarrow> umem \<Rightarrow> u64 \<times> umem"
  se_open :: "'k \<Rightarrow> int \<times> 'k"
  se_dev :: "'k device"

datatype 'k start_result = Exited int | At_start u64 umem 'k

text \<open>The request to the module, on the new stack: the structure of \<open>IOCTL_SHADOW_PIVOT\<close> with the
  new stack pointer (\<open>r14\<close>) and the old one (\<open>r15\<close>). When it fails the process exits with the
  descriptor as its status.\<close>

definition pivot_request :: "'k start_env \<Rightarrow> u64 \<Rightarrow> u64 \<Rightarrow> umem \<times> 'k \<Rightarrow> 'k start_result option" where
  "pivot_request E r14 r15 = (\<lambda>(u, k).
     case se_open E k of
       (r13, k) \<Rightarrow>
         if r13 < 0 then Some (Exited 1)
         else do {
           let rsp = r14 - 24;
           u \<leftarrow> st64 rsp 0 u;
           u \<leftarrow> st64 (rsp + 8) r14 u;
           u \<leftarrow> st64 (rsp + 16) r15 u;
           (rax, u, k) \<leftarrow> se_dev E IOCTL_SHADOW_PIVOT rsp (u, k);
           if rax < 0 then Some (Exited r13) else Some (At_start (rsp + 24) u k) })"

definition relocate_stack :: "'k start_env \<Rightarrow> u64 \<Rightarrow> umem \<times> 'k \<Rightarrow> 'k start_result option" where
  "relocate_stack E rsp = (\<lambda>(u, k).
     case se_mmap E ADR_HINT STACK_SIZE u of
       (rax, u) \<Rightarrow>
         if rax = 0 then Some (Exited 1)
         else do {
           rdi \<leftarrow> stack_top u rsp;
           (rax, u) \<leftarrow> move_stack rax rsp rdi u;
           pivot_request E rax rsp (u, k) })"

subsection \<open>Words and strings in memory\<close>

fun words_at :: "umem \<Rightarrow> u64 \<Rightarrow> u64 list \<Rightarrow> bool" where
  "words_at u a [] \<longleftrightarrow> True"
| "words_at u a (w # ws) \<longleftrightarrow> ld64 u a = Some w \<and> words_at u (a + 8) ws"

lemma words_at_append [simp]:
  "words_at u a (xs @ ys) \<longleftrightarrow> words_at u a xs \<and> words_at u (a + of_nat (8 * length xs)) ys"
  by (induction xs arbitrary: a) (auto simp: algebra_simps)

text \<open>The bytes between two addresses, as numbers: nothing here wraps.\<close>

abbreviation between :: "u64 \<Rightarrow> nat \<Rightarrow> u64 \<Rightarrow> bool" where
  "between a n x \<equiv> unat a \<le> unat x \<and> unat x < unat a + n"

lemma between_word:
  "unat a + 8 \<le> 2 ^ 64 \<Longrightarrow> i < 8 \<Longrightarrow> between a 8 (a + of_nat i)"
  using unat_plus_small [of a i] by simp

lemma ld_frame:
  assumes "ureadable u' = ureadable u" "\<And>x. between a 8 x \<Longrightarrow> ubyte u' x = ubyte u x" "unat a + 8 \<le> 2 ^ 64"
  shows "ld64 u' a = ld64 u a"
  using assms between_word [OF assms(3)] unfolding ld64_def by (simp add: read64_cong [of "ubyte u'" a "ubyte u"])

lemma words_frame:
  assumes "ureadable u' = ureadable u" "\<And>x. between a (8 * length ws) x \<Longrightarrow> ubyte u' x = ubyte u x"
    "unat a + 8 * length ws < 2 ^ 64" "words_at u a ws"
  shows "words_at u' a ws"
  using assms(2-4)
proof (induction ws arbitrary: a)
  case (Cons w ws)
  have a8: "unat (a + 8) = unat a + 8" using unat_plus_small [of a 8] Cons.prems(2) by simp
  have "ld64 u' a = ld64 u a" using Cons.prems by (intro ld_frame assms(1)) auto
  moreover have "words_at u' (a + 8) ws" using Cons.prems a8 by (intro Cons.IH) auto
  ultimately show ?case using Cons.prems(3) by simp
qed simp

lemma words_copied:
  assumes "\<And>i. i < 8 * length ws \<Longrightarrow> ureadable u' (b + of_nat i)"
    "\<And>i. i < 8 * length ws \<Longrightarrow> ubyte u' (b + of_nat i) = ubyte u (a + of_nat i)" "words_at u a ws"
  shows "words_at u' b ws"
  using assms
proof (induction ws arbitrary: a b)
  case (Cons w ws)
  have "read64 (ubyte u') b = read64 (ubyte u) a"
    unfolding read64_def using Cons.prems(2) by (intro arg_cong [of _ _ of_bytes] map_cong refl) simp
  moreover have "words_at u' (b + 8) ws"
    using Cons.prems(1) [of "8 + _"] Cons.prems(2) [of "8 + _"] Cons.prems(3)
    by (intro Cons.IH [of "b + 8" "a + 8"]) (simp_all add: add.assoc)
  ultimately show ?case
    using Cons.prems by (auto simp: ld64_def list_all_iff split: if_splits)
qed simp

definition cstring_at :: "umem \<Rightarrow> u64 \<Rightarrow> byte list \<Rightarrow> bool" where
  "cstring_at u a s \<longleftrightarrow> 0 \<notin> set s \<and>
     (\<forall>i \<le> length s. ureadable u (a + of_nat i) \<and> ubyte u (a + of_nat i) = (s @ [0]) ! i)"

lemma cstring_at_Cons: "cstring_at u a (b # s) \<Longrightarrow> ureadable u a \<and> ubyte u a = b \<and> b \<noteq> 0 \<and> cstring_at u (a + 1) s"
proof -
  assume c: "cstring_at u a (b # s)"
  have "ureadable u (a + 1 + of_nat i) \<and> ubyte u (a + 1 + of_nat i) = (s @ [0]) ! i" if "i \<le> length s" for i
    using c that unfolding cstring_at_def by (elim conjE allE [of _ "Suc i"]) (simp add: algebra_simps)
  moreover have "ureadable u a \<and> ubyte u a = b"
    using c unfolding cstring_at_def by (elim conjE allE [of _ 0]) simp
  ultimately show ?thesis using c by (auto simp: cstring_at_def)
qed

lemma scasb_string:
  "cstring_at u a s \<Longrightarrow> length s < unat rcx \<Longrightarrow> scasb u a rcx = Some (a + of_nat (Suc (length s)))"
proof (induction s arbitrary: a rcx)
  case Nil
  then have "ureadable u a" "ubyte u a = 0" "rcx \<noteq> 0" by (auto simp: cstring_at_def)
  then show ?case by (simp add: scasb.simps [of u a])
next
  case (Cons b s)
  note c = cstring_at_Cons [OF Cons.prems(1)]
  have r: "rcx \<noteq> 0" using Cons.prems(2) by auto
  then have "unat (rcx - 1) = unat rcx - 1" by (rule unat_minus_one)
  then have "scasb u (a + 1) (rcx - 1) = Some (a + 1 + of_nat (Suc (length s)))"
    using c Cons.prems(2) by (intro Cons.IH) auto
  then show ?case using c r by (simp add: scasb.simps [of u a] algebra_simps)
qed

subsection \<open>What the loops do\<close>

lemma scan_ptrs_words:
  "words_at u a (ps @ [0]) \<Longrightarrow> 0 \<notin> set ps \<Longrightarrow>
    scan_ptrs u a M = Some (a + of_nat (8 * Suc (length ps)), fold max ps M)"
proof (induction ps arbitrary: a M)
  case (Cons p ps)
  then have "scan_ptrs u (a + 8) (max p M) = Some (a + 8 + of_nat (8 * Suc (length ps)), fold max ps (max p M))"
    by (intro Cons.IH) (auto simp: algebra_simps)
  then show ?case using Cons.prems by (simp add: scan_ptrs.simps [of u a] max_def [of p M] algebra_simps)
qed (simp add: scan_ptrs.simps)

abbreviation aux_words :: "(u64 \<times> u64) list \<Rightarrow> u64 list" where
  "aux_words av \<equiv> concat (map (\<lambda>(k, v). [k, v]) av)"

lemma length_aux_words: "length (aux_words av) = 2 * length av"
  by (induction av) auto

fun aux_top :: "u64 \<times> u64 \<Rightarrow> u64 \<times> u64 \<Rightarrow> u64 \<times> u64" where
  "aux_top (k, v) (M, r) = (if AT_moved k \<and> \<not> v \<le> M then (v, if k = AT_RANDOM then 1 else 0) else (M, r))"

lemma scan_auxv_words:
  "words_at u a (aux_words av @ [0]) \<Longrightarrow> 0 \<notin> fst ` set av \<Longrightarrow> scan_auxv u a M r = Some (fold aux_top av (M, r))"
proof (induction av arbitrary: a M r)
  case (Cons kv av)
  obtain k v where kv: "kv = (k, v)" by fastforce
  have "scan_auxv u (a + 16) M' r' = Some (fold aux_top av (M', r'))" for M' r'
    using Cons.prems kv by (intro Cons.IH) (auto simp: algebra_simps)
  then show ?case using Cons.prems kv by (simp add: scan_auxv.simps [of u a])
qed (simp add: scan_auxv.simps)

lemma movsb_copies:
  assumes "n < 2 ^ 64" "\<And>i. i < n \<Longrightarrow> ureadable u (rsi + of_nat i) \<and> uwritable u (rdi + of_nat i)"
    and "\<And>i j. i < n \<Longrightarrow> j < n \<Longrightarrow> rsi + of_nat i \<noteq> rdi + of_nat j"
  shows "movsb (of_nat n) rsi rdi u =
    Some (u\<lparr>ubyte := \<lambda>x. if unat (x - rdi) < n then ubyte u (rsi + (x - rdi)) else ubyte u x\<rparr>)"
  using assms
proof (induction n arbitrary: rsi rdi u)
  case 0
  then show ?case by (simp add: movsb.simps)
next
  case (Suc n)
  let ?u = "u\<lparr>ubyte := (ubyte u)(rdi := ubyte u rsi)\<rparr>"
  have z: "of_nat (Suc n) \<noteq> (0 :: u64)" "of_nat (Suc n) - 1 = (of_nat n :: u64)"
    using Suc.prems(1) unat_of_nat [of "Suc n", where 'a = 64] by (auto simp: take_bit_nat_eq_self simp del: of_nat_Suc) simp
  have "movsb (of_nat n) (rsi + 1) (rdi + 1) ?u = Some (?u\<lparr>ubyte := \<lambda>x. if unat (x - (rdi + 1)) < n
      then ubyte ?u (rsi + 1 + (x - (rdi + 1))) else ubyte ?u x\<rparr>)"
    using Suc.prems(2) [of "Suc _"] Suc.prems(3) [of "Suc _" "Suc _"] Suc.prems(1)
    by (intro Suc.IH) (simp_all add: add.assoc)
  moreover have "(if unat (x - (rdi + 1)) < n then ubyte ?u (rsi + 1 + (x - (rdi + 1))) else ubyte ?u x) =
      (if unat (x - rdi) < Suc n then ubyte u (rsi + (x - rdi)) else ubyte u x)" for x
  proof (cases "x = rdi")
    case True
    then have "unat (x - (rdi + 1)) = 2 ^ 64 - 1" by (simp add: unsigned_minus_1_eq_mask mask_eq_exp_minus_1)
    then show ?thesis using True Suc.prems(1) by simp
  next
    case False
    then have d: "unat (x - rdi) = Suc (unat (x - (rdi + 1)))"
      using unat_minus_one [of "x - rdi"] by (simp add: diff_diff_eq unat_gt_0)
    have "rsi + (x - rdi) \<noteq> rdi" if "unat (x - rdi) < Suc n"
      using Suc.prems(3) [of "unat (x - rdi)" 0] that by simp
    then show ?thesis using False d by (simp add: algebra_simps)
  qed
  ultimately show ?case
    using Suc.prems(2) [of 0] z by (simp add: movsb.simps [of "1 + of_nat n"])
qed

text \<open>A step that changed nothing but the bytes of a range.\<close>

definition only_changed :: "u64 \<Rightarrow> nat \<Rightarrow> umem \<Rightarrow> umem \<Rightarrow> bool" where
  "only_changed a n u u' \<longleftrightarrow> ureadable u' = ureadable u \<and> uwritable u' = uwritable u \<and>
     (\<forall>x. \<not> between a n x \<longrightarrow> ubyte u' x = ubyte u x)"

lemma only_changed_refl [simp]: "only_changed a n u u"
  by (simp add: only_changed_def)

lemma only_changed_mono:
  "only_changed b m u w \<Longrightarrow> unat c \<le> unat b \<Longrightarrow> unat b + m \<le> unat c + l \<Longrightarrow> only_changed c l u w"
  unfolding only_changed_def by auto

lemma only_changed_trans:
  assumes "only_changed a n u v" "only_changed b m v w"
    "unat c \<le> unat a" "unat a + n \<le> unat c + l" "unat c \<le> unat b" "unat b + m \<le> unat c + l"
  shows "only_changed c l u w"
  using assms unfolding only_changed_def by auto

lemma words_only_changed:
  assumes "only_changed a n u u'" "words_at u b ws" "unat b + 8 * length ws < 2 ^ 64"
    "unat b + 8 * length ws \<le> unat a \<or> unat a + n \<le> unat b"
  shows "words_at u' b ws"
  by (rule words_frame [OF _ _ assms(3,2)]) (use assms(1,4) in \<open>auto simp: only_changed_def\<close>)

definition writable_at :: "umem \<Rightarrow> u64 \<Rightarrow> nat \<Rightarrow> bool" where
  "writable_at u a n \<longleftrightarrow> (\<forall>x. between a n x \<longrightarrow> uwritable u x)"

lemma st_writable:
  assumes "writable_at u a n" "8 \<le> n" "unat a + 8 < 2 ^ 64" "ld64 u a = Some w"
  shows "\<exists>u'. st64 a v u = Some u' \<and> ld64 u' a = Some v \<and> only_changed a 8 u u'"
proof -
  have "uwritable u (a + of_nat i)" if "i < 8" for i
    using between_word [of a i] that assms(1-3) by (simp add: writable_at_def)
  then have "st64 a v u = Some (u\<lparr>ubyte := write64 (ubyte u) a v\<rparr>)"
    by (simp add: st64_def list_all_iff)
  moreover have "ld64 (u\<lparr>ubyte := write64 (ubyte u) a v\<rparr>) a = Some v"
    using assms(4) by (simp add: ld64_def split: if_splits)
  moreover have "only_changed a 8 u (u\<lparr>ubyte := write64 (ubyte u) a v\<rparr>)"
    using assms(3) by (auto simp: only_changed_def write64_outside not_less)
  ultimately show ?thesis by blast
qed

text \<open>One word written, then a loop over the words after it.\<close>

lemma patch_step:
  assumes "ld64 u a = Some w" "words_at u (a + 8) ws" "writable_at u a (8 + n)" "unat a + 8 + 8 * length ws < 2 ^ 64"
    and "\<And>u1. words_at u1 (a + 8) ws \<Longrightarrow> writable_at u1 (a + 8) n \<Longrightarrow>
      \<exists>r u'. f u1 = Some (r, u') \<and> words_at u' (a + 8) ws' \<and> only_changed (a + 8) n u1 u' \<and> R r"
  shows "\<exists>u1 r u'. st64 a v u = Some u1 \<and> f u1 = Some (r, u') \<and> words_at u' a (v # ws') \<and>
    only_changed a (8 + n) u u' \<and> R r"
proof -
  obtain u1 where u1: "st64 a v u = Some u1" "ld64 u1 a = Some v" "only_changed a 8 u u1"
    using st_writable [OF assms(3) _ _ assms(1)] assms(4) by auto
  have a8: "unat (a + 8) = unat a + 8" using unat_plus_small [of a 8] assms(4) by simp
  have "words_at u1 (a + 8) ws" by (rule words_only_changed [OF u1(3) assms(2)]) (use assms(4) a8 in auto)
  moreover have "writable_at u1 (a + 8) n"
    using assms(3) u1(3) a8 by (auto simp: writable_at_def only_changed_def)
  ultimately obtain r u' where u': "f u1 = Some (r, u')" "words_at u' (a + 8) ws'" "only_changed (a + 8) n u1 u'" "R r"
    using assms(5) by blast
  have "words_at u' a [v]"
    by (rule words_only_changed [OF u'(3)]) (use u1(2) a8 assms(4) in auto)
  moreover have "only_changed a (8 + n) u u'"
    by (rule only_changed_trans [OF u1(3) u'(3)]) (use a8 in auto)
  ultimately show ?thesis using u1(1) u' by auto
qed

lemma patch_ptrs_words:
  assumes "words_at u a (ps @ [0])" "0 \<notin> set ps" "writable_at u a (8 * length ps)"
    "unat a + 8 * Suc (length ps) < 2 ^ 64"
  shows "\<exists>r u'. patch_ptrs d a u = Some (r, u') \<and> words_at u' a (map (\<lambda>p. p + d) ps @ [0]) \<and>
    only_changed a (8 * length ps) u u' \<and> r = a + of_nat (8 * Suc (length ps))"
  using assms
proof (induction ps arbitrary: a u)
  case Nil
  then show ?case by (auto simp: patch_ptrs.simps)
next
  case (Cons p ps)
  have p: "ld64 u a = Some p" "words_at u (a + 8) (ps @ [0])" "p \<noteq> 0"
    using Cons.prems(1,2) by (auto simp: algebra_simps)
  have a8: "unat (a + 8) = unat a + 8" using unat_plus_small [of a 8] Cons.prems(4) by simp
  have IH: "\<exists>r u'. patch_ptrs d (a + 8) u1 = Some (r, u') \<and> words_at u' (a + 8) (map (\<lambda>p. p + d) ps @ [0]) \<and>
      only_changed (a + 8) (8 * length ps) u1 u' \<and> r = a + 8 + of_nat (8 * Suc (length ps))"
    if "words_at u1 (a + 8) (ps @ [0])" "writable_at u1 (a + 8) (8 * length ps)" for u1
    using Cons.IH [OF that(1) _ that(2)] Cons.prems(2,4) a8 by simp
  obtain u1 r u' where "st64 a (p + d) u = Some u1" "patch_ptrs d (a + 8) u1 = Some (r, u')"
      "words_at u' a ((p + d) # map (\<lambda>p. p + d) ps @ [0])" "only_changed a (8 + 8 * length ps) u u'"
      "r = a + 8 + of_nat (8 * Suc (length ps))"
    using patch_step [where v = "p + d", OF p(1,2) _ _ IH] Cons.prems(3,4) by auto
  then show ?case using p by (simp add: patch_ptrs.simps [of d a] algebra_simps)
qed

abbreviation move_aux :: "u64 \<Rightarrow> u64 \<times> u64 \<Rightarrow> u64 \<times> u64" where
  "move_aux d \<equiv> \<lambda>(k, v). (k, if AT_moved k then v + d else v)"

lemma patch_auxv_words:
  assumes "words_at u a (aux_words av @ [0])" "0 \<notin> fst ` set av" "writable_at u a (16 * length av)"
    "unat a + 16 * length av + 8 < 2 ^ 64"
  shows "\<exists>u'. patch_auxv d a u = Some u' \<and> words_at u' a (aux_words (map (move_aux d) av) @ [0]) \<and>
    only_changed a (16 * length av) u u'"
  using assms
proof (induction av arbitrary: a u)
  case Nil
  then show ?case by (auto simp: patch_auxv.simps)
next
  case (Cons kv av)
  obtain k v where kv: "kv = (k, v)" by fastforce
  let ?ws = "aux_words av @ [0]" and ?ws' = "aux_words (map (move_aux d) av) @ [0]" and ?n = "16 * length av"
  have w: "ld64 u a = Some k" "ld64 u (a + 8) = Some v" "words_at u (a + 8 + 8) ?ws" "k \<noteq> 0"
    using Cons.prems(1,2) kv by (auto simp: algebra_simps)
  have a8: "unat (a + 8) = unat a + 8" "unat (a + 16) = unat a + 16"
    using unat_plus_small [of a 8] unat_plus_small [of a 16] Cons.prems(4) by simp_all
  have IH: "\<exists>u'. patch_auxv d (a + 16) u1 = Some u' \<and> words_at u' (a + 16) ?ws' \<and> only_changed (a + 16) ?n u1 u'"
    if "words_at u1 (a + 16) ?ws" "writable_at u1 (a + 16) ?n" for u1
    using Cons.IH [OF that(1) _ that(2)] Cons.prems(2,4) a8 by simp
  have wr: "writable_at u (a + 8) (8 + ?n)" "writable_at u (a + 16) ?n"
    using Cons.prems(3) a8 by (auto simp: writable_at_def)
  have "\<exists>u'. patch_auxv d a u = Some u' \<and> words_at u' (a + 8) (snd (move_aux d kv) # ?ws') \<and> only_changed (a + 8) (8 + ?n) u u'"
  proof (cases "AT_moved k")
    case True
    have "\<exists>r u'. map_option (Pair ()) (patch_auxv d (a + 16) u1) = Some (r, u') \<and> words_at u' (a + 8 + 8) ?ws' \<and>
        only_changed (a + 8 + 8) ?n u1 u' \<and> True"
      if "words_at u1 (a + 8 + 8) ?ws" "writable_at u1 (a + 8 + 8) ?n" for u1
      using IH [of u1] that by (auto simp: add.assoc)
    from patch_step [where v = "v + d", OF w(2,3) wr(1) _ this] a8 Cons.prems(4)
    obtain u1 u' where "st64 (a + 8) (v + d) u = Some u1" "patch_auxv d (a + 16) u1 = Some u'"
        "words_at u' (a + 8) ((v + d) # ?ws')" "only_changed (a + 8) (8 + ?n) u u'"
      by (auto simp: length_aux_words)
    then show ?thesis using True w kv by (simp add: patch_auxv.simps [of d a])
  next
    case False
    obtain u' where u': "patch_auxv d (a + 16) u = Some u'" "words_at u' (a + 16) ?ws'" "only_changed (a + 16) ?n u u'"
      using IH [of u] w(3) wr(2) by (auto simp: add.assoc)
    have "words_at u' (a + 8) [v]"
      by (rule words_only_changed [OF u'(3)]) (use w a8 Cons.prems(4) in auto)
    moreover have "only_changed (a + 8) (8 + ?n) u u'"
      by (rule only_changed_mono [OF u'(3)]) (use a8 in auto)
    ultimately show ?thesis using False u' w kv by (simp add: patch_auxv.simps [of d a] add.assoc)
  qed
  then obtain u' where u': "patch_auxv d a u = Some u'" "words_at u' (a + 8) (snd (move_aux d kv) # ?ws')"
      "only_changed (a + 8) (8 + ?n) u u'" by blast
  have "words_at u' a [k]"
    by (rule words_only_changed [OF u'(3)]) (use w a8 Cons.prems(4) in auto)
  moreover have "only_changed a (16 + ?n) u u'"
    by (rule only_changed_mono [OF u'(3)]) (use a8 in auto)
  ultimately show ?case using u' kv by (auto simp: algebra_simps)
qed

text \<open>The three vectors, from the argument vector on.\<close>

abbreviation vectors :: "u64 list \<Rightarrow> u64 list \<Rightarrow> (u64 \<times> u64) list \<Rightarrow> u64 list" where
  "vectors argv envp av \<equiv> (argv @ [0]) @ (envp @ [0]) @ (aux_words av @ [0])"

lemma writable_mono:
  "writable_at u a n \<Longrightarrow> unat a \<le> unat b \<Longrightarrow> unat b + m \<le> unat a + n \<Longrightarrow> writable_at u b m"
  unfolding writable_at_def by auto

lemma writable_only_changed: "only_changed c l u u' \<Longrightarrow> writable_at u' a n = writable_at u a n"
  by (simp add: writable_at_def only_changed_def)

lemma patch_vectors:
  assumes "words_at u b (vectors argv envp av)" "0 \<notin> set argv" "0 \<notin> set envp" "0 \<notin> fst ` set av"
    "writable_at u b (8 * length (vectors argv envp av))" "unat b + 8 * length (vectors argv envp av) < 2 ^ 64"
  shows "\<exists>c u1 e u2 u'. patch_ptrs d b u = Some (c, u1) \<and> patch_ptrs d c u1 = Some (e, u2) \<and> patch_auxv d e u2 = Some u' \<and>
    words_at u' b (vectors (map (\<lambda>p. p + d) argv) (map (\<lambda>p. p + d) envp) (map (move_aux d) av)) \<and>
    only_changed b (8 * length (vectors argv envp av)) u u'"
proof -
  let ?l = "8 * Suc (length argv)" and ?m = "8 * Suc (length envp)"
  define c e where "c = b + of_nat ?l" and "e = c + of_nat ?m"
  have len: "8 * length (vectors argv envp av) = ?l + ?m + 16 * length av + 8"
    by (simp add: length_aux_words)
  note bound = assms(6) [unfolded len] and wr = assms(5) [unfolded len]
  have c: "unat c = unat b + ?l" unfolding c_def by (rule unat_plus_small) (use bound in simp)
  have e: "unat e = unat c + ?m" unfolding e_def by (rule unat_plus_small) (use bound c in simp)
  have w: "words_at u b (argv @ [0])" "words_at u c (envp @ [0])" "words_at u e (aux_words av @ [0])"
    using assms(1) by (simp_all add: c_def e_def algebra_simps)
  obtain u1 where u1: "patch_ptrs d b u = Some (c, u1)" "words_at u1 b (map (\<lambda>p. p + d) argv @ [0])"
      "only_changed b (8 * length argv) u u1"
    using patch_ptrs_words [OF w(1) assms(2) writable_mono [OF wr], of d] bound by (auto simp: c_def)
  have "words_at u1 c (envp @ [0])" by (rule words_only_changed [OF u1(3) w(2)]) (use c bound in auto)
  moreover have "writable_at u1 c (8 * length envp)"
    unfolding writable_only_changed [OF u1(3)] by (rule writable_mono [OF wr]) (use c in auto)
  ultimately obtain u2 where u2: "patch_ptrs d c u1 = Some (e, u2)" "words_at u2 c (map (\<lambda>p. p + d) envp @ [0])"
      "only_changed c (8 * length envp) u1 u2"
    using patch_ptrs_words [OF _ assms(3), of u1 c d] bound c by (auto simp: e_def)
  have ch2: "only_changed b (?l + 8 * length envp) u u2"
    by (rule only_changed_trans [OF u1(3) u2(3)]) (use c in auto)
  have "words_at u2 e (aux_words av @ [0])"
    by (rule words_only_changed [OF ch2 w(3)]) (use c e bound in \<open>auto simp: length_aux_words\<close>)
  moreover have "writable_at u2 e (16 * length av)"
    unfolding writable_only_changed [OF ch2] by (rule writable_mono [OF wr]) (use c e in auto)
  ultimately obtain u' where u': "patch_auxv d e u2 = Some u'" "words_at u' e (aux_words (map (move_aux d) av) @ [0])"
      "only_changed e (16 * length av) u2 u'"
    using patch_auxv_words [OF _ assms(4), of u2 e d] bound c e by auto
  have "words_at u2 b (map (\<lambda>p. p + d) argv @ [0])"
    by (rule words_only_changed [OF u2(3) u1(2)]) (use c bound in auto)
  then have "words_at u' b (map (\<lambda>p. p + d) argv @ [0])"
    by (rule words_only_changed [OF u'(3)]) (use c e bound in auto)
  moreover have "words_at u' c (map (\<lambda>p. p + d) envp @ [0])"
    by (rule words_only_changed [OF u'(3) u2(2)]) (use c e bound in auto)
  ultimately have "words_at u' b (vectors (map (\<lambda>p. p + d) argv) (map (\<lambda>p. p + d) envp) (map (move_aux d) av))"
    using u'(2) by (simp add: c_def e_def algebra_simps)
  moreover have "only_changed b (8 * length (vectors argv envp av)) u u'"
    unfolding len by (rule only_changed_trans [OF ch2 u'(3)]) (use c e in auto)
  ultimately show ?thesis using u1 u2 u' by blast
qed

subsection \<open>The copied image\<close>

text \<open>What the kernel hands to a new program: the argument count and the three vectors at the stack
  pointer, with everything up to \<open>hi\<close> readable.\<close>

definition initial_stack ::
  "umem \<Rightarrow> u64 \<Rightarrow> u64 \<Rightarrow> u64 list \<Rightarrow> u64 list \<Rightarrow> (u64 \<times> u64) list \<Rightarrow> u64 \<Rightarrow> bool" where
  "initial_stack u rsp argc argv envp av hi \<longleftrightarrow>
     words_at u rsp (argc # vectors argv envp av) \<and> 0 \<notin> set argv \<and> 0 \<notin> set envp \<and> 0 \<notin> fst ` set av \<and>
     unat rsp + 8 * Suc (length (vectors argv envp av)) \<le> unat hi \<and>
     (\<forall>x. unat rsp \<le> unat x \<and> unat x \<le> unat hi \<longrightarrow> ureadable u x)"

text \<open>An area for the new stack, apart from the old one and large enough.\<close>

definition new_area :: "umem \<Rightarrow> u64 \<Rightarrow> u64 \<Rightarrow> u64 \<Rightarrow> bool" where
  "new_area u A rsp hi \<longleftrightarrow> unat A + unat STACK_SIZE < 2 ^ 64 \<and>
     (\<forall>x. between A (unat STACK_SIZE) x \<longrightarrow> ureadable u x \<and> uwritable u x) \<and>
     (unat hi < unat A \<or> unat A + unat STACK_SIZE \<le> unat rsp) \<and> unat hi - unat rsp + 40 \<le> unat STACK_SIZE"

definition new_rsp :: "u64 \<Rightarrow> u64 \<Rightarrow> u64 \<Rightarrow> u64" where
  "new_rsp A rsp hi = (A + STACK_SIZE - (hi - rsp + 1)) AND NOT 15"

lemma STACK_SIZE_eq: "unat STACK_SIZE = 0x800000"
  by (simp add: STACK_SIZE_def)

lemma new_rsp_bounds:
  assumes "new_area u A rsp hi" "unat rsp \<le> unat hi"
  shows "16 dvd unat (new_rsp A rsp hi)" "unat A + 24 \<le> unat (new_rsp A rsp hi)"
    "unat (new_rsp A rsp hi) + (unat hi - unat rsp) < unat A + unat STACK_SIZE"
    "hi - rsp + 1 = of_nat (Suc (unat hi - unat rsp))"
proof -
  let ?n = "Suc (unat hi - unat rsp)"
  have d: "unat (hi - rsp) = unat hi - unat rsp" using assms(2) by (simp add: unat_sub word_le_nat_alt)
  then have "hi - rsp = of_nat (unat hi - unat rsp)" by (simp flip: d)
  then show n: "hi - rsp + 1 = of_nat ?n" by simp
  have "unat (A + STACK_SIZE) = unat A + unat STACK_SIZE"
    using assms(1) by (intro unat_add_lem [THEN iffD1]) (simp add: new_area_def)
  then have "unat (A + STACK_SIZE - of_nat ?n) = unat A + unat STACK_SIZE - ?n"
    using assms(1) unat_minus_small [of ?n "A + STACK_SIZE"] by (simp add: new_area_def)
  moreover have "(15 :: u64) = mask 4" by (simp add: mask_eq_exp_minus_1)
  ultimately have "unat (new_rsp A rsp hi) = (unat A + unat STACK_SIZE - ?n) div 16 * 16"
    using unat_and_not_mask [of "A + STACK_SIZE - of_nat ?n" 4] by (simp add: new_rsp_def n)
  moreover have "unat A + 40 + (unat hi - unat rsp) \<le> unat A + unat STACK_SIZE"
    using assms(1) by (simp add: new_area_def)
  ultimately show "16 dvd unat (new_rsp A rsp hi)" "unat A + 24 \<le> unat (new_rsp A rsp hi)"
    "unat (new_rsp A rsp hi) + (unat hi - unat rsp) < unat A + unat STACK_SIZE"
    by auto
qed

text \<open>The copy, before the pointers are moved.\<close>

lemma copy_image:
  assumes st64: "initial_stack u rsp argc argv envp av hi" and new: "new_area u A rsp hi"
  defines "n \<equiv> unat hi - unat rsp"
  shows "\<exists>u1. movsb (hi - rsp + 1) rsp (new_rsp A rsp hi) u = Some u1 \<and>
    only_changed (new_rsp A rsp hi) (Suc n) u u1 \<and>
    (\<forall>i \<le> n. ubyte u1 (new_rsp A rsp hi + of_nat i) = ubyte u (rsp + of_nat i))"
proof -
  let ?a = "new_rsp A rsp hi"
  have le: "unat rsp \<le> unat hi" using st64 by (simp add: initial_stack_def)
  note b = new_rsp_bounds [OF new le, folded n_def]
  have n: "unat rsp + n = unat hi" using le by (simp add: n_def)
  have bound: "unat A + unat STACK_SIZE < 2 ^ 64" using new by (simp add: new_area_def)
  have r: "unat (rsp + of_nat i) = unat rsp + i" if "i \<le> n" for i
    using that n u64_bound [of hi] by (intro unat_plus_small) simp
  have a: "unat (?a + of_nat i) = unat ?a + i" if "i \<le> n" for i
    using that b(3) bound by (intro unat_plus_small) simp
  have apart: "rsp + of_nat i \<noteq> ?a + of_nat j" if "i \<le> n" "j \<le> n" for i j
    using new r [OF that(1)] a [OF that(2)] that n b(2,3) by (auto simp: new_area_def word_unat_eq_iff)
  have "ureadable u (rsp + of_nat i) \<and> uwritable u (?a + of_nat i)" if "i \<le> n" for i
    using st64 new r [OF that] a [OF that] that n b(2,3) by (simp add: initial_stack_def new_area_def)
  then have m: "movsb (hi - rsp + 1) rsp ?a u =
      Some (u\<lparr>ubyte := \<lambda>x. if unat (x - ?a) < Suc n then ubyte u (rsp + (x - ?a)) else ubyte u x\<rparr>)"
    unfolding b(4) using apart n u64_bound [of hi] b(3) bound by (intro movsb_copies) (auto simp: less_Suc_eq_le)
  have "unat (x - ?a) < Suc n \<longleftrightarrow> between ?a (Suc n) x" for x
    using b(3) bound u64_bound [of x] by (auto simp: unat_sub_if' split: if_splits)
  then show ?thesis using m a by (simp add: only_changed_def)
qed

lemma move_stack_image:
  assumes st64: "initial_stack u rsp argc argv envp av hi" and new: "new_area u A rsp hi"
  defines "a \<equiv> new_rsp A rsp hi"
  shows "\<exists>u'. move_stack A rsp hi u = Some (a, u') \<and>
    words_at u' a (argc # vectors (map (\<lambda>p. p + (a - rsp)) argv) (map (\<lambda>p. p + (a - rsp)) envp) (map (move_aux (a - rsp)) av)) \<and>
    (\<forall>i. 8 * Suc (length (vectors argv envp av)) \<le> i \<and> i \<le> unat hi - unat rsp \<longrightarrow>
       ubyte u' (a + of_nat i) = ubyte u (rsp + of_nat i)) \<and>
    only_changed a (Suc (unat hi - unat rsp)) u u'"
proof -
  let ?n = "unat hi - unat rsp" and ?N = "length (vectors argv envp av)"
  have "unat rsp + 8 * Suc ?N \<le> unat hi" using st64 unfolding initial_stack_def by blast
  then have le: "8 * Suc ?N \<le> ?n" "unat rsp \<le> unat hi" by linarith+
  note b = new_rsp_bounds [OF new le(2), folded a_def]
  have bound: "unat A + unat STACK_SIZE < 2 ^ 64" using new by (simp add: new_area_def)
  have ai: "unat (a + of_nat i) = unat a + i" if "i \<le> ?n" for i
    using that b(3) bound by (intro unat_plus_small) simp
  have a8: "unat (a + 8) = unat a + 8" using ai [of 8] le(1) by simp
  obtain u1 where u1: "movsb (hi - rsp + 1) rsp a u = Some u1" "only_changed a (Suc ?n) u u1"
      "\<And>i. i \<le> ?n \<Longrightarrow> ubyte u1 (a + of_nat i) = ubyte u (rsp + of_nat i)"
    using copy_image [OF st64 new] unfolding a_def by blast
  have area: "ureadable u1 x \<and> uwritable u1 x" if "between a (Suc ?n) x" for x
    using new u1(2) that b(2,3) by (auto simp: new_area_def only_changed_def)
  have "words_at u1 a (argc # vectors argv envp av)"
  proof (rule words_copied)
    show "words_at u rsp (argc # vectors argv envp av)" using st64 by (simp add: initial_stack_def)
  qed (use u1(3) area ai le(1) in auto)
  then have w: "ld64 u1 a = Some argc" "words_at u1 (a + 8) (vectors argv envp av)" by simp_all
  have wr: "writable_at u1 (a + 8) (8 * ?N)" using area a8 le(1) by (auto simp: writable_at_def)
  have z: "0 \<notin> set argv" "0 \<notin> set envp" "0 \<notin> fst ` set av" using st64 unfolding initial_stack_def by blast+
  have bnd: "unat (a + 8) + 8 * ?N < 2 ^ 64" using b(3) bound le(1) unfolding a8 mult_Suc_right by linarith
  obtain c u2 e u3 u' where p: "patch_ptrs (a - rsp) (a + 8) u1 = Some (c, u2)" "patch_ptrs (a - rsp) c u2 = Some (e, u3)"
      "patch_auxv (a - rsp) e u3 = Some u'"
      "words_at u' (a + 8) (vectors (map (\<lambda>p. p + (a - rsp)) argv) (map (\<lambda>p. p + (a - rsp)) envp) (map (move_aux (a - rsp)) av))"
      "only_changed (a + 8) (8 * ?N) u1 u'"
    using patch_vectors [OF w(2) z wr bnd] by blast
  have "words_at u' a [argc]" by (rule words_only_changed [OF p(5)]) (use w(1) a8 b(3) bound le(1) in auto)
  moreover have "move_stack A rsp hi u = Some (a, u')"
    using u1(1) p(1-3) by (simp add: move_stack_def Let_def a_def new_rsp_def)
  moreover have "only_changed a (Suc ?n) u u'"
    by (rule only_changed_trans [OF u1(2) p(5)]) (use a8 le(1) in auto)
  moreover have "ubyte u' (a + of_nat i) = ubyte u (rsp + of_nat i)" if "8 * Suc ?N \<le> i" "i \<le> ?n" for i
    using u1(3) p(5) ai [OF that(2)] a8 that by (simp add: only_changed_def)
  ultimately show ?thesis using p(4) by auto
qed

text \<open>Strings above the vectors keep their contents.\<close>

lemma string_moved:
  assumes "\<And>i. l \<le> i \<Longrightarrow> i \<le> n \<Longrightarrow> ureadable u' (a + of_nat i) \<and> ubyte u' (a + of_nat i) = ubyte u (rsp + of_nat i)"
    and "cstring_at u q s" "unat rsp + l \<le> unat q" "unat q + length s \<le> unat rsp + n"
  shows "cstring_at u' (q + (a - rsp)) s"
proof -
  have "ureadable u' (q + (a - rsp) + of_nat i) \<and> ubyte u' (q + (a - rsp) + of_nat i) = ubyte u (q + of_nat i)"
    if "i \<le> length s" for i
  proof -
    have "q = rsp + of_nat (unat q - unat rsp)" using assms(3) by simp
    then have "q + of_nat i = rsp + of_nat (unat q - unat rsp + i)" by (simp add: add.assoc [symmetric])
    then show ?thesis
      using assms(1) [of "unat q - unat rsp + i"] assms(3,4) that by (simp add: algebra_simps)
  qed
  then show ?thesis using assms(2) by (simp add: cstring_at_def)
qed

subsection \<open>The end of the strings\<close>

text \<open>What the scan takes for the end: past the string at the highest pointer, or past the 16 bytes
  of \<open>AT_RANDOM\<close> if those are highest.\<close>

definition top_pointer :: "u64 list \<Rightarrow> u64 list \<Rightarrow> (u64 \<times> u64) list \<Rightarrow> u64 \<times> u64" where
  "top_pointer argv envp av = fold aux_top av (fold max (argv @ envp) 0, 0)"

definition ends_at :: "umem \<Rightarrow> u64 list \<Rightarrow> u64 list \<Rightarrow> (u64 \<times> u64) list \<Rightarrow> u64 \<Rightarrow> bool" where
  "ends_at u argv envp av hi \<longleftrightarrow>
     (case top_pointer argv envp av of
        (p, r) \<Rightarrow> if r \<noteq> 0 then hi = p + 16
                 else \<exists>s. length s < 2 ^ 64 - 1 \<and> cstring_at u p s \<and> hi = p + of_nat (Suc (length s)) \<and>
                        unat p + Suc (length s) < 2 ^ 64)"

lemma stack_top_initial:
  assumes "initial_stack u rsp argc argv envp av hi" "ends_at u argv envp av hi"
  shows "stack_top u rsp = Some hi"
proof -
  let ?c = "rsp + 8 + of_nat (8 * Suc (length argv))"
  have z: "0 \<notin> set argv" "0 \<notin> set envp" "0 \<notin> fst ` set av" using assms(1) by (simp_all add: initial_stack_def)
  have w: "words_at u (rsp + 8) (argv @ [0])" "words_at u ?c (envp @ [0])"
      "words_at u (?c + of_nat (8 * Suc (length envp))) (aux_words av @ [0])"
    using assms(1) by (simp_all add: initial_stack_def algebra_simps)
  have "unat (- 1 :: u64) = 2 ^ 64 - 1" by (simp add: unsigned_minus_1_eq_mask mask_eq_exp_minus_1)
  then show ?thesis
    using assms(2) scan_ptrs_words [OF w(1) z(1)] scan_ptrs_words [OF w(2) z(2)] scan_auxv_words [OF w(3) z(3)]
    by (auto simp: stack_top_def ends_at_def top_pointer_def scasb_string split: prod.splits if_splits)
qed

lemma aux_top_ge: "M \<le> fst (fold aux_top av (M, r))"
proof (induction av arbitrary: M r)
  case (Cons kv av)
  obtain k v where kv: "kv = (k, v)" by fastforce
  show ?case
  proof (cases "AT_moved k \<and> \<not> v \<le> M")
    case True
    then have "M \<le> v" using linear by blast
    also have "\<dots> \<le> fst (fold aux_top av (v, if k = AT_RANDOM then 1 else 0))" by (rule Cons.IH)
    finally show ?thesis using True kv by simp
  next
    case False
    then have "aux_top kv (M, r) = (M, r)" using kv by auto
    then show ?thesis using Cons.IH [of M r] by simp
  qed
qed simp

text \<open>No string of the argument and environment vectors reaches beyond it.\<close>

lemma strings_end:
  assumes "ends_at u argv envp av hi" "snd (top_pointer argv envp av) = 0" "q \<in> set (argv @ envp)" "cstring_at u q s"
  shows "unat q + length s < unat hi"
proof -
  define p where "p = fst (top_pointer argv envp av)"
  have tp: "top_pointer argv envp av = (p, 0)" using assms(2) by (simp add: p_def prod_eq_iff)
  obtain sp where sp: "cstring_at u p sp" "hi = p + of_nat (Suc (length sp))" "unat p + Suc (length sp) < 2 ^ 64"
    using assms(1) tp by (auto simp: ends_at_def)
  have hi: "unat hi = unat p + Suc (length sp)" unfolding sp(2) by (rule unat_plus_small [OF sp(3)])
  have "q \<le> fold max (argv @ envp) 0" by (rule fold_max_ge(2) [OF assms(3)])
  also have "\<dots> \<le> p" using aux_top_ge [of "fold max (argv @ envp) 0" av 0] by (simp add: p_def top_pointer_def)
  finally have qp: "unat q \<le> unat p" by (simp add: word_le_nat_alt)
  show ?thesis
  proof (rule ccontr)
    let ?i = "unat p + length sp - unat q"
    assume "\<not> unat q + length s < unat hi"
    then have i: "?i < length s" using hi qp by simp
    have "q + of_nat ?i = p + of_nat (length sp)" using qp by simp
    then have "ubyte u (q + of_nat ?i) = 0" using sp(1) by (simp add: cstring_at_def)
    moreover have "ubyte u (q + of_nat ?i) = s ! ?i" using assms(4) i by (simp add: cstring_at_def nth_append)
    ultimately show False using assms(4) nth_mem [OF i] by (simp add: cstring_at_def)
  qed
qed

subsection \<open>Properties\<close>

lemma relocate_image:
  assumes "se_mmap E ADR_HINT STACK_SIZE u0 = (A, u)" and "A \<noteq> 0"
    and "initial_stack u rsp argc argv envp av hi" and "ends_at u argv envp av hi" and "new_area u A rsp hi"
  shows "\<exists>a u'. relocate_stack E rsp (u0, k) = pivot_request E a rsp (u', k) \<and>
    16 dvd unat a \<and> unat A + 24 \<le> unat a \<and> unat a + (unat hi - unat rsp) < unat A + unat STACK_SIZE \<and>
    words_at u' a (argc # vectors (map (\<lambda>p. p + (a - rsp)) argv) (map (\<lambda>p. p + (a - rsp)) envp) (map (move_aux (a - rsp)) av)) \<and>
    (\<forall>q s. cstring_at u q s \<and> unat rsp + 8 * Suc (length (vectors argv envp av)) \<le> unat q \<and> unat q + length s \<le> unat hi \<longrightarrow>
       cstring_at u' (q + (a - rsp)) s) \<and>
    (\<forall>q \<in> set (argv @ envp). \<forall>s. snd (top_pointer argv envp av) = 0 \<and> cstring_at u q s \<longrightarrow> unat q + length s < unat hi) \<and>
    only_changed A (unat STACK_SIZE) u u'"
proof -
  let ?a = "new_rsp A rsp hi" and ?n = "unat hi - unat rsp" and ?l = "8 * Suc (length (vectors argv envp av))"
  have le: "unat rsp \<le> unat hi" using assms(3) by (simp add: initial_stack_def)
  note b = new_rsp_bounds [OF assms(5) le]
  obtain u' where u': "move_stack A rsp hi u = Some (?a, u')"
      "words_at u' ?a (argc # vectors (map (\<lambda>p. p + (?a - rsp)) argv) (map (\<lambda>p. p + (?a - rsp)) envp) (map (move_aux (?a - rsp)) av))"
      "\<And>i. ?l \<le> i \<Longrightarrow> i \<le> ?n \<Longrightarrow> ubyte u' (?a + of_nat i) = ubyte u (rsp + of_nat i)"
      "only_changed ?a (Suc ?n) u u'"
    using move_stack_image [OF assms(3,5)] by blast
  have ch: "only_changed A (unat STACK_SIZE) u u'" by (rule only_changed_mono [OF u'(4)]) (use b(2,3) in auto)
  have "unat (?a + of_nat i) = unat ?a + i" if "i \<le> ?n" for i
    using that b(3) assms(5) by (intro unat_plus_small) (simp add: new_area_def)
  then have "ureadable u' (?a + of_nat i)" if "i \<le> ?n" for i
    using that b(2,3) assms(5) ch by (simp add: new_area_def only_changed_def)
  then have strings: "cstring_at u' (q + (?a - rsp)) s"
    if "cstring_at u q s" "unat rsp + ?l \<le> unat q" "unat q + length s \<le> unat hi" for q s
    using that u'(3) le by (intro string_moved [of ?l ?n u' ?a u rsp q s]) auto
  have "relocate_stack E rsp (u0, k) = pivot_request E ?a rsp (u', k)"
    using assms(1,2) stack_top_initial [OF assms(3,4)] u'(1) by (simp add: relocate_stack_def)
  then show ?thesis
    using b(1-3) u'(2) ch strings strings_end [OF assms(4)] by blast
qed

text \<open>C14: \<open>relocate_stack\<close> rebuilds the initial stack in the new area. The stack pointer it hands
  to the module and to \<open>_start\<close> is aligned and lies in the area; there, the argument count is the
  same, every argument and environment pointer and every moved entry of the auxiliary vector has
  been shifted by the distance of the two stacks, and every string that lies between the vectors
  and the end found by the scan is at its shifted address; the end is past every argument and
  environment string unless the random bytes are highest. No byte outside the area changes.\<close>

theorem relocate_stack_correct:
  assumes "se_mmap E ADR_HINT STACK_SIZE u0 = (A, u)" and "A \<noteq> 0"
    and "initial_stack u rsp argc argv envp av hi" and "ends_at u argv envp av hi" and "new_area u A rsp hi"
  shows "\<exists>a u'. relocate_stack E rsp (u0, k) = pivot_request E a rsp (u', k) \<and>
    16 dvd unat a \<and> unat A + 24 \<le> unat a \<and> unat a + (unat hi - unat rsp) < unat A + unat STACK_SIZE \<and>
    words_at u' a (argc # vectors (map (\<lambda>p. p + (a - rsp)) argv) (map (\<lambda>p. p + (a - rsp)) envp) (map (move_aux (a - rsp)) av)) \<and>
    (\<forall>q s. cstring_at u q s \<and> unat rsp + 8 * Suc (length (vectors argv envp av)) \<le> unat q \<and> unat q + length s \<le> unat hi \<longrightarrow>
       cstring_at u' (q + (a - rsp)) s) \<and>
    (\<forall>q \<in> set (argv @ envp). \<forall>s. snd (top_pointer argv envp av) = 0 \<and> cstring_at u q s \<longrightarrow> unat q + length s < unat hi) \<and>
    only_changed A (unat STACK_SIZE) u u'"
  by (rule relocate_image [OF assms])

text \<open>A small initial stack: one argument, which is also the name of the program.\<close>

definition start_bytes :: "byte list" where
  "start_bytes = concat (map (to_bytes 8) [1, 0x7ffe00001038, 0, 0, 31, 0x7ffe00001038, 0]) @ [97, 0]"

definition start_mem :: umem where
  "start_mem = \<lparr>ubyte = (\<lambda>x. let i = unat (x - 0x7ffe00001000) in if i < 58 then start_bytes ! i else 0),
     ureadable = (\<lambda>x. between 0x7ffe00000000 0x2000 x \<or> between 0x600000000000 0x800000 x),
     uwritable = (\<lambda>x. between 0x7ffe00000000 0x2000 x \<or> between 0x600000000000 0x800000 x)\<rparr>"

lemma start_word:
  assumes "i \<le> 50"
  shows "ld64 start_mem (0x7ffe00001000 + of_nat i) = Some (of_bytes (take 8 (drop i start_bytes)))"
proof -
  have len: "length start_bytes = 58" by (simp add: start_bytes_def)
  have b: "unat (0x7ffe00001000 + of_nat i + of_nat j :: u64) = 0x7ffe00001000 + i + j" if "j < 8" for j
    using that assms unat_plus_small [of "0x7ffe00001000" "i + j"] by (simp add: add.assoc)
  have "ubyte start_mem (0x7ffe00001000 + of_nat i + of_nat j) = start_bytes ! (i + j)" if "j < 8" for j
  proof -
    have "unat (0x7ffe00001000 + of_nat i + of_nat j - 0x7ffe00001000 :: u64) = i + j"
      using that assms unat_of_nat [of "i + j", where 'a = 64] by (simp add: take_bit_nat_eq_self)
    then show ?thesis using that assms by (simp add: start_mem_def Let_def)
  qed
  then have "map (\<lambda>j. ubyte start_mem (0x7ffe00001000 + of_nat i + of_nat j)) [0..<8] = take 8 (drop i start_bytes)"
    using assms len by (intro nth_equalityI) auto
  then show ?thesis
    using b assms by (auto simp: ld64_def read64_def list_all_iff start_mem_def)
qed

lemma start_stack:
  "initial_stack start_mem 0x7ffe00001000 1 [0x7ffe00001038] [] [(31, 0x7ffe00001038)] 0x7ffe0000103a"
  "ends_at start_mem [0x7ffe00001038] [] [(31, 0x7ffe00001038)] 0x7ffe0000103a"
  "new_area start_mem 0x600000000000 0x7ffe00001000 0x7ffe0000103a"
proof -
  have w: "words_at start_mem 0x7ffe00001000 (1 # vectors [0x7ffe00001038] [] [(31, 0x7ffe00001038)])"
    using start_word [of 0] start_word [of 8] start_word [of 16] start_word [of 24] start_word [of 32]
      start_word [of 40] start_word [of 48]
    by (simp add: start_bytes_def)
  then show "initial_stack start_mem 0x7ffe00001000 1 [0x7ffe00001038] [] [(31, 0x7ffe00001038)] 0x7ffe0000103a"
    unfolding initial_stack_def by (auto simp: start_mem_def)
  have "cstring_at start_mem 0x7ffe00001038 [97]"
    by (auto simp: cstring_at_def start_mem_def start_bytes_def Let_def le_Suc_eq nth_append)
  then show "ends_at start_mem [0x7ffe00001038] [] [(31, 0x7ffe00001038)] 0x7ffe0000103a"
    by (simp add: ends_at_def top_pointer_def AT_moved_def) (rule exI [of _ "[97]"], simp)
  show "new_area start_mem 0x600000000000 0x7ffe00001000 0x7ffe0000103a"
    by (auto simp: new_area_def start_mem_def STACK_SIZE_eq)
qed

definition start_mm :: mm_struct where
  "start_mm = init_mm\<lparr>saved_auxv := [31, 0x7ffe00001038, 0, 0], arg_start := 0x7ffe00001038,
     mmap := [\<lparr>vm_start = 0x600000000000, vm_end = 0x600000800000, vm_growsdown = False\<rparr>,
              \<lparr>vm_start = 0x7ffe00000000, vm_end = 0x7ffe00002000, vm_growsdown = True\<rparr>]\<rparr>"

definition start_kernel :: kernel where
  "start_kernel = boot_kernel\<lparr>mms := [7 \<mapsto> start_mm]\<rparr>"

definition demo_start :: "kernel start_env" where
  "demo_start = \<lparr>se_mmap = (\<lambda>_ _ u. (0x600000000000, u)), se_open = (\<lambda>k. (3, k)), se_dev = chrdev_ioctl demo_src 0 demo_task\<rparr>"

theorem relocate_stack_correct_witness:
  "\<exists>a u'. relocate_stack demo_start 0x7ffe00001000 (start_mem, start_kernel) =
      pivot_request demo_start a 0x7ffe00001000 (u', start_kernel) \<and> 16 dvd unat a \<and>
    words_at u' a [1, 0x7ffe00001038 + (a - 0x7ffe00001000), 0, 0, 31, 0x7ffe00001038 + (a - 0x7ffe00001000), 0]"
proof -
  have "se_mmap demo_start ADR_HINT STACK_SIZE start_mem = (0x600000000000, start_mem)" by (simp add: demo_start_def)
  from relocate_stack_correct [OF this _ start_stack, of start_kernel] show ?thesis by (fastforce simp: AT_moved_def)
qed

text \<open>A failure of \<open>mmap\<close> is not noticed: its answer is a negated error number, never 0, and the
  routine goes on to copy the stack to an address that has nothing to do with the request. If
  nothing is mapped there, the process dies of a fault instead of exiting.\<close>

lemma relocate_mmap_failure:
  assumes "se_mmap E ADR_HINT STACK_SIZE u0 = (- e, u)" "e \<noteq> 0"
    and "initial_stack u rsp argc argv envp av hi" "ends_at u argv envp av hi"
    and "\<not> uwritable u (new_rsp (- e) rsp hi)" "hi - rsp + 1 \<noteq> 0"
  shows "relocate_stack E rsp (u0, k) = None"
  using assms stack_top_initial [OF assms(3,4)]
  by (simp add: relocate_stack_def move_stack_def Let_def new_rsp_def movsb.simps [of "hi - rsp + 1"])

subsection \<open>Together with the module\<close>

lemma uread_split: "take m (uread u b (m + n)) = uread u b m" "drop m (uread u b (m + n)) = uread u (b + of_nat m) n"
  by (auto simp: uread_def take_map drop_map add.assoc intro!: nth_equalityI)

lemma dec_pivot_words:
  assumes "words_at u b [e, n, r]"
  shows "dec_pivot (uread u b 24) = \<lparr>pp_error = e, new_stack_address = n, pp_rsp = r\<rparr>"
proof -
  have w: "of_bytes (uread u c 8) = x" if "ld64 u c = Some x" for c x
    using that by (auto simp: ld64_def uread_def read64_def split: if_splits)
  have "take 8 (uread u b 24) = uread u b 8" "take 8 (drop 8 (uread u b 24)) = uread u (b + 8) 8"
      "take 8 (drop 16 (uread u b 24)) = uread u (b + 16) 8"
    using uread_split [of 8 u b 16] uread_split [of 8 u "b + 8" 8] uread_split [of 16 u b 8] by (simp_all add: uread_def)
  then show ?thesis
    using assms w [of b e] w [of "b + 8" n] w [of "b + 16" r] by (simp add: dec_pivot_def add.assoc)
qed

definition accessible :: "umem \<Rightarrow> u64 \<Rightarrow> nat \<Rightarrow> bool" where
  "accessible u a n \<longleftrightarrow> unat a + n < 2 ^ 64 \<and> (\<forall>x. between a n x \<longrightarrow> ureadable u x \<and> uwritable u x)"

lemma accessible_only_changed: "only_changed c l u u' \<Longrightarrow> accessible u' a n = accessible u a n"
  by (simp add: accessible_def only_changed_def)

lemma st_accessible:
  assumes "accessible u b n" "unat b \<le> unat a" "unat a + 8 \<le> unat b + n"
  shows "\<exists>u'. st64 a v u = Some u' \<and> ld64 u' a = Some v \<and> only_changed a 8 u u'"
proof -
  have "ureadable u (a + of_nat i)" if "i < 8" for i
    using assms between_word [of a i] that by (auto simp: accessible_def)
  then have "ld64 u a = Some (read64 (ubyte u) a)" by (simp add: ld64_def list_all_iff)
  moreover have "writable_at u a 8" using assms by (auto simp: accessible_def writable_at_def)
  ultimately show ?thesis using assms by (intro st_writable) (auto simp: accessible_def)
qed

lemma accessible_uaccess:
  assumes "accessible u a n"
  shows "uaccess u a n"
proof -
  have "between a n (a + of_nat i)" if "i < n" for i
    using assms that unat_plus_small [of a i] by (simp add: accessible_def)
  then show ?thesis using assms by (simp add: accessible_def uaccess_def)
qed

lemma only_changed_uwrite:
  assumes "unat a + length bs < 2 ^ 64"
  shows "only_changed a (length bs) u (uwrite a bs u)"
proof -
  have "\<not> unat (x - a) < length bs" if "\<not> between a (length bs) x" for x
    using that assms u64_bound [of a] by (auto simp: unat_sub_if' split: if_splits)
  then show ?thesis using assms by (simp add: only_changed_def ubyte_uwrite)
qed

text \<open>The structure on the new stack.\<close>

lemma request_written:
  assumes acc: "accessible u b 24"
  shows "\<exists>u1 u2 u3. st64 b 0 u = Some u1 \<and> st64 (b + 8) n u1 = Some u2 \<and> st64 (b + 16) r u2 = Some u3 \<and>
    words_at u3 b [0, n, r] \<and> only_changed b 24 u u3"
proof -
  have b: "unat (b + 8) = unat b + 8" "unat (b + 16) = unat b + 16" "unat b + 24 < 2 ^ 64"
    using unat_plus_small [of b 8] unat_plus_small [of b 16] acc by (simp_all add: accessible_def)
  obtain u1 where u1: "st64 b 0 u = Some u1" "ld64 u1 b = Some 0" "only_changed b 8 u u1"
    using st_accessible [OF acc] by fastforce
  have acc1: "accessible u1 b 24" using acc accessible_only_changed [OF u1(3)] by simp
  obtain u2 where u2: "st64 (b + 8) n u1 = Some u2" "ld64 u2 (b + 8) = Some n" "only_changed (b + 8) 8 u1 u2"
    using st_accessible [OF acc1, of "b + 8"] b by auto
  have acc2: "accessible u2 b 24" using acc1 accessible_only_changed [OF u2(3)] by simp
  obtain u3 where u3: "st64 (b + 16) r u2 = Some u3" "ld64 u3 (b + 16) = Some r" "only_changed (b + 16) 8 u2 u3"
    using st_accessible [OF acc2, of "b + 16"] b by auto
  have "words_at u2 b [0]" by (rule words_only_changed [OF u2(3)]) (use u1(2) b in auto)
  then have "words_at u2 b [0, n]" using u2(2) by simp
  then have "words_at u3 b [0, n]" by (rule words_only_changed [OF u3(3)]) (use b in auto)
  moreover have "only_changed b 16 u u2" by (rule only_changed_trans [OF u1(3) u2(3)]) (use b in auto)
  then have "only_changed b 24 u u3" by (rule only_changed_trans [OF _ u3(3)]) (use b in auto)
  ultimately show ?thesis using u1(1) u2(1) u3(1,2) by (auto simp: add.assoc)
qed

lemma pivot_request_module:
  assumes "se_open E k = (fd, k)" "fd \<ge> 0" "se_dev E = chrdev_ioctl K stale cur"
    and "accessible u (a - 24) 24" "sa_pivot cur rsp a k = Some (e, k')"
  shows "\<exists>u'. pivot_request E a rsp (u, k) = Some (At_start a u' k') \<and> only_changed (a - 24) 24 u u' \<and>
    dec_pivot (uread u' (a - 24) 24) = \<lparr>pp_error = word_of_int e, new_stack_address = a, pp_rsp = rsp\<rparr>"
proof -
  let ?b = "a - 24" and ?r = "\<lparr>pp_error = word_of_int e, new_stack_address = a, pp_rsp = rsp\<rparr>"
  obtain u1 u2 u3 where u3: "st64 ?b 0 u = Some u1" "st64 (?b + 8) a u1 = Some u2" "st64 (?b + 16) rsp u2 = Some u3"
      "words_at u3 ?b [0, a, rsp]" "only_changed ?b 24 u u3"
    using request_written [OF assms(4)] by blast
  have acc: "accessible u3 ?b 24" using assms(4) accessible_only_changed [OF u3(5)] by simp
  have io: "chrdev_ioctl K stale cur IOCTL_SHADOW_PIVOT ?b (u3, k) = Some (0, uwrite ?b (enc_pivot ?r) u3, k')"
    using uaccess_copy [OF accessible_uaccess [OF acc]] dec_pivot_words [OF u3(4)] assms(5)
    by (simp add: chrdev_ioctl_def Let_def)
  have "only_changed ?b 24 u3 (uwrite ?b (enc_pivot ?r) u3)"
    using only_changed_uwrite [of ?b "enc_pivot ?r" u3] acc by (simp add: accessible_def)
  then have "only_changed ?b 24 u (uwrite ?b (enc_pivot ?r) u3)"
    by (rule only_changed_trans [OF u3(5)]) simp_all
  moreover have "dec_pivot (uread (uwrite ?b (enc_pivot ?r) u3) ?b 24) = ?r"
    using uread_uwrite [of "enc_pivot ?r" ?b u3] by simp
  ultimately show ?thesis
    using assms(1-3) u3(1-3) io by (auto simp: pivot_request_def Let_def)
qed

text \<open>The module's walk over its copy of the auxiliary vector, pair by pair.\<close>

abbreviation move_saved :: "u64 \<Rightarrow> u64 \<times> u64 \<Rightarrow> u64 \<times> u64" where
  "move_saved d \<equiv> \<lambda>(k, v). (k, if AT_moved k \<and> k \<noteq> AT_BASE then v + d else v)"

lemma relocate_auxv_pairs:
  "0 \<notin> fst ` set av \<Longrightarrow>
    relocate_auxv d (aux_words av @ 0 # w # rest) = Some (aux_words (map (move_saved d) av) @ 0 # w # rest)"
  by (induction av) (auto simp: AT_moved_def)

text \<open>C15: with the module behind the device, the process reaches \<open>_start\<close> on the new stack and the
  kernel's record of the process agrees with what the program finds there: the argument and
  environment ranges and the saved auxiliary vector have moved by the same distance as the
  pointers on the stack, the old area is unmapped and the new one is kept. The two auxiliary
  vectors differ at \<open>AT_BASE\<close> only, which the routine moves and the module does not.\<close>

theorem relocation_agrees:
  assumes "se_mmap E ADR_HINT STACK_SIZE u0 = (A, u)" and "A \<noteq> 0"
    and "initial_stack u rsp argc argv envp av hi" and "ends_at u argv envp av hi" and "new_area u A rsp hi"
    and "se_open E k = (fd, k)" and "fd \<ge> 0" and "se_dev E = chrdev_ioctl K stale cur"
    and "task_mm cur = Some m" and "mms k m = Some mm" and "\<not> mmap_locked mm" and "wf_areas (mmap mm)"
    and "saved_auxv mm = aux_words av @ 0 # w # rest" and "even (length rest)"
    and "old \<in> set (mmap mm)" and "vm_start old \<le> rsp" and "rsp < vm_end old"
    and "new \<in> set (mmap mm)" and "vm_start new \<le> A" and "A + STACK_SIZE \<le> vm_end new" and "new \<noteq> old"
  shows "\<exists>a u' k' mm'. relocate_stack E rsp (u0, k) = Some (At_start a u' k') \<and> mms k' m = Some mm' \<and>
    words_at u' a (argc # vectors (map (\<lambda>p. p + (a - rsp)) argv) (map (\<lambda>p. p + (a - rsp)) envp) (map (move_aux (a - rsp)) av)) \<and>
    saved_auxv mm' = aux_words (map (move_saved (a - rsp)) av) @ 0 # w # rest \<and>
    arg_start mm' = arg_start mm + (a - rsp) \<and> arg_end mm' = arg_end mm + (a - rsp) \<and>
    env_start mm' = env_start mm + (a - rsp) \<and> env_end mm' = env_end mm + (a - rsp) \<and>
    covered (mmap mm') a \<and> \<not> covered (mmap mm') rsp"
proof -
  let ?n = "unat hi - unat rsp"
  obtain a u1 where a: "relocate_stack E rsp (u0, k) = pivot_request E a rsp (u1, k)"
      "unat A + 24 \<le> unat a" "unat a + ?n < unat A + unat STACK_SIZE" "only_changed A (unat STACK_SIZE) u u1"
      "words_at u1 a (argc # vectors (map (\<lambda>p. p + (a - rsp)) argv) (map (\<lambda>p. p + (a - rsp)) envp) (map (move_aux (a - rsp)) av))"
    using relocate_image [OF assms(1-5)] by blast
  have area: "unat A + unat STACK_SIZE < 2 ^ 64" using assms(5) by (simp add: new_area_def)
  then have "unat (A + STACK_SIZE) = unat A + unat STACK_SIZE" by (intro unat_add_lem [THEN iffD1]) simp
  then have sp: "vm_start new \<le> a" "a < vm_end new"
    using a(2,3) assms(19,20) by (auto simp: word_le_nat_alt word_less_nat_alt)
  have ev: "even (length (saved_auxv mm))" using assms(13,14) by (simp add: length_aux_words)
  from sa_pivot_outcome [OF assms(11,12) ev assms(15-18) sp]
  obtain mm' where mm': "sa_pivot_mm rsp a mm = Some (- 1, mm')"
      "relocate_auxv (a - rsp) (saved_auxv mm) = Some (saved_auxv mm')"
      "arg_start mm' - a = arg_start mm - rsp" "arg_end mm' - a = arg_end mm - rsp"
      "env_start mm' - a = env_start mm - rsp" "env_end mm' - a = env_end mm - rsp"
      "covered (mmap mm') a" "\<not> covered (mmap mm') rsp"
    using assms(16,17,21) by blast
  have "0 \<notin> fst ` set av" using assms(3) by (simp add: initial_stack_def)
  from relocate_auxv_pairs [OF this, of "a - rsp" w rest] mm'(2)
  have aux: "saved_auxv mm' = aux_words (map (move_saved (a - rsp)) av) @ 0 # w # rest" by (simp add: assms(13))
  have b: "unat (a - 24) = unat a - 24" using unat_minus_small [of 24 a] a(2) by simp
  have "accessible u1 (a - 24) 24"
    unfolding accessible_only_changed [OF a(4)] using assms(5) area a(2,3) b by (auto simp: accessible_def new_area_def)
  moreover have "sa_pivot cur rsp a k = Some (- 1, k\<lparr>mms := (mms k)(m \<mapsto> mm')\<rparr>)"
    using assms(9,10) mm'(1) by (simp add: sa_pivot_def with_mm_def)
  ultimately obtain u' where u': "pivot_request E a rsp (u1, k) = Some (At_start a u' (k\<lparr>mms := (mms k)(m \<mapsto> mm')\<rparr>))"
      "only_changed (a - 24) 24 u1 u'"
    using pivot_request_module [OF assms(6-8)] by blast
  have "8 * Suc (length (vectors argv envp av)) \<le> ?n" using assms(3) unfolding initial_stack_def by linarith
  then have "words_at u' a (argc # vectors (map (\<lambda>p. p + (a - rsp)) argv) (map (\<lambda>p. p + (a - rsp)) envp) (map (move_aux (a - rsp)) av))"
    by (intro words_only_changed [OF u'(2) a(5)]) (use a(2,3) area b in \<open>auto simp: length_aux_words simp del: map_map\<close>)
  moreover have "arg_start mm' = arg_start mm + (a - rsp)" "arg_end mm' = arg_end mm + (a - rsp)"
      "env_start mm' = env_start mm + (a - rsp)" "env_end mm' = env_end mm + (a - rsp)"
    using mm'(3-6) by (simp_all add: algebra_simps)
  ultimately show ?thesis using a(1) u'(1) aux mm'(7,8) by auto
qed

theorem relocation_agrees_witness:
  "\<exists>a u' k' mm'. relocate_stack demo_start 0x7ffe00001000 (start_mem, start_kernel) = Some (At_start a u' k') \<and>
    mms k' 7 = Some mm' \<and> saved_auxv mm' = [31, 0x7ffe00001038 + (a - 0x7ffe00001000), 0, 0] \<and>
    covered (mmap mm') a \<and> \<not> covered (mmap mm') 0x7ffe00001000"
proof -
  let ?new = "\<lparr>vm_start = 0x600000000000, vm_end = 0x600000800000, vm_growsdown = False\<rparr>"
  let ?old = "\<lparr>vm_start = 0x7ffe00000000, vm_end = 0x7ffe00002000, vm_growsdown = True\<rparr>"
  have "se_mmap demo_start ADR_HINT STACK_SIZE start_mem = (0x600000000000, start_mem)"
      "se_open demo_start start_kernel = (3, start_kernel)" "se_dev demo_start = chrdev_ioctl demo_src 0 demo_task"
    by (simp_all add: demo_start_def)
  moreover have "task_mm demo_task = Some 7" "mms start_kernel 7 = Some start_mm"
    by (simp_all add: demo_task_def start_kernel_def)
  moreover have "\<not> mmap_locked start_mm" "wf_areas (mmap start_mm)"
      "saved_auxv start_mm = aux_words [(31, 0x7ffe00001038)] @ 0 # 0 # []"
      "?old \<in> set (mmap start_mm)" "?new \<in> set (mmap start_mm)"
    by (simp_all add: start_mm_def init_mm_def wf_areas_def)
  ultimately show ?thesis
    using relocation_agrees [of demo_start start_mem "0x600000000000" start_mem "0x7ffe00001000" 1 "[0x7ffe00001038]" "[]"
        "[(31, 0x7ffe00001038)]" "0x7ffe0000103a" start_kernel 3 demo_src 0 demo_task 7 start_mm 0 "[]" ?old ?new]
      start_stack
    by (fastforce simp: AT_moved_def STACK_SIZE_def)
qed

end
