(* ===== verification/X86_Pass.thy ===== *)
theory X86_Pass
  imports Byte_Memory
begin

text \<open>
  The LLVM machine pass \<^verbatim>\<open>shadow_stack_x86/X86ShadowStack.cpp\<close>: the code it puts at the
  entry of a function and in front of its returns, the pass itself as a transformation of lists
  of blocks, and what the emitted code does on an x86-64 machine.

  The machine has the sixteen general registers, byte memory, the \<open>GS\<close> base and the zero
  flag; the instructions are those the pass emits, returns and tail jumps, and opaque ones. The
  thread's chunk of the pool starts at the \<open>GS\<close> base and its second word is the pointer to
  the next free entry (\<open>top\<close> of \<open>SSChunk\<close>). The register scavenger of LLVM is a
  parameter: for every return a register that is free there, or none. A tail jump is
  unconditional here; in front of a conditional one, which is a return for the pass too, the emitted
  subtraction and comparison would change the flags it tests. Of the flags only the zero flag is
  modelled.
\<close>

datatype gpr = RAX | RBX | RCX | RDX | RSI | RDI | RBP | RSP | R8 | R9 | R10 | R11 | R12 | R13 | R14 | R15

datatype maddr = Base gpr u64 | Gs u64

datatype minstr =
    PUSH64r gpr | POP64r gpr
  | MOV64rm gpr maddr | MOV64mr maddr gpr
  | ADD64ri8 gpr u64 | SUB64ri8 gpr u64
  | CMP64mr maddr gpr | JNE nat
  | TRAP | RET64 | TAILJMP nat | META nat | OTHER nat

subsection \<open>The machine\<close>

record mstate =
  regs :: "gpr \<Rightarrow> u64"
  mem :: "u64 \<Rightarrow> byte"
  gs :: u64
  zf :: bool

fun ea :: "mstate \<Rightarrow> maddr \<Rightarrow> u64" where
  "ea s (Base r d) = regs s r + d"
| "ea s (Gs d) = gs s + d"

abbreviation set_reg :: "gpr \<Rightarrow> u64 \<Rightarrow> mstate \<Rightarrow> mstate" where
  "set_reg r v s \<equiv> s\<lparr>regs := (regs s)(r := v)\<rparr>"

abbreviation store :: "u64 \<Rightarrow> u64 \<Rightarrow> mstate \<Rightarrow> mstate" where
  "store a v s \<equiv> s\<lparr>mem := write64 (mem s) a v\<rparr>"

datatype result = Next mstate | Jump nat mstate | Trapped | Ret u64 mstate | Tail nat mstate

fun exec_instr :: "(nat \<Rightarrow> mstate \<Rightarrow> mstate) \<Rightarrow> minstr \<Rightarrow> mstate \<Rightarrow> result" where
  "exec_instr sem (PUSH64r r) s = Next (set_reg RSP (regs s RSP - 8) (store (regs s RSP - 8) (regs s r) s))"
| "exec_instr sem (POP64r r) s = Next (set_reg r (read64 (mem s) (regs s RSP)) (set_reg RSP (regs s RSP + 8) s))"
| "exec_instr sem (MOV64rm r a) s = Next (set_reg r (read64 (mem s) (ea s a)) s)"
| "exec_instr sem (MOV64mr a r) s = Next (store (ea s a) (regs s r) s)"
| "exec_instr sem (ADD64ri8 r d) s = Next (set_reg r (regs s r + d) (s\<lparr>zf := regs s r + d = 0\<rparr>))"
| "exec_instr sem (SUB64ri8 r d) s = Next (set_reg r (regs s r - d) (s\<lparr>zf := regs s r - d = 0\<rparr>))"
| "exec_instr sem (CMP64mr a r) s = Next (s\<lparr>zf := read64 (mem s) (ea s a) = regs s r\<rparr>)"
| "exec_instr sem (JNE b) s = (if zf s then Next s else Jump b s)"
| "exec_instr sem TRAP s = Trapped"
| "exec_instr sem RET64 s = Ret (read64 (mem s) (regs s RSP)) (set_reg RSP (regs s RSP + 8) s)"
| "exec_instr sem (TAILJMP n) s = Tail n s"
| "exec_instr sem (META n) s = Next s"
| "exec_instr sem (OTHER n) s = Next (sem n s)"

fun exec :: "(nat \<Rightarrow> mstate \<Rightarrow> mstate) \<Rightarrow> minstr list \<Rightarrow> mstate \<Rightarrow> result" where
  "exec sem [] s = Next s"
| "exec sem (i # is) s = (case exec_instr sem i s of Next s \<Rightarrow> exec sem is s | r \<Rightarrow> r)"

lemma exec_append:
  "exec sem (xs @ ys) s = (case exec sem xs s of Next s \<Rightarrow> exec sem ys s | r \<Rightarrow> r)"
  by (induction xs arbitrary: s) (auto split: result.splits)

subsection \<open>The pass\<close>

datatype ViolationStrategy = BlindWrite | Trap

type_synonym block = "minstr list"

record machine_function =
  hasCalls :: bool
  blocks :: "block list"

fun isReturn :: "minstr \<Rightarrow> bool" where
  "isReturn RET64 = True"
| "isReturn (TAILJMP _) = True"
| "isReturn _ = False"

fun isMeta :: "minstr \<Rightarrow> bool" where
  "isMeta (META _) = True"
| "isMeta _ = False"

definition preamble :: "minstr list" where
  "preamble =
     [PUSH64r R11, PUSH64r R10,
      MOV64rm R11 (Gs 8), MOV64rm R10 (Base RSP 16), MOV64mr (Base R11 0) R10,
      ADD64ri8 R11 8, MOV64mr (Gs 8) R11,
      POP64r R10, POP64r R11]"

definition instrumentPreamble :: "machine_function \<Rightarrow> machine_function" where
  "instrumentPreamble MF =
     (case blocks MF of
        [] \<Rightarrow> MF
      | b # bs \<Rightarrow> MF\<lparr>blocks := (takeWhile isMeta b @ preamble @ dropWhile isMeta b) # bs\<rparr>)"

text \<open>The block \<open>TrapBB\<close>, once created, is the one after the function's own blocks.\<close>

definition getOrCreateTrapBB :: "nat \<Rightarrow> nat option \<Rightarrow> nat \<times> nat option" where
  "getOrCreateTrapBB n TrapBB = (case TrapBB of Some t \<Rightarrow> (t, TrapBB) | None \<Rightarrow> (n, Some n))"

definition ret_code :: "ViolationStrategy \<Rightarrow> gpr option \<Rightarrow> nat \<Rightarrow> minstr list" where
  "ret_code Strategy scavenged trap =
     (let NeedManualSpilling = (scavenged = None);
          ScratchReg = (case scavenged of Some r \<Rightarrow> r | None \<Rightarrow> R11);
          RspOffset = (if NeedManualSpilling then 8 else 0)
      in (if NeedManualSpilling then [PUSH64r ScratchReg] else []) @
         [MOV64rm ScratchReg (Gs 8), SUB64ri8 ScratchReg 8, MOV64mr (Gs 8) ScratchReg,
          MOV64rm ScratchReg (Base ScratchReg 0)] @
         (case Strategy of
            BlindWrite \<Rightarrow> [MOV64mr (Base RSP RspOffset) ScratchReg]
          | Trap \<Rightarrow> [CMP64mr (Base RSP RspOffset) ScratchReg, JNE trap]) @
         (if NeedManualSpilling then [POP64r ScratchReg] else []))"

definition instrumentRet ::
  "ViolationStrategy \<Rightarrow> gpr option \<Rightarrow> nat \<Rightarrow> nat option \<Rightarrow> minstr list \<times> nat option" where
  "instrumentRet Strategy scavenged n TrapBB =
     (case Strategy of
        BlindWrite \<Rightarrow> (ret_code BlindWrite scavenged 0, TrapBB)
      | Trap \<Rightarrow> let (t, TrapBB) = getOrCreateTrapBB n TrapBB in (ret_code Trap scavenged t, TrapBB))"

text \<open>The loop over a block runs from its end to its beginning: \<open>before\<close> are the instructions
  not yet visited, last first, and \<open>after\<close> the finished part. \<open>scav i\<close> is what the
  scavenger finds at the instruction of index \<open>i\<close>.\<close>

fun block_loop ::
  "ViolationStrategy \<Rightarrow> (nat \<Rightarrow> gpr option) \<Rightarrow> nat \<Rightarrow> minstr list \<Rightarrow> minstr list \<Rightarrow> nat option \<Rightarrow>
   minstr list \<times> nat option" where
  "block_loop Strategy scav n [] after TrapBB = (after, TrapBB)"
| "block_loop Strategy scav n (I # before) after TrapBB =
     (if isReturn I then
        let (code, TrapBB) = instrumentRet Strategy (scav (length before)) n TrapBB
        in block_loop Strategy scav n before (code @ I # after) TrapBB
      else block_loop Strategy scav n before (I # after) TrapBB)"

fun blocks_loop ::
  "ViolationStrategy \<Rightarrow> (nat \<Rightarrow> nat \<Rightarrow> gpr option) \<Rightarrow> nat \<Rightarrow> nat \<Rightarrow> block list \<Rightarrow> nat option \<Rightarrow>
   block list \<times> nat option" where
  "blocks_loop Strategy scav n i [] TrapBB = ([], TrapBB)"
| "blocks_loop Strategy scav n i (b # bs) TrapBB =
     (let (b, TrapBB) = block_loop Strategy (scav i) n (rev b) [] TrapBB;
          (bs, TrapBB) = blocks_loop Strategy scav n (Suc i) bs TrapBB
      in (b # bs, TrapBB))"

text \<open>The trap block, appended to the function while the loop runs, is visited too; it has no
  return.\<close>

definition runOnMachineFunction ::
  "ViolationStrategy \<Rightarrow> (nat \<Rightarrow> nat \<Rightarrow> gpr option) \<Rightarrow> machine_function \<Rightarrow> bool \<times> machine_function" where
  "runOnMachineFunction Strategy scav MF =
     (if \<not> hasCalls MF then (False, MF)
      else let MF = instrumentPreamble MF; n = length (blocks MF);
               (bs, TrapBB) = blocks_loop Strategy scav n 0 (blocks MF) None
           in (True, MF\<lparr>blocks := bs @ (case TrapBB of Some _ \<Rightarrow> [[TRAP]] | None \<Rightarrow> [])\<rparr>))"

subsection \<open>What the emitted code does\<close>

definition slot :: "mstate \<Rightarrow> u64" where
  "slot s = read64 (mem s) (gs s + 8)"

text \<open>The cells the preamble touches below the stack pointer stay clear of the chunk's header and
  of the next free entry, which are apart themselves.\<close>

definition pre_sep :: "mstate \<Rightarrow> bool" where
  "pre_sep s \<longleftrightarrow> (let P = regs s RSP in
     sep (gs s + 8) (P - 8) \<and> sep (gs s + 8) (P - 16) \<and> sep (slot s) (P - 8) \<and> sep (slot s) (P - 16) \<and>
     sep (slot s) (gs s + 8))"

lemma sep_near [simp]:
  "sep x (x - 8)" "sep (x - 8) x" "sep (x - 8) (x - 16)" "sep (x - 16) (x - 8)" "sep x (x - 16)"
  by (simp_all add: sep_def)

lemma exec_preamble:
  assumes "pre_sep s"
  shows "exec sem preamble s = Next (s\<lparr>zf := slot s + 8 = 0, mem := write64 (write64 (write64 (write64 (mem s)
      (regs s RSP - 8) (regs s R11)) (regs s RSP - 16) (regs s R10)) (slot s) (read64 (mem s) (regs s RSP)))
      (gs s + 8) (slot s + 8)\<rparr>)"
proof -
  have seps: "sep (gs s + 8) (regs s RSP - 8)" "sep (gs s + 8) (regs s RSP - 16)" "sep (slot s) (regs s RSP - 8)"
      "sep (slot s) (regs s RSP - 16)" "sep (slot s) (gs s + 8)"
    using assms by (simp_all add: pre_sep_def Let_def)
  note seps' = seps seps [THEN sep_sym [THEN iffD1]]
  show ?thesis
    using seps' unfolding slot_def
    by (simp add: preamble_def read64_write64_sep)
qed

definition ret_sep :: "mstate \<Rightarrow> bool" where
  "ret_sep s \<longleftrightarrow> (let P = regs s RSP; U = slot s - 8 in
     sep (gs s + 8) (P - 8) \<and> sep (gs s + 8) P \<and> sep U (P - 8) \<and> sep U P \<and> sep U (gs s + 8))"

text \<open>The entry on top of the shadow stack.\<close>

definition saved :: "mstate \<Rightarrow> u64" where
  "saved s = read64 (mem s) (slot s - 8)"

definition ret_mem :: "gpr option \<Rightarrow> mstate \<Rightarrow> u64 \<Rightarrow> byte" where
  "ret_mem scavenged s = write64 (case scavenged of None \<Rightarrow> write64 (mem s) (regs s RSP - 8) (regs s R11) | Some _ \<Rightarrow> mem s)
     (gs s + 8) (slot s - 8)"

definition ret_regs :: "gpr option \<Rightarrow> mstate \<Rightarrow> gpr \<Rightarrow> u64" where
  "ret_regs scavenged s = (case scavenged of None \<Rightarrow> regs s | Some r \<Rightarrow> (regs s)(r := saved s))"

lemma exec_ret_code:
  assumes "ret_sep s" "scavenged \<noteq> Some RSP"
  shows "exec sem (ret_code BlindWrite scavenged t) s =
      Next (s\<lparr>zf := slot s - 8 = 0, regs := ret_regs scavenged s, mem := write64 (ret_mem scavenged s) (regs s RSP) (saved s)\<rparr>)"
    "exec sem (ret_code Trap scavenged t) s =
      (if read64 (mem s) (regs s RSP) = saved s
       then Next (s\<lparr>zf := True, regs := ret_regs scavenged s, mem := ret_mem scavenged s\<rparr>)
       else Jump t (s\<lparr>zf := False,
         regs := (regs s)(RSP := regs s RSP - (if scavenged = None then 8 else 0), (case scavenged of None \<Rightarrow> R11 | Some r \<Rightarrow> r) := saved s),
         mem := ret_mem scavenged s\<rparr>))"
proof -
  have seps: "sep (gs s + 8) (regs s RSP - 8)" "sep (gs s + 8) (regs s RSP)" "sep (slot s - 8) (regs s RSP - 8)"
      "sep (slot s - 8) (regs s RSP)" "sep (slot s - 8) (gs s + 8)"
    using assms(1) by (simp_all add: ret_sep_def Let_def)
  note seps' = seps seps [THEN sep_sym [THEN iffD1]]
  show "exec sem (ret_code BlindWrite scavenged t) s =
      Next (s\<lparr>zf := slot s - 8 = 0, regs := ret_regs scavenged s, mem := write64 (ret_mem scavenged s) (regs s RSP) (saved s)\<rparr>)"
    using seps' assms(2) unfolding slot_def saved_def
    by (cases scavenged) (simp_all add: ret_code_def ret_regs_def ret_mem_def slot_def saved_def Let_def read64_write64_sep)
  show "exec sem (ret_code Trap scavenged t) s =
      (if read64 (mem s) (regs s RSP) = saved s
       then Next (s\<lparr>zf := True, regs := ret_regs scavenged s, mem := ret_mem scavenged s\<rparr>)
       else Jump t (s\<lparr>zf := False,
         regs := (regs s)(RSP := regs s RSP - (if scavenged = None then 8 else 0), (case scavenged of None \<Rightarrow> R11 | Some r \<Rightarrow> r) := saved s),
         mem := ret_mem scavenged s\<rparr>))"
    using seps' assms(2) unfolding slot_def saved_def
    by (cases scavenged) (simp_all add: ret_code_def ret_regs_def ret_mem_def slot_def saved_def Let_def read64_write64_sep)
qed

subsection \<open>Calls\<close>

text \<open>A function of the program as a tree: opaque pieces of code (\<open>Do\<close>) and calls of other
  functions, each with the return address the call pushes, the size of its frame, the register
  scavenged at its return, and its body. The opaque pieces are the attacker's as much as the
  program's. They run to their end: a function without calls, which the pass leaves alone, is part
  of a piece. At the return the epilogue adds the size of the frame to the stack pointer; a piece
  that has moved it before stands for an epilogue that takes it from a corrupted frame pointer.\<close>

datatype act = Do "mstate \<Rightarrow> mstate" | Call u64 u64 "gpr option" "act list"

text \<open>The chunk of the shadow stack and a stack between \<open>stack_lo\<close> and \<open>stack_hi\<close>.\<close>

record layout =
  chunk :: u64
  chunk_len :: nat
  stack_lo :: nat
  stack_hi :: nat

definition layout_ok :: "layout \<Rightarrow> bool" where
  "layout_ok L \<longleftrightarrow> unat (chunk L) + chunk_len L < 2 ^ 64 \<and> stack_hi L < 2 ^ 64 \<and>
     (stack_hi L \<le> unat (chunk L) \<or> unat (chunk L) + chunk_len L \<le> stack_lo L)"

text \<open>Room for the return address and the two registers of the preamble on the stack and for one
  entry on the shadow stack; at a return, a stack pointer inside the stack.\<close>

definition room_in :: "layout \<Rightarrow> mstate \<Rightarrow> bool" where
  "room_in L s \<longleftrightarrow> stack_lo L + 24 \<le> unat (regs s RSP) \<and> unat (regs s RSP) \<le> stack_hi L \<and>
     unat (slot s) + 8 \<le> unat (chunk L) + chunk_len L"

definition room_out :: "layout \<Rightarrow> mstate \<Rightarrow> bool" where
  "room_out L s \<longleftrightarrow> stack_lo L + 8 \<le> unat (regs s RSP) \<and> unat (regs s RSP) + 8 \<le> stack_hi L"

text \<open>The emitted code checks neither: a run that calls or returns without room is
  \<open>Overrun\<close>, and what the code does from there on is not followed.\<close>

datatype outcome = Ok mstate | Hijacked u64 | Stopped | Overrun

fun run_act :: "layout \<Rightarrow> ViolationStrategy \<Rightarrow> act \<Rightarrow> mstate \<Rightarrow> outcome"
  and run_acts :: "layout \<Rightarrow> ViolationStrategy \<Rightarrow> act list \<Rightarrow> mstate \<Rightarrow> outcome" where
  "run_act L st (Do f) s = Ok (f s)"
| "run_act L st (Call ra frame sc body) s =
     (if \<not> room_in L s then Overrun
      else case exec (\<lambda>_ s. s) preamble (set_reg RSP (regs s RSP - 8) (store (regs s RSP - 8) ra s)) of
        Next s \<Rightarrow>
          (case run_acts L st body (set_reg RSP (regs s RSP - frame) s) of
             Ok s \<Rightarrow>
               (let s = set_reg RSP (regs s RSP + frame) s in
                if \<not> room_out L s then Overrun
                else case exec (\<lambda>_ s. s) (ret_code st sc 0 @ [RET64]) s of
                  Ret pc s \<Rightarrow> if pc = ra then Ok s else Hijacked pc
                | _ \<Rightarrow> Stopped)
           | r \<Rightarrow> r)
      | _ \<Rightarrow> Stopped)"
| "run_acts L st [] s = Ok s"
| "run_acts L st (a # as) s = (case run_act L st a s of Ok s \<Rightarrow> run_acts L st as s | r \<Rightarrow> r)"

text \<open>What a piece may do: anything to the registers, the stack pointer included, and to memory
  outside the chunk. It does not change the \<open>GS\<close> base.\<close>

definition tame :: "layout \<Rightarrow> (mstate \<Rightarrow> mstate) \<Rightarrow> bool" where
  "tame L f \<longleftrightarrow> (\<forall>s. gs (f s) = gs s \<and>
     (\<forall>x. unat (chunk L) \<le> unat x \<and> unat x < unat (chunk L) + chunk_len L \<longrightarrow> mem (f s) x = mem s x))"

fun tame_act :: "layout \<Rightarrow> act \<Rightarrow> bool" where
  "tame_act L (Do f) \<longleftrightarrow> tame L f"
| "tame_act L (Call ra frame sc body) \<longleftrightarrow> sc \<noteq> Some RSP \<and> list_all (tame_act L) body"

text \<open>The header of the chunk is in place.\<close>

definition based :: "layout \<Rightarrow> mstate \<Rightarrow> bool" where
  "based L s \<longleftrightarrow> layout_ok L \<and> gs s = chunk L \<and>
     unat (chunk L) + 16 \<le> unat (slot s) \<and> unat (slot s) \<le> unat (chunk L) + chunk_len L"

text \<open>The chunk's header and the entries in use are as before.\<close>

definition kept :: "mstate \<Rightarrow> mstate \<Rightarrow> bool" where
  "kept s s' \<longleftrightarrow> gs s' = gs s \<and> slot s' = slot s \<and>
     (\<forall>x. unat (gs s) + 16 \<le> unat x \<and> unat x < unat (slot s) \<longrightarrow> mem s' x = mem s x)"

lemma kept_refl [simp]: "kept s s"
  by (simp add: kept_def)

lemma kept_trans: "kept a b \<Longrightarrow> kept b c \<Longrightarrow> kept a c"
  by (simp add: kept_def)

lemma based_kept: "based L s \<Longrightarrow> kept s s' \<Longrightarrow> based L s'"
  by (simp add: based_def kept_def)

text \<open>Cells of the chunk and cells of the stack.\<close>

definition shadow_cell :: "layout \<Rightarrow> u64 \<Rightarrow> bool" where
  "shadow_cell L a \<longleftrightarrow> unat (chunk L) \<le> unat a \<and> unat a + 8 \<le> unat (chunk L) + chunk_len L"

definition stack_cell :: "layout \<Rightarrow> u64 \<Rightarrow> bool" where
  "stack_cell L a \<longleftrightarrow> stack_lo L \<le> unat a \<and> unat a + 8 \<le> stack_hi L"

lemma cells_sep:
  assumes "layout_ok L" "shadow_cell L a" "stack_cell L b"
  shows "sep a b" "sep b a"
proof -
  have "unat a + 8 \<le> unat b \<or> unat b + 8 \<le> unat a"
    using assms by (auto simp: layout_ok_def shadow_cell_def stack_cell_def)
  moreover have "unat a + 8 \<le> 2 ^ 64" "unat b + 8 \<le> 2 ^ 64"
    using assms by (auto simp: layout_ok_def shadow_cell_def stack_cell_def)
  ultimately show "sep a b" "sep b a" using sep_unat [of a b] sep_unat [of b a] by auto
qed

lemma stack_write_shadow:
  assumes "layout_ok L" "stack_cell L b" "unat (chunk L) \<le> unat x" "unat x < unat (chunk L) + chunk_len L"
  shows "write64 m b v x = m x"
  using assms by (intro write64_outside) (auto simp: layout_ok_def stack_cell_def)

lemma based_cells:
  assumes "based L s"
  shows "unat (gs s + 8) = unat (gs s) + 8" "shadow_cell L (gs s + 8)"
proof -
  show g: "unat (gs s + 8) = unat (gs s) + 8"
    using assms unat_plus_small [of "gs s" 8] by (auto simp: based_def layout_ok_def)
  then show "shadow_cell L (gs s + 8)" using assms by (auto simp: based_def shadow_cell_def)
qed

lemma stack_below:
  assumes "stack_lo L + n \<le> unat (regs s RSP)" "unat (regs s RSP) \<le> stack_hi L" "k \<le> n"
  shows "unat (regs s RSP - of_nat k) = unat (regs s RSP) - k"
    "8 \<le> k \<Longrightarrow> stack_cell L (regs s RSP - of_nat k)"
proof -
  show "unat (regs s RSP - of_nat k) = unat (regs s RSP) - k" using assms by (intro unat_minus_small) simp
  then show "8 \<le> k \<Longrightarrow> stack_cell L (regs s RSP - of_nat k)" using assms by (auto simp: stack_cell_def)
qed

lemma slot_next:
  assumes "based L s" "room_in L s"
  shows "unat (slot s + 8) = unat (slot s) + 8" "sep (slot s) (gs s + 8)" "shadow_cell L (slot s)"
proof -
  show "unat (slot s + 8) = unat (slot s) + 8"
    using assms unat_plus_small [of "slot s" 8] by (auto simp: based_def room_in_def layout_ok_def)
  show "sep (slot s) (gs s + 8)"
    using assms based_cells(1) [OF assms(1)] sep_unat [of "gs s + 8" "slot s"]
    by (auto simp: based_def room_in_def layout_ok_def)
  show "shadow_cell L (slot s)" using assms by (simp add: based_def room_in_def shadow_cell_def)
qed

lemma call_enter:
  assumes base: "based L s" and room: "room_in L s"
  shows "\<exists>s2. exec sem preamble (set_reg RSP (regs s RSP - 8) (store (regs s RSP - 8) ra s)) = Next s2 \<and>
    gs s2 = gs s \<and> regs s2 RSP = regs s RSP - 8 \<and> slot s2 = slot s + 8 \<and> saved s2 = ra \<and>
    (\<forall>x. unat (gs s) + 16 \<le> unat x \<and> unat x < unat (slot s) \<longrightarrow> mem s2 x = mem s x)"
proof -
  let ?P = "regs s RSP"
  let ?s1 = "set_reg RSP (?P - 8) (store (?P - 8) ra s)"
  have lay: "layout_ok L" and gs: "gs s = chunk L" using base by (simp_all add: based_def)
  have P: "stack_lo L + 24 \<le> unat ?P" "unat ?P \<le> stack_hi L" using room by (simp_all add: room_in_def)
  have sc: "stack_cell L (?P - 8)" "stack_cell L (?P - 16)" "stack_cell L (?P - 24)"
    using stack_below(2) [OF P, of 8] stack_below(2) [OF P, of 16] stack_below(2) [OF P, of 24] by simp_all
  note nx = slot_next [OF base room]
  note hd = based_cells(2) [OF base] nx(3)
  note sep = cells_sep [OF lay]
  have slot1: "slot ?s1 = slot s"
    using sep(1) [OF hd(1) sc(1)] by (simp add: slot_def read64_write64_sep)
  have "pre_sep ?s1"
    using sep(1) [OF hd(1) sc(2)] sep(1) [OF hd(1) sc(3)] sep(1) [OF hd(2) sc(2)] sep(1) [OF hd(2) sc(3)] nx(2)
    unfolding pre_sep_def slot1 by (simp add: Let_def)
  from exec_preamble [OF this, of sem, unfolded slot1]
  obtain s2 where run: "exec sem preamble ?s1 = Next s2"
      and s2: "gs s2 = gs s" "regs s2 RSP = ?P - 8"
        "mem s2 = write64 (write64 (write64 (write64 (write64 (mem s) (?P - 8) ra) (?P - 16) (regs s R11))
          (?P - 24) (regs s R10)) (slot s) ra) (gs s + 8) (slot s + 8)"
    by simp
  have slot2: "slot s2 = slot s + 8" by (simp add: slot_def s2)
  moreover have "saved s2 = ra"
    using nx(2) by (simp add: saved_def slot2 s2(3) read64_write64_sep)
  moreover have "mem s2 x = mem s x" if "unat (gs s) + 16 \<le> unat x" "unat x < unat (slot s)" for x
  proof -
    have x: "unat (chunk L) \<le> unat x" "unat x < unat (chunk L) + chunk_len L"
      using that base by (auto simp: based_def)
    note w = stack_write_shadow [OF lay _ x]
    have "unat (gs s + 8) + 8 \<le> unat x" using that based_cells(1) [OF base] by simp
    moreover have "unat (gs s + 8) + 8 \<le> 2 ^ 64" "unat (slot s) + 8 \<le> 2 ^ 64"
      using hd lay by (auto simp: shadow_cell_def layout_ok_def)
    ultimately show ?thesis
      unfolding s2(3) using that w [OF sc(1)] w [OF sc(2)] w [OF sc(3)] by (simp add: write64_outside)
  qed
  ultimately show ?thesis using run s2 by blast
qed

lemma call_leave:
  assumes base: "based L s" and room: "room_out L s" and used: "unat (gs s) + 24 \<le> unat (slot s)"
    and sc: "sc \<noteq> Some RSP"
  shows "\<exists>r. exec sem (ret_code st sc 0 @ [RET64]) s = r \<and>
    (if st = BlindWrite \<or> read64 (mem s) (regs s RSP) = saved s
     then \<exists>s'. r = Ret (saved s) s' \<and> gs s' = gs s \<and> regs s' RSP = regs s RSP + 8 \<and> slot s' = slot s - 8 \<and>
       (\<forall>x. unat (gs s) + 16 \<le> unat x \<and> unat x < unat (slot s) - 8 \<longrightarrow> mem s' x = mem s x)
     else \<exists>s'. r = Jump 0 s')"
proof -
  let ?P = "regs s RSP" and ?U = "slot s - 8"
  have lay: "layout_ok L" and gs: "gs s = chunk L" using base by (simp_all add: based_def)
  have P: "stack_lo L + 8 \<le> unat ?P" "unat ?P \<le> stack_hi L" using room by (simp_all add: room_out_def)
  have U: "unat ?U = unat (slot s) - 8" using used unat_minus_small [of 8 "slot s"] by simp
  have cells: "stack_cell L ?P" "stack_cell L (?P - 8)" "shadow_cell L (gs s + 8)" "shadow_cell L ?U"
    using room base used U gs stack_below(2) [OF P, of 8] based_cells(2) [OF base]
    by (auto simp: based_def room_out_def stack_cell_def shadow_cell_def)
  note sep = cells_sep [OF lay]
  have g8: "unat (gs s + 8) = unat (gs s) + 8" by (rule based_cells(1) [OF base])
  have top: "unat ?U + 8 \<le> 2 ^ 64" "unat (gs s + 8) + 8 \<le> 2 ^ 64"
    using cells(3,4) lay by (auto simp: shadow_cell_def layout_ok_def)
  then have "sep ?U (gs s + 8)" using used U g8 sep_unat [of "gs s + 8" ?U] by simp
  then have rs: "ret_sep s"
    unfolding ret_sep_def Let_def using sep(1) [OF cells(3,2)] sep(1) [OF cells(3,1)] sep(1) [OF cells(4,2)] sep(1) [OF cells(4,1)]
    by simp
  have regs: "ret_regs sc s RSP = ?P" using sc by (simp add: ret_regs_def split: option.split)
  have base': "read64 (ret_mem sc s) (gs s + 8) = ?U" by (simp add: ret_mem_def)
  have keep: "ret_mem sc s x = mem s x" "write64 (ret_mem sc s) ?P v x = mem s x"
    if "unat (gs s) + 16 \<le> unat x" "unat x < unat (slot s) - 8" for x v
  proof -
    have x: "unat (chunk L) \<le> unat x" "unat x < unat (chunk L) + chunk_len L"
      using that base by (auto simp: based_def)
    show r: "ret_mem sc s x = mem s x"
      using that g8 top stack_write_shadow [OF lay cells(2) x]
      by (simp add: ret_mem_def write64_outside split: option.split)
    show "write64 (ret_mem sc s) ?P v x = mem s x" using r stack_write_shadow [OF lay cells(1) x] by simp
  qed
  have retP: "read64 (ret_mem sc s) ?P = read64 (mem s) ?P"
    using sep(2) [OF cells(3,1)] by (simp add: ret_mem_def read64_write64_sep split: option.split)
  have slotP: "read64 (write64 (ret_mem sc s) ?P v) (gs s + 8) = ?U" for v
    using base' sep(1) [OF cells(3,1)] by (simp add: read64_write64_sep)
  show ?thesis
    using regs base' keep retP slotP
    by (cases st) (auto simp: exec_append exec_ret_code [OF rs sc] slot_def)
qed

lemma read64_kept:
  assumes "kept s s'" "unat (gs s) + 16 \<le> unat a" "unat a + 8 \<le> unat (slot s)"
  shows "read64 (mem s') a = read64 (mem s) a"
proof (rule read64_cong)
  fix i :: nat
  assume "i < 8"
  then have "unat (a + of_nat i) = unat a + i"
    using assms(3) u64_bound [of "slot s"] by (intro unat_plus_small) simp
  with assms \<open>i < 8\<close> show "mem s' (a + of_nat i) = mem s (a + of_nat i)" by (simp add: kept_def)
qed

lemma tame_kept:
  assumes "tame L f" "based L s"
  shows "kept s (f s)"
proof -
  have in_chunk: "mem (f s) x = mem s x" if "unat (chunk L) \<le> unat x" "unat x < unat (chunk L) + chunk_len L" for x
    using assms(1) that by (simp add: tame_def)
  have g: "gs (f s) = gs s" "gs s = chunk L" using assms by (simp_all add: tame_def based_def)
  have "read64 (mem (f s)) (gs s + 8) = read64 (mem s) (gs s + 8)"
  proof (rule read64_cong)
    fix i :: nat
    assume "i < 8"
    then have "unat (gs s + 8 + of_nat i) = unat (gs s) + 8 + i"
      using based_cells [OF assms(2)] assms(2) unat_plus_small [of "gs s + 8" i]
      by (auto simp: based_def layout_ok_def shadow_cell_def)
    with \<open>i < 8\<close> show "mem (f s) (gs s + 8 + of_nat i) = mem s (gs s + 8 + of_nat i)"
      using g assms(2) by (intro in_chunk) (auto simp: based_def)
  qed
  then have "slot (f s) = slot s" by (simp add: slot_def g)
  then show ?thesis
    using assms in_chunk by (auto simp: kept_def tame_def based_def)
qed

subsection \<open>No return is diverted\<close>

fun safe_outcome :: "ViolationStrategy \<Rightarrow> mstate \<Rightarrow> outcome \<Rightarrow> bool" where
  "safe_outcome st s (Ok s') \<longleftrightarrow> kept s s'"
| "safe_outcome st s (Hijacked pc) \<longleftrightarrow> False"
| "safe_outcome st s Stopped \<longleftrightarrow> st = Trap"
| "safe_outcome st s Overrun \<longleftrightarrow> True"

text \<open>A state \<open>t\<close> from which a call made in \<open>s\<close> may return: one more entry on the shadow
  stack, the return address.\<close>

definition returning :: "layout \<Rightarrow> mstate \<Rightarrow> u64 \<Rightarrow> mstate \<Rightarrow> bool" where
  "returning L s ra t \<longleftrightarrow> based L t \<and> gs t = gs s \<and> slot t = slot s + 8 \<and> unat (slot s + 8) = unat (slot s) + 8 \<and>
     unat (gs s) + 16 \<le> unat (slot s) \<and> saved t = ra \<and>
     (\<forall>x. unat (gs s) + 16 \<le> unat x \<and> unat x < unat (slot s) \<longrightarrow> mem t x = mem s x)"

lemma slot_set_reg [simp]: "slot (set_reg r v t) = slot t" "saved (set_reg r v t) = saved t"
  by (simp_all add: slot_def saved_def)

lemma based_set_reg [simp]: "based L (set_reg r v t) \<longleftrightarrow> based L t"
  by (simp add: based_def)

lemma call_body:
  assumes base: "based L s" and room: "room_in L s"
  shows "\<exists>s2. exec (\<lambda>_ s. s) preamble (set_reg RSP (regs s RSP - 8) (store (regs s RSP - 8) ra s)) = Next s2 \<and>
    regs s2 RSP = regs s RSP - 8 \<and> returning L s ra s2"
proof -
  obtain s2 where e: "exec (\<lambda>_ s. s) preamble (set_reg RSP (regs s RSP - 8) (store (regs s RSP - 8) ra s)) = Next s2"
      and s2: "gs s2 = gs s" "regs s2 RSP = regs s RSP - 8" "slot s2 = slot s + 8" "saved s2 = ra"
        "\<And>x. unat (gs s) + 16 \<le> unat x \<Longrightarrow> unat x < unat (slot s) \<Longrightarrow> mem s2 x = mem s x"
    using call_enter [OF base room, of "\<lambda>_ s. s" ra] by auto
  have "based L s2" "unat (gs s) + 16 \<le> unat (slot s)"
    using base room s2(1,3) slot_next(1) [OF base room] by (simp_all add: based_def room_in_def)
  then show ?thesis using e s2 slot_next(1) [OF base room] by (simp add: returning_def)
qed

lemma returning_kept:
  assumes r: "returning L s ra t" and k: "kept (set_reg RSP P t) t'"
  shows "returning L s ra t'"
proof -
  have t': "gs t' = gs t" "slot t' = slot t" "\<And>x. unat (gs t) + 16 \<le> unat x \<Longrightarrow> unat x < unat (slot t) \<Longrightarrow> mem t' x = mem t x"
    using k by (simp_all add: kept_def)
  have "slot t - 8 = slot s" using r by (simp add: returning_def)
  then have "saved t' = saved t"
    using read64_kept [OF k, of "slot s"] r t'(2) by (simp add: returning_def saved_def)
  moreover have "based L t'" using based_kept [OF _ k] r by (simp add: returning_def)
  ultimately show ?thesis using r t' by (simp add: returning_def)
qed

lemma returning_leave:
  assumes r: "returning L s ra t" and room: "room_out L t" and sc: "sc \<noteq> Some RSP"
  shows "(\<exists>s'. exec sem (ret_code st sc 0 @ [RET64]) t = Ret ra s' \<and> kept s s' \<and> regs s' RSP = regs t RSP + 8) \<or>
    st = Trap \<and> (\<exists>s'. exec sem (ret_code st sc 0 @ [RET64]) t = Jump 0 s')"
proof -
  have t: "based L t" "gs t = gs s" "slot t - 8 = slot s" "unat (slot t) - 8 = unat (slot s)" "saved t = ra"
      "unat (gs t) + 24 \<le> unat (slot t)"
    using r by (simp_all add: returning_def)
  from call_leave [OF t(1) room t(6) sc, of sem st] show ?thesis
    using r t ViolationStrategy.exhaust [of st] by (auto simp: kept_def returning_def split: if_splits)
qed

lemma call_safe:
  assumes base: "based L s" and sc: "sc \<noteq> Some RSP"
    and body: "\<And>s. based L s \<Longrightarrow> safe_outcome st s (run_acts L st body s)"
  shows "safe_outcome st s (run_act L st (Call ra frame sc body) s)"
proof (cases "room_in L s")
  case True
  obtain s2 where e: "exec (\<lambda>_ s. s) preamble (set_reg RSP (regs s RSP - 8) (store (regs s RSP - 8) ra s)) = Next s2"
      and r: "returning L s ra s2"
    using call_body [OF base True] by blast
  let ?b = "set_reg RSP (regs s2 RSP - frame) s2"
  have b: "safe_outcome st ?b (run_acts L st body ?b)" using r by (intro body) (simp add: returning_def)
  show ?thesis
  proof (cases "run_acts L st body ?b")
    case (Ok s3)
    let ?q = "set_reg RSP (regs s3 RSP + frame) s3"
    have "returning L s ra s3" using returning_kept [OF r] b Ok by simp
    then have q: "returning L s ra ?q" by (simp add: returning_def)
    show ?thesis
      using returning_leave [OF q _ sc, of "\<lambda>_ s. s" st] e Ok True by (cases "room_out L ?q") (auto simp: Let_def)
  qed (use b e True in simp_all)
qed simp

lemma run_acts_safe:
  assumes "\<And>a s. a \<in> set as \<Longrightarrow> based L s \<Longrightarrow> safe_outcome st s (run_act L st a s)" "based L s"
  shows "safe_outcome st s (run_acts L st as s)"
  using assms
proof (induction as arbitrary: s)
  case (Cons a as)
  have s: "safe_outcome st s (run_act L st a s)" using Cons.prems by simp
  show ?case
  proof (cases "run_act L st a s")
    case (Ok s')
    then have k: "kept s s'" using s by simp
    have "safe_outcome st s' (run_acts L st as s')"
      using Cons.prems based_kept [OF Cons.prems(2) k] by (intro Cons.IH) auto
    then show ?thesis using Ok kept_trans [OF k] by (cases "run_acts L st as s'") auto
  qed (use s in simp_all)
qed simp

lemma run_act_safe: "tame_act L a \<Longrightarrow> based L s \<Longrightarrow> safe_outcome st s (run_act L st a s)"
proof (induction a arbitrary: s)
  case (Do f)
  then show ?case using tame_kept by simp
next
  case (Call ra frame sc body)
  have "safe_outcome st s (run_acts L st body s)" if "based L s" for s
    using Call.IH Call.prems(1) that by (intro run_acts_safe) (auto simp: list_all_iff)
  then show ?case using Call.prems by (intro call_safe) auto
qed

subsection \<open>Enough room\<close>

text \<open>The bytes of the two stacks an action needs when its pieces leave the stack pointer as they
  found it.\<close>

fun stack_need :: "act \<Rightarrow> nat" where
  "stack_need (Do f) = 0"
| "stack_need (Call ra frame sc body) = 8 + max 16 (unat frame + fold max (map stack_need body) 0)"

fun shadow_need :: "act \<Rightarrow> nat" where
  "shadow_need (Do f) = 0"
| "shadow_need (Call ra frame sc body) = 8 + fold max (map shadow_need body) 0"

definition ready :: "layout \<Rightarrow> nat \<Rightarrow> nat \<Rightarrow> mstate \<Rightarrow> bool" where
  "ready L need sneed s \<longleftrightarrow> based L s \<and> unat (slot s) + sneed \<le> unat (chunk L) + chunk_len L \<and>
     stack_lo L + need \<le> unat (regs s RSP) \<and> unat (regs s RSP) \<le> stack_hi L"

fun steady_act :: "act \<Rightarrow> bool" where
  "steady_act (Do f) \<longleftrightarrow> (\<forall>s. regs (f s) RSP = regs s RSP)"
| "steady_act (Call ra frame sc body) \<longleftrightarrow> list_all steady_act body"

fun within :: "mstate \<Rightarrow> outcome \<Rightarrow> bool" where
  "within s (Ok s') \<longleftrightarrow> regs s' RSP = regs s RSP"
| "within s Overrun \<longleftrightarrow> False"
| "within s _ \<longleftrightarrow> True"

lemma ready_less: "ready L n m s \<Longrightarrow> n' \<le> n \<Longrightarrow> m' \<le> m \<Longrightarrow> ready L n' m' s"
  by (simp add: ready_def)

lemma ready_kept: "ready L n m s \<Longrightarrow> kept s s' \<Longrightarrow> regs s' RSP = regs s RSP \<Longrightarrow> ready L n m s'"
  using based_kept [of L s s'] by (simp add: ready_def) (simp add: kept_def)

lemma call_within:
  assumes rdy: "ready L (8 + max 16 (unat frame + N)) (8 + M) s" and sc: "sc \<noteq> Some RSP"
    and body: "\<And>s. ready L N M s \<Longrightarrow> safe_outcome st s (run_acts L st body s) \<and> within s (run_acts L st body s)"
  shows "within s (run_act L st (Call ra frame sc body) s)"
proof -
  let ?P = "regs s RSP"
  have base: "based L s" and room: "room_in L s" using rdy unfolding ready_def room_in_def by auto
  have P: "stack_lo L + 24 \<le> unat ?P" "unat ?P \<le> stack_hi L" "stack_lo L + 8 + (unat frame + N) \<le> unat ?P"
    using rdy unfolding ready_def by linarith+
  obtain s2 where e: "exec (\<lambda>_ s. s) preamble (set_reg RSP (?P - 8) (store (?P - 8) ra s)) = Next s2"
      and P2: "regs s2 RSP = ?P - 8" and r: "returning L s ra s2"
    using call_body [OF base room] by blast
  let ?b = "set_reg RSP (regs s2 RSP - frame) s2"
  have P8: "unat (?P - 8) = unat ?P - 8" using stack_below(1) [OF P(1,2), of 8] by simp
  then have PF: "unat (?P - 8 - frame) = unat ?P - 8 - unat frame" using P by (simp add: unat_sub_if')
  have "ready L N M ?b"
    using rdy r P P2 PF unfolding ready_def returning_def by auto
  note b = body [OF this]
  show ?thesis
  proof (cases "run_acts L st body ?b")
    case (Ok s3)
    let ?q = "set_reg RSP (regs s3 RSP + frame) s3"
    have k: "kept ?b s3" and P3: "regs s3 RSP + frame = ?P - 8" using b Ok P2 by auto
    have q: "returning L s ra ?q" using returning_kept [OF r k] by (simp add: returning_def)
    have ro: "room_out L ?q" using P P3 P8 by (auto simp: room_out_def)
    show ?thesis using returning_leave [OF q ro sc, of "\<lambda>_ s. s" st] e Ok room ro P3 by (auto simp: Let_def)
  qed (use b e room in auto)
qed

lemma run_acts_within:
  assumes "\<And>a s. a \<in> set as \<Longrightarrow> ready L (stack_need a) (shadow_need a) s \<Longrightarrow> within s (run_act L st a s)"
    "\<forall>a \<in> set as. tame_act L a \<and> stack_need a \<le> N \<and> shadow_need a \<le> M" "ready L N M s"
  shows "within s (run_acts L st as s)"
  using assms
proof (induction as arbitrary: s)
  case (Cons a as)
  have w: "within s (run_act L st a s)" using Cons.prems by (auto intro: ready_less)
  have "safe_outcome st s (run_act L st a s)" using Cons.prems by (intro run_act_safe) (auto simp: ready_def)
  with w show ?case
  proof (cases "run_act L st a s")
    case (Ok s')
    then have s': "kept s s'" "regs s' RSP = regs s RSP" using w \<open>safe_outcome st s (run_act L st a s)\<close> by auto
    have "within s' (run_acts L st as s')"
      using Cons.prems ready_kept [OF Cons.prems(3) s'] by (intro Cons.IH) auto
    then show ?thesis using Ok s'(2) by (cases "run_acts L st as s'") auto
  qed simp_all
qed simp

lemma run_act_within:
  "tame_act L a \<Longrightarrow> steady_act a \<Longrightarrow> ready L (stack_need a) (shadow_need a) s \<Longrightarrow> within s (run_act L st a s)"
proof (induction a arbitrary: s)
  case (Call ra frame sc body)
  let ?N = "fold max (map stack_need body) 0" and ?M = "fold max (map shadow_need body) 0"
  have "within s (run_acts L st body s)" if "ready L ?N ?M s" for s
    using Call.IH Call.prems(1,2) that fold_max_ge(2) [of _ "map stack_need body" 0] fold_max_ge(2) [of _ "map shadow_need body" 0]
    by (intro run_acts_within [of body L st ?N ?M]) (auto simp: list_all_iff)
  moreover have "safe_outcome st s (run_acts L st body s)" if "ready L ?N ?M s" for s
    using Call.prems(1) that run_act_safe by (intro run_acts_safe) (auto simp: list_all_iff ready_def)
  ultimately show ?case
    using Call.prems by (intro call_within [of L frame ?N ?M]) auto
qed simp

text \<open>C3: no return of an instrumented function is diverted. The program's pieces may do anything
  to the registers, the stack pointer included, and to memory outside the shadow stack, the saved
  return addresses on the ordinary stack included; they do not change the \<open>GS\<close> base. Then a
  call tree ends in one of three ways: every function has returned to the address its caller
  pushed and the shadow stack is as before; with the strategy \<open>Trap\<close>, it has stopped at the
  trap; or a function was called or returned with the stack pointer outside the stack or, when
  called, without room on the shadow stack, which the emitted code does not check. The last is
  excluded for pieces that keep the stack pointer when both stacks have the room the tree needs.\<close>

theorem calls_return_home:
  assumes "tame_act L a" and "based L s"
  shows "(case run_act L st a s of
       Ok s' \<Rightarrow> kept s s'
     | Hijacked pc \<Rightarrow> False
     | Stopped \<Rightarrow> st = Trap
     | Overrun \<Rightarrow> \<not> (steady_act a \<and> ready L (stack_need a) (shadow_need a) s))"
  using run_act_safe [OF assms, of st] run_act_within [OF assms(1), of s st]
  by (cases "run_act L st a s") auto

text \<open>An attack: while the function runs, its return address on the stack is overwritten, and the
  stack pointer is moved before it returns.\<close>

definition demo_layout :: layout where
  "demo_layout = \<lparr>chunk = 0x7f0000000000, chunk_len = 0x100000, stack_lo = 0x7ffe00000000, stack_hi = 0x7ffe00010000\<rparr>"

definition smash :: "mstate \<Rightarrow> mstate" where
  "smash s = store 0x7ffe0000fff8 0xdeadbeef s"

definition pivot :: "mstate \<Rightarrow> mstate" where
  "pivot s = set_reg RSP (regs s RSP - 0x100) s"

definition victim :: mstate where
  "victim = \<lparr>regs = (\<lambda>_. 0)(RSP := 0x7ffe00010000), mem = write64 (\<lambda>_. 0) 0x7f0000000008 0x7f0000000010,
     gs = 0x7f0000000000, zf = False\<rparr>"

theorem calls_return_home_witness:
  "(case run_act demo_layout BlindWrite (Call 0x401000 0x20 None [Do smash, Call 0x401100 0 (Some RAX) [], Do pivot]) victim of
      Ok s' \<Rightarrow> kept victim s' | Overrun \<Rightarrow> True | _ \<Rightarrow> False) \<and>
   (\<exists>s'. run_act demo_layout BlindWrite (Call 0x401000 0x20 None [Do smash, Call 0x401100 0 (Some RAX) []]) victim = Ok s' \<and>
      kept victim s')"
proof -
  let ?a = "Call 0x401000 0x20 None [Do smash, Call 0x401100 0 (Some RAX) [], Do pivot]"
  let ?b = "Call 0x401000 0x20 None [Do smash, Call 0x401100 0 (Some RAX) []]"
  have "tame demo_layout smash" "tame demo_layout pivot"
    by (auto simp: tame_def smash_def pivot_def demo_layout_def write64_outside)
  then have t: "tame_act demo_layout ?a" "tame_act demo_layout ?b" "steady_act ?b" by (simp_all add: smash_def)
  have b: "based demo_layout victim"
    by (simp add: based_def layout_ok_def demo_layout_def victim_def slot_def)
  moreover have "ready demo_layout (stack_need ?b) (shadow_need ?b) victim"
    using b by (simp add: ready_def demo_layout_def victim_def slot_def)
  ultimately show ?thesis
    using calls_return_home [OF t(1) b, of BlindWrite] calls_return_home [OF t(2) b, of BlindWrite] t(3)
    by (auto simp del: run_act.simps split: outcome.splits)
qed

text \<open>The preamble has no bound: with the shadow stack full it writes the return address to the
  eight bytes after the chunk, which belong to the neighbour.\<close>

lemma preamble_overruns:
  assumes "pre_sep s" "slot s = chunk L + of_nat (chunk_len L)"
  shows "\<exists>s'. exec sem preamble s = Next s' \<and>
    read64 (mem s') (chunk L + of_nat (chunk_len L)) = read64 (mem s) (regs s RSP)"
  using assms(1) exec_preamble [OF assms(1), of sem] assms(2)
  by (auto simp: pre_sep_def Let_def read64_write64_sep)

subsection \<open>Every return is guarded\<close>

definition guarded :: "ViolationStrategy \<Rightarrow> nat \<Rightarrow> minstr list \<Rightarrow> bool" where
  "guarded st n b \<longleftrightarrow> (\<forall>xs I ys. b = xs @ I # ys \<and> isReturn I \<longrightarrow>
     (\<exists>pre sc t. xs = pre @ ret_code st sc t \<and> (st = Trap \<longrightarrow> t = n)))"

lemma ret_code_plain: "\<not> list_ex isReturn (ret_code st sc t)"
  by (cases st; cases sc) (auto simp: ret_code_def Let_def)

lemma guarded_Cons: "guarded st n b \<Longrightarrow> \<not> isReturn I \<Longrightarrow> guarded st n (I # b)"
  unfolding guarded_def
proof (intro allI impI)
  fix xs J ys
  assume g: "\<forall>xs I ys. b = xs @ I # ys \<and> isReturn I \<longrightarrow> (\<exists>pre sc t. xs = pre @ ret_code st sc t \<and> (st = Trap \<longrightarrow> t = n))"
    and I: "\<not> isReturn I" and h: "I # b = xs @ J # ys \<and> isReturn J"
  then obtain vs where "xs = I # vs" "b = vs @ J # ys" by (cases xs) auto
  then show "\<exists>pre sc t. xs = pre @ ret_code st sc t \<and> (st = Trap \<longrightarrow> t = n)"
    using g h by (metis append_Cons)
qed

lemma guarded_code:
  assumes "guarded st n b" "st = Trap \<Longrightarrow> t = n"
  shows "guarded st n (ret_code st sc t @ I # b)"
  unfolding guarded_def
proof (intro allI impI)
  fix xs J ys
  assume h: "ret_code st sc t @ I # b = xs @ J # ys \<and> isReturn J"
  show "\<exists>pre sc t. xs = pre @ ret_code st sc t \<and> (st = Trap \<longrightarrow> t = n)"
  proof (cases "length xs < length (ret_code st sc t)")
    case True
    then have "J \<in> set (ret_code st sc t)"
      using h by (metis nth_append nth_append_length nth_mem)
    then show ?thesis using h ret_code_plain by (auto simp: list_ex_iff)
  next
    case False
    then obtain us where us: "xs = ret_code st sc t @ us" "I # b = us @ J # ys"
      using h by (auto simp: append_eq_append_conv2)
    show ?thesis
    proof (cases us)
      case Nil
      then show ?thesis using us(1) assms(2) by (intro exI [of _ "[]"] exI [of _ sc] exI [of _ t]) auto
    next
      case (Cons u vs)
      then have "b = vs @ J # ys" using us(2) by simp
      then obtain pre sc' t' where "vs = pre @ ret_code st sc' t'" "st = Trap \<longrightarrow> t' = n"
        using assms(1) h unfolding guarded_def by blast
      then show ?thesis using us(1) Cons by (intro exI [of _ "ret_code st sc t @ u # pre"]) auto
    qed
  qed
qed

lemma block_loop_guarded:
  assumes "guarded st n after" "T = None \<or> T = Some n" "block_loop st scav n before after T = (b, T')"
  shows "guarded st n b \<and> (T' = None \<or> T' = Some n) \<and> (T \<noteq> None \<longrightarrow> T' \<noteq> None) \<and>
    (st = Trap \<and> list_ex isReturn b \<and> \<not> list_ex isReturn after \<longrightarrow> T' = Some n)"
  using assms
proof (induction before arbitrary: after T)
  case (Cons I before)
  show ?case
  proof (cases "isReturn I")
    case False
    with Cons.prems Cons.IH [of "I # after" T] guarded_Cons [of st n after I] show ?thesis by auto
  next
    case True
    obtain code T1 where c: "instrumentRet st (scav (length before)) n T = (code, T1)" by fastforce
    obtain t where t: "code = ret_code st (scav (length before)) t" "st = Trap \<Longrightarrow> t = n"
        "T1 = None \<or> T1 = Some n" "st = Trap \<Longrightarrow> T1 = Some n" "T \<noteq> None \<Longrightarrow> T1 \<noteq> None"
      using c Cons.prems(2) by (cases st) (auto simp: instrumentRet_def getOrCreateTrapBB_def)
    have g: "guarded st n (code @ I # after)" using guarded_code [OF Cons.prems(1) t(2)] t(1) by simp
    have "block_loop st scav n before (code @ I # after) T1 = (b, T')"
      using Cons.prems(3) True c by simp
    from Cons.IH [OF g t(3) this] show ?thesis using t(4,5) by auto
  qed
qed auto

lemma blocks_loop_guarded:
  assumes "T = None \<or> T = Some n" "blocks_loop st scav n i bs T = (bs', T')"
  shows "length bs' = length bs \<and> (T' = None \<or> T' = Some n) \<and> (T \<noteq> None \<longrightarrow> T' \<noteq> None) \<and>
    (\<forall>b \<in> set bs'. guarded st n b \<and> (st = Trap \<and> list_ex isReturn b \<longrightarrow> T' = Some n))"
  using assms
proof (induction bs arbitrary: i T bs')
  case (Cons b bs)
  obtain c T1 where c: "block_loop st (scav i) n (rev b) [] T = (c, T1)" by fastforce
  have "guarded st n []" by (simp add: guarded_def)
  note g = block_loop_guarded [OF this Cons.prems(1) c]
  obtain cs where cs: "blocks_loop st scav n (Suc i) bs T1 = (cs, T')" "bs' = c # cs"
    using Cons.prems(2) c by (auto split: prod.splits)
  from g have "T1 = None \<or> T1 = Some n" by blast
  from Cons.IH [OF this cs(1)] g cs(2) show ?case by auto
qed simp

lemma block_loop_plain:
  "\<not> list_ex isReturn before \<Longrightarrow> block_loop st scav n before after T = (rev before @ after, T)"
  by (induction before arbitrary: after) auto

lemma block_loop_append:
  "\<exists>after' T'. block_loop st scav n (xs @ ys) after T = block_loop st scav n ys after' T'"
proof (induction xs arbitrary: after T)
  case Nil
  show ?case by auto
next
  case (Cons x xs)
  show ?case
    using Cons.IH by (cases "isReturn x") (auto simp: Let_def split: prod.split)
qed

lemma block_loop_prefix:
  assumes "\<not> list_ex isReturn p" "block_loop st scav n (rev (p @ q)) [] T = (b, T')"
  shows "\<exists>rest. b = p @ rest"
proof -
  obtain after' T1 where "block_loop st scav n (rev q @ rev p) [] T = block_loop st scav n (rev p) after' T1"
    using block_loop_append by blast
  also have "\<dots> = (p @ after', T1)"
    using assms(1) by (subst block_loop_plain) (simp_all add: list_ex_iff)
  finally show ?thesis using assms(2) by auto
qed

lemma entry_plain: "\<not> list_ex isReturn (takeWhile isMeta b @ preamble)"
  by (auto simp: list_ex_iff preamble_def dest!: set_takeWhileD elim!: isMeta.elims)

text \<open>C20: the pass leaves a function without calls alone. In any other, the code saving the
  return address comes before every instruction of the entry block that is not a meta instruction,
  and every return and tail jump of every block comes right after the code checking or restoring
  the return address, whose branch, with the \<open>Trap\<close> strategy, leads to a block that traps.\<close>

theorem pass_guards_returns:
  assumes "runOnMachineFunction st scav MF = (changed, MF')" and "blocks MF = b0 # bs0"
  shows "if hasCalls MF
    then changed \<and> (\<exists>rest. hd (blocks MF') = takeWhile isMeta b0 @ preamble @ rest) \<and>
      (\<forall>b \<in> set (blocks MF'). \<forall>xs I ys. b = xs @ I # ys \<and> isReturn I \<longrightarrow>
         (\<exists>pre sc t. xs = pre @ ret_code st sc t \<and>
            (st = Trap \<longrightarrow> t < length (blocks MF') \<and> blocks MF' ! t = [TRAP])))
    else \<not> changed \<and> MF' = MF"
proof (cases "hasCalls MF")
  case False
  then show ?thesis using assms(1) by (simp add: runOnMachineFunction_def)
next
  case True
  let ?b = "takeWhile isMeta b0 @ preamble @ dropWhile isMeta b0" and ?n = "Suc (length bs0)"
  obtain bs T where l: "blocks_loop st scav ?n 0 (?b # bs0) None = (bs, T)" by fastforce
  have out: "changed" "blocks MF' = bs @ (case T of Some _ \<Rightarrow> [[TRAP]] | None \<Rightarrow> [])"
    using assms True l by (auto simp: runOnMachineFunction_def instrumentPreamble_def Let_def)
  note g = blocks_loop_guarded [OF _ l]
  have "\<exists>rest. hd bs = takeWhile isMeta b0 @ preamble @ rest"
  proof -
    obtain c T1 where c: "block_loop st (scav 0) ?n (rev ?b) [] None = (c, T1)" by fastforce
    then have "hd bs = c" using l by (auto split: prod.splits)
    moreover obtain rest where "c = (takeWhile isMeta b0 @ preamble) @ rest"
      using block_loop_prefix [OF entry_plain, of st "scav 0" ?n b0 "dropWhile isMeta b0" None c T1] c by auto
    ultimately show ?thesis by simp
  qed
  moreover have "bs \<noteq> []" using g by auto
  ultimately have entry: "\<exists>rest. hd (blocks MF') = takeWhile isMeta b0 @ preamble @ rest"
    using out(2) by simp
  have "\<exists>pre sc t. xs = pre @ ret_code st sc t \<and> (st = Trap \<longrightarrow> t < length (blocks MF') \<and> blocks MF' ! t = [TRAP])"
    if b: "b \<in> set (blocks MF')" "b = xs @ I # ys" "isReturn I" for b xs I ys
  proof -
    have "b \<in> set bs" using b out(2) by (cases T) (auto simp: append_eq_Cons_conv)
    then have gb: "guarded st ?n b" "st = Trap \<longrightarrow> T = Some ?n"
      using g b(2,3) by (auto simp: list_ex_iff)
    then obtain pre sc t where p: "xs = pre @ ret_code st sc t" "st = Trap \<longrightarrow> t = ?n"
      using b(2,3) unfolding guarded_def by blast
    have "st = Trap \<longrightarrow> t < length (blocks MF') \<and> blocks MF' ! t = [TRAP]"
      using p(2) gb(2) out(2) g by (auto simp: nth_append)
    then show ?thesis using p(1) by blast
  qed
  then show ?thesis using True out(1) entry by auto
qed

definition demo_mf :: machine_function where
  "demo_mf = \<lparr>hasCalls = True, blocks = [[META 0, OTHER 1, RET64], [OTHER 2, TAILJMP 7]]\<rparr>"

theorem pass_guards_returns_witness:
  "\<exists>rest. hd (blocks (snd (runOnMachineFunction Trap (\<lambda>_ _. Some RCX) demo_mf))) = [META 0] @ preamble @ rest"
  using pass_guards_returns [of Trap "\<lambda>_ _. Some RCX" demo_mf True
      "snd (runOnMachineFunction Trap (\<lambda>_ _. Some RCX) demo_mf)" "[META 0, OTHER 1, RET64]" "[[OTHER 2, TAILJMP 7]]"]
  by (auto simp: demo_mf_def runOnMachineFunction_def instrumentPreamble_def Let_def split: prod.splits)

end
