(* ===== verification/Store_Mask.thy ===== *)
theory Store_Mask
  imports SS_Prelude
begin

unbundle bit_operations_syntax

text \<open>
  The LLVM pass \<^verbatim>\<open>shadow_stack/ShadowStack.cpp\<close>: it clears the upper bits of the address of
  every store, so that no store of the program can reach the kernel half of the address space
  where the module keeps the shadow stacks, and skips the mask where one of three analyses shows
  it to be redundant.

  A function is a control-flow graph whose nodes are instructions in SSA form; a node defines a
  value from the values so far (an opaque function of them), stores through a pointer value, or
  does neither. The results of LLVM's analyses are parameters: the bits known to be zero
  (\<open>computeKnownBits\<close>), the largest value of the range of scalar evolution, and the
  dominator tree.
\<close>

definition MASK :: u64 where "MASK = 0x7fffffffffff"

subsection \<open>Functions\<close>

type_synonym node = nat

text \<open>Values: those of the function, and those the pass creates in front of the store \<open>n\<close>;
  the mask of a constant is folded into a constant expression.\<close>

datatype val = V nat | Ptr_int node | Masked_int node | Masked_ptr node | Masked_const nat

type_synonym env = "val \<Rightarrow> u64"

datatype inst = Def nat "env \<Rightarrow> u64" | Store nat bool | Skip

datatype new_inst = PtrToInt val val | And val val u64 | IntToPtr val val

record func =
  isDeclaration :: bool
  entry :: node
  code :: "node \<Rightarrow> inst"
  succs :: "node \<Rightarrow> node list"
  block_order :: "node list"
  is_const :: "nat \<Rightarrow> bool"

record analyses =
  known_zero :: "nat \<Rightarrow> u64"
  unsigned_max :: "nat \<Rightarrow> u64"
  dominates :: "node \<Rightarrow> node \<Rightarrow> bool"

record build_opts =
  KNOWNBITS_OPT :: bool
  SCEV_OPT :: bool
  DOMTREE_OPT :: bool

text \<open>What the pass has done so far: the instructions inserted in front of a node, the pointer
  operand of a store, and the map from pointers to their masked versions.\<close>

record pass_state =
  inserted :: "node \<Rightarrow> new_inst list"
  operand :: "node \<Rightarrow> val option"
  MaskedPtrs :: "nat \<Rightarrow> val option"

subsection \<open>The pass\<close>

definition knownBitsOpt :: "analyses \<Rightarrow> nat \<Rightarrow> bool" where
  "knownBitsOpt A p = (let BitsToClear = NOT MASK in known_zero A p AND BitsToClear = BitsToClear)"

definition scalarEvolutionOpt :: "analyses \<Rightarrow> nat \<Rightarrow> bool" where
  "scalarEvolutionOpt A p = (unsigned_max A p AND NOT MASK = 0)"

text \<open>A masked pointer that is not an instruction is a constant.\<close>

definition domTreeOpt :: "analyses \<Rightarrow> node \<Rightarrow> nat \<Rightarrow> pass_state \<Rightarrow> pass_state option" where
  "domTreeOpt A n p st =
     (case MaskedPtrs st p of
        None \<Rightarrow> None
      | Some prev \<Rightarrow>
          if (case prev of Masked_ptr m \<Rightarrow> dominates A m n | _ \<Rightarrow> True)
          then Some (st\<lparr>operand := (operand st)(n \<mapsto> prev)\<rparr>) else None)"

definition mask_store :: "func \<Rightarrow> node \<Rightarrow> nat \<Rightarrow> pass_state \<Rightarrow> pass_state" where
  "mask_store F n p st =
     (if is_const F p
      then st\<lparr>operand := (operand st)(n \<mapsto> Masked_const p), MaskedPtrs := (MaskedPtrs st)(p \<mapsto> Masked_const p)\<rparr>
      else st\<lparr>inserted := (inserted st)(n := inserted st n @
                 [PtrToInt (Ptr_int n) (V p), And (Masked_int n) (Ptr_int n) MASK, IntToPtr (Masked_ptr n) (Masked_int n)]),
              operand := (operand st)(n \<mapsto> Masked_ptr n), MaskedPtrs := (MaskedPtrs st)(p \<mapsto> Masked_ptr n)\<rparr>)"

definition instrumentStore :: "build_opts \<Rightarrow> analyses \<Rightarrow> func \<Rightarrow> node \<Rightarrow> nat \<Rightarrow> pass_state \<Rightarrow> pass_state" where
  "instrumentStore B A F n p st =
     (if KNOWNBITS_OPT B \<and> knownBitsOpt A p then st
      else if SCEV_OPT B \<and> scalarEvolutionOpt A p then st
      else case (if DOMTREE_OPT B then domTreeOpt A n p st else None) of
             Some st \<Rightarrow> st
           | None \<Rightarrow> mask_store F n p st)"

text \<open>The stores are collected in the order of the blocks, those with the metadata
  \<open>m-ignore\<close> left out. Only store instructions are collected: atomic read-modify-write instructions,
  the memory intrinsics and what the code generator adds later also write to memory, and the pass
  does not touch them.\<close>

definition Stores :: "func \<Rightarrow> (node \<times> nat) list" where
  "Stores F = List.map_filter (\<lambda>n. case code F n of Store p ign \<Rightarrow> if ign then None else Some (n, p) | _ \<Rightarrow> None)
     (block_order F)"

definition untouched :: pass_state where
  "untouched = \<lparr>inserted = (\<lambda>_. []), operand = (\<lambda>_. None), MaskedPtrs = (\<lambda>_. None)\<rparr>"

definition instrumentStores :: "build_opts \<Rightarrow> analyses \<Rightarrow> func \<Rightarrow> pass_state" where
  "instrumentStores B A F = fold (\<lambda>(n, p). instrumentStore B A F n p) (Stores F) untouched"

definition run :: "bool \<Rightarrow> build_opts \<Rightarrow> analyses \<Rightarrow> func \<Rightarrow> pass_state" where
  "run instrument B A F =
     (if isDeclaration F then untouched
      else if instrument then instrumentStores B A F else untouched)"

subsection \<open>Execution\<close>

fun eval :: "env \<Rightarrow> val \<Rightarrow> u64" where
  "eval e (Masked_const p) = e (V p) AND MASK"
| "eval e v = e v"

fun exec_new :: "new_inst \<Rightarrow> env \<Rightarrow> env" where
  "exec_new (PtrToInt d v) e = e(d := eval e v)"
| "exec_new (And d v m) e = e(d := eval e v AND m)"
| "exec_new (IntToPtr d v) e = e(d := eval e v)"

definition enter :: "pass_state \<Rightarrow> node \<Rightarrow> env \<Rightarrow> env" where
  "enter st n e = fold exec_new (inserted st n) e"

definition exec_node :: "func \<Rightarrow> pass_state \<Rightarrow> node \<Rightarrow> env \<Rightarrow> env" where
  "exec_node F st n e =
     (let e = enter st n e in case code F n of Def v f \<Rightarrow> e(V v := f (\<lambda>w. e w)) | _ \<Rightarrow> e)"

definition exec_path :: "func \<Rightarrow> pass_state \<Rightarrow> node list \<Rightarrow> env \<Rightarrow> env" where
  "exec_path F st ns e = fold (exec_node F st) ns e"

text \<open>The address a store writes to when control reaches it with the values \<open>e\<close>.\<close>

definition store_addr :: "func \<Rightarrow> pass_state \<Rightarrow> node \<Rightarrow> env \<Rightarrow> u64" where
  "store_addr F st n e =
     (case operand st n of
        Some v \<Rightarrow> eval (enter st n e) v
      | None \<Rightarrow> (case code F n of Store p _ \<Rightarrow> e (V p) | _ \<Rightarrow> 0))"

definition path :: "func \<Rightarrow> node list \<Rightarrow> bool" where
  "path F ns \<longleftrightarrow> ns \<noteq> [] \<and> hd ns = entry F \<and> successively (\<lambda>a b. b \<in> set (succs F a)) ns"

subsection \<open>What the pass leaves at every store\<close>

definition mask_code :: "node \<Rightarrow> nat \<Rightarrow> new_inst list" where
  "mask_code n p =
     [PtrToInt (Ptr_int n) (V p), And (Masked_int n) (Ptr_int n) MASK, IntToPtr (Masked_ptr n) (Masked_int n)]"

definition store_ok :: "analyses \<Rightarrow> func \<Rightarrow> pass_state \<Rightarrow> node \<Rightarrow> nat \<Rightarrow> bool" where
  "store_ok A F st n p \<longleftrightarrow>
     (case operand st n of
        None \<Rightarrow> inserted st n = [] \<and> (knownBitsOpt A p \<or> scalarEvolutionOpt A p)
      | Some (Masked_const q) \<Rightarrow> q = p \<and> inserted st n = []
      | Some (Masked_ptr m) \<Rightarrow> (m, p) \<in> set (Stores F) \<and> inserted st m = mask_code m p \<and>
          (if m = n then True else dominates A m n \<and> inserted st n = [])
      | _ \<Rightarrow> False)"

definition pass_inv :: "analyses \<Rightarrow> func \<Rightarrow> (node \<times> nat) list \<Rightarrow> pass_state \<Rightarrow> bool" where
  "pass_inv A F done st \<longleftrightarrow> (\<forall>(n, p) \<in> set done. store_ok A F st n p) \<and>
     (\<forall>n. n \<notin> fst ` set done \<longrightarrow> inserted st n = [] \<and> operand st n = None) \<and>
     (\<forall>p v. MaskedPtrs st p = Some v \<longrightarrow>
        v = Masked_const p \<or> (\<exists>m. v = Masked_ptr m \<and> (m, p) \<in> set done \<and> inserted st m = mask_code m p))"

lemma pass_inv_start: "pass_inv A F [] untouched"
  by (simp add: pass_inv_def untouched_def)

lemma store_ok_other:
  assumes "store_ok A F st n p" "inserted st' = (inserted st)(k := x)" "operand st' = (operand st)(k := y)" "k \<noteq> n"
    "inserted st k = [] \<or> x = inserted st k"
  shows "store_ok A F st' n p"
  using assms by (auto simp: store_ok_def mask_code_def split: option.splits val.splits)

lemma domTreeOpt_cases:
  "domTreeOpt A n p st = None \<or>
    (\<exists>v. domTreeOpt A n p st = Some (st\<lparr>operand := (operand st)(n \<mapsto> v)\<rparr>) \<and> MaskedPtrs st p = Some v \<and>
      (case v of Masked_ptr m \<Rightarrow> dominates A m n | _ \<Rightarrow> True))"
  by (cases "MaskedPtrs st p") (auto simp: domTreeOpt_def)

lemma instrumentStore_inv:
  assumes inv: "pass_inv A F done st" and new: "n \<notin> fst ` set done" "(n, p) \<in> set (Stores F)"
    "set done \<subseteq> set (Stores F)"
  shows "pass_inv A F (done @ [(n, p)]) (instrumentStore B A F n p st)"
proof -
  let ?st = "instrumentStore B A F n p st"
  have fresh: "inserted st n = []" "operand st n = None" using inv new(1) by (auto simp: pass_inv_def)
  have M: "MaskedPtrs st q = Some v \<Longrightarrow>
      v = Masked_const q \<or> (\<exists>m. v = Masked_ptr m \<and> (m, q) \<in> set done \<and> inserted st m = mask_code m q)" for q v
    using inv by (simp add: pass_inv_def)
  consider (skip) "?st = st" "knownBitsOpt A p \<or> scalarEvolutionOpt A p"
    | (reuse) v where "?st = st\<lparr>operand := (operand st)(n \<mapsto> v)\<rparr>" "MaskedPtrs st p = Some v"
        "case v of Masked_ptr m \<Rightarrow> dominates A m n | _ \<Rightarrow> True"
    | (mask) "?st = mask_store F n p st"
    using domTreeOpt_cases [of A n p st]
    by (cases "KNOWNBITS_OPT B \<and> knownBitsOpt A p \<or> SCEV_OPT B \<and> scalarEvolutionOpt A p"; cases "DOMTREE_OPT B")
      (auto simp: instrumentStore_def)
  then have "(\<exists>x y. inserted ?st = (inserted st)(n := x) \<and> operand ?st = (operand st)(n := y)) \<and> store_ok A F ?st n p \<and>
      (\<forall>q v. MaskedPtrs ?st q = Some v \<longrightarrow>
        v = Masked_const q \<or> (\<exists>m. v = Masked_ptr m \<and> (m, q) \<in> set (done @ [(n, p)]) \<and> inserted ?st m = mask_code m q))"
  proof cases
    case skip
    then show ?thesis
      using fresh M by (auto simp: store_ok_def intro!: exI [of _ "inserted st n"] exI [of _ "operand st n"])
  next
    case reuse
    have "store_ok A F ?st n p"
      using reuse fresh M [OF reuse(2)] new(1,3) by (auto simp: store_ok_def)
    then show ?thesis
      using reuse M by (auto intro!: exI [of _ "inserted st n"] exI [of _ "Some v"])
  next
    case mask
    have upd: "inserted st m = mask_code m q \<Longrightarrow> m \<noteq> n" for m q
      using fresh by (auto simp: mask_code_def)
    show ?thesis
    proof (cases "is_const F p")
      case True
      then have st: "inserted ?st = (inserted st)(n := inserted st n)" "operand ?st = (operand st)(n := Some (Masked_const p))"
          "MaskedPtrs ?st = (MaskedPtrs st)(p \<mapsto> Masked_const p)"
        unfolding mask by (simp_all add: mask_store_def)
      have "store_ok A F ?st n p" using fresh(1) by (simp add: store_ok_def st)
      moreover have "v = Masked_const q \<or> (\<exists>m. v = Masked_ptr m \<and> (m, q) \<in> set (done @ [(n, p)]) \<and> inserted ?st m = mask_code m q)"
        if "MaskedPtrs ?st q = Some v" for q v
        using that M [of q v] by (cases "q = p") (auto simp: st)
      ultimately show ?thesis using st(1,2) by blast
    next
      case False
      then have st: "inserted ?st = (inserted st)(n := mask_code n p)" "operand ?st = (operand st)(n := Some (Masked_ptr n))"
          "MaskedPtrs ?st = (MaskedPtrs st)(p \<mapsto> Masked_ptr n)"
        unfolding mask using fresh(1) by (simp_all add: mask_store_def mask_code_def)
      have "store_ok A F ?st n p" using new(2) by (simp add: store_ok_def st)
      moreover have "v = Masked_const q \<or> (\<exists>m. v = Masked_ptr m \<and> (m, q) \<in> set (done @ [(n, p)]) \<and> inserted ?st m = mask_code m q)"
        if "MaskedPtrs ?st q = Some v" for q v
        using that M [of q v] upd by (cases "q = p") (auto simp: st)
      ultimately show ?thesis using st(1,2) by blast
    qed
  qed
  moreover have "store_ok A F ?st m q" if "(m, q) \<in> set done" for m q
  proof -
    have "store_ok A F st m q" "m \<noteq> n" using inv that new(1) by (force simp: pass_inv_def)+
    then show ?thesis using calculation fresh store_ok_other [of A F st m q ?st n] by blast
  qed
  ultimately show ?thesis
    using inv by (auto simp: pass_inv_def)
qed

lemma instrumentStores_inv:
  assumes "distinct (block_order F)"
  shows "pass_inv A F (Stores F) (instrumentStores B A F)"
proof -
  have "pass_inv A F (done @ todo) (fold (\<lambda>(n, p). instrumentStore B A F n p) todo st)"
    if "pass_inv A F done st" "distinct (map fst (done @ todo))" "set (done @ todo) \<subseteq> set (Stores F)" for "done" todo st
    using that
  proof (induction todo arbitrary: "done" st)
    case (Cons s todo)
    obtain n p where s: "s = (n, p)" by (cases s)
    have "pass_inv A F (done @ [s]) (instrumentStore B A F n p st)"
      using Cons.prems unfolding s by (intro instrumentStore_inv) auto
    from Cons.IH [OF this] Cons.prems(2,3) show ?case by (simp add: s)
  qed simp
  moreover have "distinct (map fst (Stores F))"
  proof -
    have "map fst (List.map_filter (\<lambda>n. case code F n of Store p ign \<Rightarrow> if ign then None else Some (n, p) | _ \<Rightarrow> None) ns) =
        filter (\<lambda>n. case code F n of Store p ign \<Rightarrow> \<not> ign | _ \<Rightarrow> False) ns" for ns
      by (induction ns) (auto split: inst.split)
    then show ?thesis using assms by (simp add: Stores_def)
  qed
  ultimately show ?thesis
    using pass_inv_start [of A F] unfolding instrumentStores_def by (metis append_Nil subset_refl)
qed

subsection \<open>Paths\<close>

lemma path_prefix: "path F (xs @ d # ys) \<Longrightarrow> path F (xs @ [d])"
  by (auto simp: path_def successively_append_iff hd_append split: if_splits)

lemma path_splice:
  assumes "path F (as @ d # bs)" "path F (cs @ d # ds)"
  shows "path F (as @ d # ds)"
  using assms by (auto simp: path_def successively_append_iff hd_append split: if_splits)

text \<open>SSA form: a value has one definition, which every path to a store through the value has
  passed; and what the dominator tree says: every path to the second node has passed the first.\<close>

definition ssa :: "func \<Rightarrow> bool" where
  "ssa F \<longleftrightarrow> distinct (block_order F) \<and>
     (\<forall>d v f. code F d = Def v f \<longrightarrow> \<not> is_const F v \<and> (\<forall>d' f'. code F d' = Def v f' \<longrightarrow> d' = d) \<and>
        (\<forall>n ign ns. code F n = Store v ign \<and> path F (ns @ [n]) \<longrightarrow> d \<in> set ns))"

definition dominates_ok :: "analyses \<Rightarrow> func \<Rightarrow> bool" where
  "dominates_ok A F \<longleftrightarrow> (\<forall>m n ns. dominates A m n \<and> m \<noteq> n \<and> path F (ns @ [n]) \<longrightarrow> m \<in> set ns)"

text \<open>Between the last time the dominating store was passed and the dominated one, the pointer
  is not defined anew: otherwise a path that avoids the dominating store could be spliced
  together.\<close>

lemma no_redefinition:
  assumes ssa: "ssa F" and dom: "dominates_ok A F" "dominates A m n" "m \<noteq> n"
    and p: "path F (xs @ m # ys @ [n])" "m \<notin> set ys" and store: "code F m = Store v ign" and "def": "code F d = Def v f"
  shows "d \<notin> set ys"
proof
  assume "d \<in> set ys"
  then obtain us vs where ys: "ys = us @ d # vs" by (auto simp: in_set_conv_decomp)
  have dm: "d \<noteq> m" using store "def" by auto
  have to_m: "path F (zs @ [m]) \<Longrightarrow> d \<in> set zs" for zs
    using ssa "def" store unfolding ssa_def by blast
  have "path F (xs @ [m])" using p(1) by (intro path_prefix)
  then obtain as bs where xs: "xs = as @ d # bs" "d \<notin> set as"
    using to_m split_list_first [of d xs] by blast
  have "m \<notin> set as"
  proof
    assume "m \<in> set as"
    then obtain a1 a2 where "as = a1 @ m # a2" by (auto simp: in_set_conv_decomp)
    then have "path F (a1 @ [m])" using p(1) xs(1) path_prefix [of F a1 m] by simp
    with to_m \<open>as = a1 @ m # a2\<close> xs(2) show False by auto
  qed
  have "path F (as @ d # (bs @ m # ys @ [n]))" using p(1) xs(1) by simp
  moreover have "path F ((xs @ m # us) @ d # (vs @ [n]))" using p(1) ys by simp
  ultimately have "path F (as @ d # (vs @ [n]))" by (rule path_splice)
  then have "m \<in> set (as @ d # vs)"
    using dom unfolding dominates_ok_def by (metis append.assoc append_Cons)
  with \<open>m \<notin> set as\<close> dm p(2) ys show False by auto
qed

subsection \<open>What is at the address of a store\<close>

lemma enter_V [simp]: "inserted st n = [] \<or> inserted st n = mask_code n p \<Longrightarrow> enter st n e (V v) = e (V v)"
  by (auto simp: enter_def mask_code_def)

lemma enter_other:
  "inserted st n = [] \<or> inserted st n = mask_code n p \<Longrightarrow> n \<noteq> m \<Longrightarrow> enter st n e (Masked_ptr m) = e (Masked_ptr m)"
  by (auto simp: enter_def mask_code_def)

lemma enter_mask: "inserted st n = mask_code n p \<Longrightarrow> enter st n e (Masked_ptr n) = e (V p) AND MASK"
  by (simp add: enter_def mask_code_def)

definition tidy :: "pass_state \<Rightarrow> bool" where
  "tidy st \<longleftrightarrow> (\<forall>n. inserted st n = [] \<or> (\<exists>p. inserted st n = mask_code n p))"

lemma exec_path_append [simp]: "exec_path F st (xs @ ys) e = exec_path F st ys (exec_path F st xs e)"
  by (simp add: exec_path_def)

lemma exec_path_Cons [simp]: "exec_path F st (n # ns) e = exec_path F st ns (exec_node F st n e)"
  by (simp add: exec_path_def)

lemma exec_path_Nil [simp]: "exec_path F st [] e = e"
  by (simp add: exec_path_def)

lemma exec_path_keeps:
  assumes "tidy st" "\<forall>n \<in> set ns. \<forall>f. code F n \<noteq> Def v f" "m \<notin> set ns"
  shows "exec_path F st ns e (V v) = e (V v) \<and> exec_path F st ns e (Masked_ptr m) = e (Masked_ptr m)"
  using assms(2,3)
proof (induction ns arbitrary: e)
  case (Cons n ns)
  obtain p where p: "inserted st n = [] \<or> inserted st n = mask_code n p" using assms(1) by (auto simp: tidy_def)
  have "exec_node F st n e (V v) = e (V v)" "exec_node F st n e (Masked_ptr m) = e (Masked_ptr m)"
    using Cons.prems enter_other [OF p, of m e] by (auto simp: exec_node_def Let_def enter_V [OF p] split: inst.split)
  then show ?case using Cons by simp
qed simp

lemma pass_tidy: "pass_inv A F (Stores F) st \<Longrightarrow> tidy st"
  unfolding tidy_def
proof
  fix n
  assume inv: "pass_inv A F (Stores F) st"
  show "inserted st n = [] \<or> (\<exists>p. inserted st n = mask_code n p)"
  proof (cases "n \<in> fst ` set (Stores F)")
    case True
    then obtain p where "store_ok A F st n p" using inv by (force simp: pass_inv_def)
    then show ?thesis by (auto simp: store_ok_def split: option.splits val.splits if_splits)
  qed (use inv in \<open>auto simp: pass_inv_def\<close>)
qed

lemma in_Stores: "(n, p) \<in> set (Stores F) \<Longrightarrow> code F n = Store p False"
  by (auto simp: Stores_def List.map_filter_def split: inst.splits if_splits)

text \<open>A masked pointer taken over from a dominating store is still the mask of the pointer.\<close>

lemma reused_mask:
  assumes "ssa F" "dominates_ok A F" "tidy st" "dominates A m n" "m \<noteq> n" "path F (ns @ [n])"
    and "code F m = Store p ign" and ins: "inserted st m = mask_code m p"
  shows "exec_path F st ns e0 (Masked_ptr m) = exec_path F st ns e0 (V p) AND MASK"
proof -
  have "m \<in> set ns" using assms(2,4,5,6) unfolding dominates_ok_def by blast
  then obtain xs ys where ns: "ns = xs @ m # ys" "m \<notin> set ys" using split_list_last by metis
  have fresh: "\<forall>d \<in> set ys. \<forall>f. code F d \<noteq> Def p f"
    using no_redefinition [OF assms(1,2,4,5) _ ns(2) assms(7), of xs] assms(6) ns(1) by auto
  let ?e = "exec_path F st xs e0"
  have "exec_node F st m ?e (V p) = ?e (V p)" "exec_node F st m ?e (Masked_ptr m) = ?e (V p) AND MASK"
    using assms(7) ins enter_mask [OF ins] enter_V [of st m p] by (simp_all add: exec_node_def Let_def)
  then show ?thesis
    using exec_path_keeps [OF assms(3) fresh ns(2), of "exec_node F st m ?e"] by (simp add: ns(1))
qed

text \<open>What the other two analyses promise about the values a store is reached with.\<close>

definition ranges_ok :: "analyses \<Rightarrow> func \<Rightarrow> pass_state \<Rightarrow> env \<Rightarrow> bool" where
  "ranges_ok A F st e0 \<longleftrightarrow> (\<forall>n p ign ns. code F n = Store p ign \<and> path F (ns @ [n]) \<longrightarrow>
     exec_path F st ns e0 (V p) AND known_zero A p = 0 \<and> exec_path F st ns e0 (V p) \<le> unsigned_max A p)"

lemma bits_below: "x AND NOT MASK = 0 \<longleftrightarrow> x AND MASK = x" for x :: u64
proof -
  have "x = (x AND MASK) OR (x AND NOT MASK)" by (rule bit_word_eqI) (auto simp: bit_simps)
  moreover have "(x AND MASK) AND NOT MASK = 0" by (rule bit_word_eqI) (auto simp: bit_simps)
  ultimately show ?thesis by (metis or.right_neutral)
qed

lemma MASK_mask: "MASK = mask 47"
  by (simp add: MASK_def mask_eq_exp_minus_1)

lemma masked_iff: "x AND MASK = x \<longleftrightarrow> unat x < 2 ^ 47" for x :: u64
proof -
  have "x AND MASK = take_bit 47 x" by (simp add: MASK_mask take_bit_eq_mask)
  moreover have "take_bit 47 x = x \<longleftrightarrow> unat x < 2 ^ 47"
    by (simp add: word_unat_eq_iff unsigned_take_bit_eq take_bit_nat_eq_self_iff)
  ultimately show ?thesis by simp
qed

lemma knownBits_masked:
  assumes "knownBitsOpt A p" "x AND known_zero A p = 0"
  shows "x AND MASK = x"
proof -
  have "x AND NOT MASK = (x AND known_zero A p) AND NOT MASK"
    using assms(1) by (simp add: knownBitsOpt_def Let_def and.assoc)
  then show ?thesis using assms(2) by (simp add: bits_below)
qed

lemma scev_masked:
  assumes "scalarEvolutionOpt A p" "x \<le> unsigned_max A p"
  shows "x AND MASK = x"
proof -
  have "unat (unsigned_max A p) < 2 ^ 47"
    using assms(1) by (simp add: scalarEvolutionOpt_def bits_below masked_iff)
  with assms(2) show ?thesis by (simp add: masked_iff word_le_nat_alt)
qed

lemma store_goes_masked:
  assumes "ssa F" and "dominates_ok A F" and "ranges_ok A F (run True B A F) e0" and "\<not> isDeclaration F"
    and "(n, p) \<in> set (Stores F)" and "path F (ns @ [n])"
  shows "store_addr F (run True B A F) n (exec_path F (run True B A F) ns e0) =
      exec_path F (run True B A F) ns e0 (V p) AND MASK \<and>
    unat (store_addr F (run True B A F) n (exec_path F (run True B A F) ns e0)) < 2 ^ 47"
proof -
  let ?st = "run True B A F"
  let ?e = "exec_path F ?st ns e0"
  have inv: "pass_inv A F (Stores F) ?st"
    using instrumentStores_inv [of F A B] assms(1,4) by (simp add: run_def ssa_def)
  note tidy = pass_tidy [OF inv]
  have ok: "store_ok A F ?st n p" using inv assms(5) by (auto simp: pass_inv_def)
  have store: "code F n = Store p False" using in_Stores [OF assms(5)] .
  have rng: "?e (V p) AND known_zero A p = 0" "?e (V p) \<le> unsigned_max A p"
    using assms(3,6) store unfolding ranges_ok_def by blast+
  have "store_addr F ?st n ?e = ?e (V p) AND MASK"
  proof (cases "operand ?st n")
    case None
    then have "?e (V p) AND MASK = ?e (V p)"
      using ok knownBits_masked [OF _ rng(1)] scev_masked [OF _ rng(2)] by (auto simp: store_ok_def)
    then show ?thesis using None store by (simp add: store_addr_def)
  next
    case (Some v)
    show ?thesis
    proof (cases v)
      case (Masked_const q)
      then show ?thesis using ok Some enter_V [of ?st n p] by (simp add: store_ok_def store_addr_def)
    next
      case (Masked_ptr m)
      have m: "(m, p) \<in> set (Stores F)" "inserted ?st m = mask_code m p"
        using ok Some Masked_ptr by (simp_all add: store_ok_def)
      show ?thesis
      proof (cases "m = n")
        case True
        then show ?thesis using m(2) Some Masked_ptr enter_mask [of ?st n p ?e] by (simp add: store_addr_def)
      next
        case False
        then have d: "dominates A m n" "inserted ?st n = []"
          using ok Some Masked_ptr by (simp_all add: store_ok_def)
        have "?e (Masked_ptr m) = ?e (V p) AND MASK"
          by (rule reused_mask [OF assms(1,2) tidy d(1) False assms(6) in_Stores [OF m(1)] m(2)])
        then show ?thesis using Some Masked_ptr d(2) by (simp add: store_addr_def enter_def)
      qed
    qed (use ok Some in \<open>simp_all add: store_ok_def\<close>)
  qed
  moreover have "unat (x AND MASK) < 2 ^ 47" for x :: u64
    using masked_iff [of "x AND MASK"] by (simp add: and.assoc)
  ultimately show ?thesis by simp
qed

text \<open>C7: for every build option, every store of the function that is not marked to be ignored and
  every path through the function that reaches it, the pass makes the store go to the address it
  would have gone to with the bits above the lower 47 cleared, so never to the kernel half, whatever
  the program computes; skipping the mask or taking over an earlier one makes no difference.\<close>

theorem stores_masked:
  assumes "ssa F" and "dominates_ok A F" and "ranges_ok A F (run True B A F) e0" and "\<not> isDeclaration F"
    and "(n, p) \<in> set (Stores F)" and "path F (ns @ [n])"
  shows "store_addr F (run True B A F) n (exec_path F (run True B A F) ns e0) =
      exec_path F (run True B A F) ns e0 (V p) AND MASK \<and>
    unat (store_addr F (run True B A F) n (exec_path F (run True B A F) ns e0)) < 2 ^ 47"
  by (rule store_goes_masked [OF assms])

text \<open>A function that computes an address and stores there twice.\<close>

definition demo_func :: "u64 \<Rightarrow> func" where
  "demo_func c = \<lparr>isDeclaration = False, entry = 0,
     code = (\<lambda>n. if n = 0 then Def 0 (\<lambda>_. c) else Store 0 False),
     succs = (\<lambda>n. [Suc n]), block_order = [0, 1, 2], is_const = (\<lambda>_. False)\<rparr>"

definition demo_analyses :: analyses where
  "demo_analyses = \<lparr>known_zero = (\<lambda>_. 0), unsigned_max = (\<lambda>_. - 1), dominates = (\<lambda>m n. m < n)\<rparr>"

definition all_opts :: build_opts where
  "all_opts = \<lparr>KNOWNBITS_OPT = True, SCEV_OPT = True, DOMTREE_OPT = True\<rparr>"

lemma demo_path: "path (demo_func c) ns \<Longrightarrow> ns = [0..<length ns]"
proof (induction ns rule: rev_induct)
  case (snoc n ns)
  show ?case
  proof (cases "ns = []")
    case True
    then show ?thesis using snoc.prems by (simp add: path_def demo_func_def)
  next
    case False
    then have p: "path (demo_func c) ns" and n: "n = Suc (last ns)"
      using snoc.prems by (auto simp: path_def successively_append_iff demo_func_def)
    have ns: "ns = [0..<length ns]" by (rule snoc.IH [OF p])
    have "last ns = length ns - 1" using False by (subst ns) simp
    then have "n = length ns" using n False by (cases ns) auto
    then show ?thesis using ns by simp
  qed
qed (simp add: path_def)

lemma demo_before: "path (demo_func c) (ns @ [n]) \<Longrightarrow> m < n \<Longrightarrow> m \<in> set ns"
proof -
  assume "path (demo_func c) (ns @ [n])" "m < n"
  then have "ns @ [n] = [0..<Suc (length ns)]" using demo_path by fastforce
  then have "ns = [0..<length ns]" "n = length ns" by simp_all
  with \<open>m < n\<close> show ?thesis by (metis atLeastLessThan_iff le0 set_upt)
qed

lemma demo_func_facts:
  "ssa (demo_func c)" "dominates_ok demo_analyses (demo_func c)"
  "ranges_ok demo_analyses (demo_func c) (run True all_opts demo_analyses (demo_func c)) (\<lambda>_. 0)"
  "\<not> isDeclaration (demo_func c)" "(2, 0) \<in> set (Stores (demo_func c))" "path (demo_func c) ([0, 1] @ [2])"
proof -
  show "ssa (demo_func c)" using demo_before [of c] by (auto simp: ssa_def demo_func_def split: if_splits)
  show "dominates_ok demo_analyses (demo_func c)"
    using demo_before [of c] by (auto simp: dominates_ok_def demo_analyses_def)
  show "ranges_ok demo_analyses (demo_func c) (run True all_opts demo_analyses (demo_func c)) (\<lambda>_. 0)"
    by (simp add: ranges_ok_def demo_analyses_def)
qed (simp_all add: Stores_def demo_func_def path_def)

lemma demo_func_value:
  "exec_path (demo_func c) (run True all_opts demo_analyses (demo_func c)) [0, 1] e (V 0) = c"
proof -
  let ?st = "run True all_opts demo_analyses (demo_func c)"
  have "pass_inv demo_analyses (demo_func c) (Stores (demo_func c)) ?st"
    using instrumentStores_inv [of "demo_func c" demo_analyses all_opts] demo_func_facts(1,4) by (simp add: run_def ssa_def)
  from pass_tidy [OF this] obtain p where "inserted ?st 1 = [] \<or> inserted ?st 1 = mask_code 1 p"
    unfolding tidy_def by blast
  then have "enter ?st 1 e' (V 0) = e' (V 0)" for e' by (rule enter_V)
  then show ?thesis by (simp add: exec_path_def exec_node_def Let_def demo_func_def)
qed

theorem stores_masked_witness:
  "unat (store_addr (demo_func 0xffffeb0000000000) (run True all_opts demo_analyses (demo_func 0xffffeb0000000000)) 2
     (exec_path (demo_func 0xffffeb0000000000) (run True all_opts demo_analyses (demo_func 0xffffeb0000000000))
       [0, 1] (\<lambda>_. 0))) < 2 ^ 47"
  using stores_masked [OF demo_func_facts [of "0xffffeb0000000000"]] by blast

end
