(* ===== verification/Spec2Isabelle.thy ===== *)
theory Spec2Isabelle
  imports Fork_Handshake Table_Lifetime Alloc_Race Free_List_Threads Stack_Relocation X86_Pass Store_Mask
begin

text \<open>
  A verification of the shadow stack for LLVM. The program keeps the return addresses of a
  process a second time, out of reach of its own stores, and checks or restores them when a
  function returns. Its parts are

  \<^item> two compiler passes: \<^verbatim>\<open>shadow_stack_x86/X86ShadowStack.cpp\<close> emits the code that
    saves a return address at the entry of a function and checks it at every return, and
    \<^verbatim>\<open>shadow_stack/ShadowStack.cpp\<close> masks the address of every store;
  \<^item> a kernel module, \<^verbatim>\<open>lkm/\<close>, that maps shadow stacks into the kernel half of the
    address space of a process and serves them through the ioctls of a character device;
  \<^item> a runtime that calls the module, \<^verbatim>\<open>alt_runtime/\<close>, and one that keeps the shadow
    stacks in a pool in user space, \<^verbatim>\<open>runtime/\<close>.

  A thread's shadow stack begins with a header whose second word points to the next free entry.
  The runtime puts the address of the header into the \<open>GS\<close> base, where the emitted code finds
  it. The module gets the stack's pages from the kernel or from its own free list of stacks,
  enters them into the page tables at the slot of the thread, and records them in the allocator
  of the thread group.

  \<^bold>\<open>Theories.\<close> In the order of the code:

  \<^item> \<open>SS_Prelude\<close>: undefined behaviour as \<open>None\<close>, errors as negative numbers, arrays
    with bounds, bytes of words, and systems that serve requests: reachable states and the
    locales \<open>kept_system\<close> and \<open>safe_system\<close>, whose lemmas carry an invariant along
    every sequence of requests.
  \<^item> \<open>Kernel_Pages\<close>: the kernel's page allocator and \<open>kmalloc\<close> as parameters with their
    documented contract \<open>ksrc_ok\<close>.
  \<^item> \<open>Page_Lists\<close>: \<open>struct sa_pagelist\<close> and the global free list of
    \<^verbatim>\<open>lkm/core/api.c\<close>. The locale \<open>stack_bank\<close> is what the rest of the module relies
    on: stacks handed out are fresh and zeroed, a release takes them away, nothing else changes.
    \<open>Free_List_Threads\<close> cuts \<open>gl_alloc_stack\<close> and \<open>gl_free\<close> into the steps other
    threads can get between.
  \<^item> \<open>Page_Tables\<close>, \<open>Stack_Window\<close>: the five-level walk of \<open>map_range\<close>, and the slots
    of \<^verbatim>\<open>lkm/include/api.h\<close>.
  \<^item> \<open>Table_Free\<close>: \<open>sa_tlb_add\<close> and the walk that frees tables when an allocator dies.
  \<^item> \<open>Shadow_Api\<close>: \<open>alloc_create\<close>, \<open>alloc_get\<close>, \<open>alloc_put\<close>, \<open>sa_alloc\<close>,
    \<open>sa_free\<close>, \<open>sa_fork\<close>. \<open>Api_Invariant\<close> has the invariant of the module and its
    preservation by every operation, \<open>Api_Properties\<close> what the operations do.
    \<open>Alloc_Race\<close> splits \<open>sa_alloc\<close> where its reservation becomes visible.
  \<^item> \<open>Stack_Pivot\<close>: \<open>sa_pivot\<close>. \<open>Ioctl\<close>: the commands and their dispatch
    (\<^verbatim>\<open>lkm/core/chrdev_ioctl.c\<close>).
  \<^item> \<open>Module_Lifecycle\<close>: \<^verbatim>\<open>lkm/core/pt_bindings.c\<close>, \<^verbatim>\<open>lkm/core/chrdev.c\<close>,
    \<^verbatim>\<open>lkm/core/debug.c\<close>, \<^verbatim>\<open>lkm/main.c\<close> and the file operations.
    \<open>Table_Teardown\<close>: the rest of \<^verbatim>\<open>lkm/core/chrdev_fops.c\<close> and of
    \<^verbatim>\<open>lkm/core/pt_bindings.h\<close>. \<open>Table_Lifetime\<close>: mapping, unmapping and teardown of
    the same tables in any order.
  \<^item> \<open>Byte_Memory\<close>: words in a memory of bytes, for the assembly and the emitted code.
    \<open>Stack_Relocation\<close>: \<^verbatim>\<open>runtime/stckcpy.S\<close>, alone and with the module behind the device.
  \<^item> \<open>Runtime_Pool\<close>, \<open>Runtime_Mapping\<close>, \<open>Runtime_Start\<close>: \<^verbatim>\<open>runtime/allocator.c\<close>,
    \<^verbatim>\<open>runtime/mapping.c\<close>, \<^verbatim>\<open>runtime/main.c\<close>.
  \<^item> \<open>Alt_Runtime\<close>, \<open>Fork_Handshake\<close>: \<^verbatim>\<open>alt_runtime/\<close>, without and with \<open>fork\<close>.
  \<^item> \<open>X86_Pass\<close>, \<open>Store_Mask\<close>: the two passes, with a semantics for the code they emit.
  \<^item> This theory: the statements that need several parts at once.

  \<^bold>\<open>State.\<close> The module's state is the record \<open>kernel\<close>, an extension of the free list
  \<open>gl_state\<close>, itself an extension of the page state: pages in use and their contents, the
  free list, the address spaces with their page tables, the heap of allocators and the registry.
  The user-space pool is the record \<open>pool\<close>, extended by what a process and what interleaved
  threads have. Every handler is one function on the state; calls that interleave are steps
  (\<open>pool_step\<close>, \<open>fork_step\<close>, \<open>gl_step\<close>). Requests to the module are served one after
  the other, except on the free list and in the race of \<open>sa_alloc\<close> with \<open>sa_free\<close>.

  \<^bold>\<open>What is shown.\<close>

  \<^item> The module: for every sequence of requests, ioctls and answers of the kernel no call has
    undefined behaviour, the invariant holds, and no two threads' slots ever translate to one
    page; what each operation does on success and on each failure; allocation and release cancel
    each other. The exceptions are theorems as well: a freed slot still translates, destroying
    an allocator is undefined, a pivot above every area dereferences \<open>NULL\<close>, and as it stands
    the module never serves a stack, since opening the device creates no allocator.
  \<^item> Threads in the module: the free list hands no page out twice and keeps its pages zeroed under
    every interleaving, but its capacity is not a bound, since \<open>gl_free\<close> reads \<open>gl_size\<close>
    without the lock; a release that hits an allocation under way makes two threads share a slot.
  \<^item> The tables: they stay well-formed through every sequence of mappings and, where the teardown is
    defined (before kernel 6.18.7 or with five levels), teardowns, and the window translates only
    to pages mapped since the last teardown.
  \<^item> The start of a process: the new stack is an image of the initial one with its pointers
    moved, and the kernel's record agrees with it but for \<open>AT_BASE\<close>.
  \<^item> The passes: whatever a program does to registers and to memory outside the shadow stack, as long
    as it leaves the \<open>GS\<close> base alone, no return of an instrumented function is diverted: it goes to
    the caller, or the program stops at the trap, or it has overrun one of its stacks, which the
    emitted code does not check and which cannot happen with enough room and an intact stack
    pointer; every return is guarded; every processed store goes to its masked address under every
    combination of the optimisations.
  \<^item> Together: masked stores miss every slot of the module; a program compiled by both passes, which
    writes outside its stack by processed stores only, on a shadow stack of the module never has a
    return diverted, with the same limits; the constructor of the runtime puts such a stack in
    place; the pool in user space lies where masked stores reach.
  \<^item> The runtimes: the pool refines a stack of chunk numbers and is safe under every
    interleaving; the address range is unmapped, found if it exists, and the rest of the window
    is reserved; the limit on the number of threads; \<open>pthread_create\<close> passes routine and
    argument on; \<open>fork\<close> ends within nine system calls and cannot deadlock, and, unless its read
    is interrupted, the child is killed or cannot open the device, returns after its request.

  \<^bold>\<open>Loops.\<close> No loop is cut off by fuel. Nearly all are total functions: structural recursion, or
  a \<open>function\<close> with a measure (pages left, distance to the end of the range, length of the
  text). The loops over the vectors of the initial stack run until a null word; they are partial
  functions, and the theorems show that they return. The retry loop of \<open>atomic64_max\<close> runs over a
  list of the values other processors store in between, so it ends when the interference ends.

  \<^bold>\<open>Parameters.\<close> What is not in the repository is an argument with its documented contract:
  the kernel's allocators, \<open>find_vma\<close>, device registration, symbol lookup, \<open>mmap\<close>,
  \<open>malloc\<close>, the C library's \<open>pthread_create\<close>, LLVM's analyses and its register
  scavenger.

  \<^bold>\<open>Not modelled.\<close> \<open>clear_pte\<close> and the two \<open>map_lock\<close> helpers of
  \<^verbatim>\<open>lkm/core/pt_bindings.h\<close>, which nothing calls; messages, statistics and the registration of
  the passes; the test programs and build files. Of the interleavings inside the module only those
  named above are modelled: elsewhere a request runs to its end, holding the locks the code takes,
  and taking a lock twice is undefined.

  \<^bold>\<open>Limits of the model.\<close> The page tables of a process are private to it, although with five levels
  the table under the last pgd entry is shared; a well-formed pgd has no huge page anywhere;
  unmapping an area changes the list of areas only; the unlocked read of the pool's free list is
  atomic; the flags other than zero and conditional tail jumps are missing; writes other than LLVM
  store instructions are not masked by the pass, and are assumed to stay in the program's stack.
  \<^verbatim>\<open>alt_runtime/\<close> does not compile as it stands; \<open>Alt_Runtime\<close> says how it is read.
\<close>

unbundle bit_operations_syntax

section \<open>The parts together\<close>

text \<open>The store pass and the module: an address below bit 47 lies below every slot of the
  window.\<close>

lemma slot_above_mask:
  fixes a :: u64
  assumes "unat n \<le> unat THREADS_LIMIT" "unat a < 2 ^ 47" "i < 2 ^ 47"
  shows "unat (a + of_nat i) < unat (id_to_addr n)"
proof -
  have "unat (a + of_nat i) = unat a + i" using assms(2,3) by (intro unat_plus_small) simp
  moreover have "2 ^ 48 \<le> unat (id_to_addr n)" using assms(1) by (simp add: unat_id_to_addr window_consts)
  ultimately show ?thesis using assms(2,3) by simp
qed

text \<open>C9: no LLVM store instruction of a function the store pass has processed, unless it is marked
  \<open>m-ignore\<close>, writes a byte of a shadow stack of the module, whatever address the program
  computes: the bytes of the store lie below every slot of the window, for every path that reaches
  it.\<close>

theorem stores_miss_stacks:
  assumes "ssa F" and "dominates_ok A F" and "ranges_ok A F (run True B A F) e0" and "\<not> isDeclaration F"
    and "(n, p) \<in> set (Stores F)" and "path F (ns @ [n])" and "unat k \<le> unat THREADS_LIMIT" and "i < 2 ^ 47"
  shows "store_addr F (run True B A F) n (exec_path F (run True B A F) ns e0) + of_nat i < id_to_addr k"
  using slot_above_mask [OF assms(7) conjunct2 [OF store_goes_masked [OF assms(1-6)]] assms(8)]
  by (simp only: word_less_nat_alt)

theorem stores_miss_stacks_witness:
  "store_addr (demo_func 0xffffeb0000000000) (run True all_opts demo_analyses (demo_func 0xffffeb0000000000)) 2
     (exec_path (demo_func 0xffffeb0000000000) (run True all_opts demo_analyses (demo_func 0xffffeb0000000000))
       [0, 1] (\<lambda>_. 0)) + of_nat 7 < id_to_addr 0"
  by (rule stores_miss_stacks [OF demo_func_facts]) (simp_all add: window_consts)

text \<open>Running the stores of a processed function: along a path, every store node writes its bytes
  to the address the pass has left it with. What a load answers is part of the definitions on the
  path.\<close>

definition put_bytes :: "(u64 \<Rightarrow> byte) \<Rightarrow> u64 \<Rightarrow> byte list \<Rightarrow> u64 \<Rightarrow> byte" where
  "put_bytes m a ds = (\<lambda>x. if unat (x - a) < length ds then ds ! unat (x - a) else m x)"

fun exec_stores :: "func \<Rightarrow> pass_state \<Rightarrow> (node \<times> byte list) list \<Rightarrow> env \<Rightarrow> (u64 \<Rightarrow> byte) \<Rightarrow> u64 \<Rightarrow> byte" where
  "exec_stores F st [] e m = m"
| "exec_stores F st ((n, ds) # ns) e m =
     exec_stores F st ns (exec_node F st n e)
       (case code F n of Store p ign \<Rightarrow> put_bytes m (store_addr F st n e) ds | _ \<Rightarrow> m)"

text \<open>The stretch \<open>ns\<close> of a path through a function the store pass has run on, after the nodes
  \<open>ps\<close>, with the bytes its stores write. No store of the stretch is marked \<open>m-ignore\<close>, and
  none is longer than half of the address space.\<close>

definition processed ::
  "func \<Rightarrow> analyses \<Rightarrow> build_opts \<Rightarrow> env \<Rightarrow> node list \<Rightarrow> (node \<times> byte list) list \<Rightarrow> bool" where
  "processed F A B e0 ps ns \<longleftrightarrow> ssa F \<and> dominates_ok A F \<and> ranges_ok A F (run True B A F) e0 \<and>
     \<not> isDeclaration F \<and> path F (ps @ map fst ns) \<and>
     (\<forall>(n, ds) \<in> set ns. length ds < 2 ^ 47 \<and> (\<forall>p ign. code F n = Store p ign \<longrightarrow> (n, p) \<in> set (Stores F)))"

text \<open>A piece of the program from the store pass: outside the stack, where the compiler's own
  spills go, memory changes by the stores of such a stretch only. Registers change freely; the
  \<open>GS\<close> base does not.\<close>

definition from_store_pass :: "layout \<Rightarrow> (mstate \<Rightarrow> mstate) \<Rightarrow> bool" where
  "from_store_pass L f \<longleftrightarrow> (\<forall>s. gs (f s) = gs s \<and>
     (\<exists>F A B e0 ps ns. processed F A B e0 ps ns \<and>
        (\<forall>x. \<not> (stack_lo L \<le> unat x \<and> unat x < stack_hi L) \<longrightarrow>
           mem (f s) x = exec_stores F (run True B A F) ns (exec_path F (run True B A F) ps e0) (mem s) x)))"

fun compiled_act :: "layout \<Rightarrow> act \<Rightarrow> bool" where
  "compiled_act L (Do f) \<longleftrightarrow> from_store_pass L f"
| "compiled_act L (Call ra frame sc body) \<longleftrightarrow> sc \<noteq> Some RSP \<and> list_all (compiled_act L) body"

definition module_layout :: "u32 \<Rightarrow> nat \<Rightarrow> nat \<Rightarrow> layout" where
  "module_layout k lo hi = \<lparr>chunk = id_to_addr k, chunk_len = unat SS_SIZE, stack_lo = lo, stack_hi = hi\<rparr>"

lemma put_bytes_below:
  assumes "unat a < 2 ^ 47" "length ds < 2 ^ 47" "unat k \<le> unat THREADS_LIMIT" "unat (id_to_addr k) \<le> unat x"
  shows "put_bytes m a ds x = m x"
proof (cases "unat (x - a) < length ds")
  case True
  then have "unat (a + of_nat (unat (x - a))) < unat (id_to_addr k)"
    using assms(1-3) by (intro slot_above_mask) auto
  then show ?thesis using assms(4) by simp
qed (simp add: put_bytes_def)

text \<open>The stores of a processed function leave every slot of the window alone.\<close>

lemma exec_stores_miss:
  assumes "processed F A B e0 ps ns" "unat k \<le> unat THREADS_LIMIT" "unat (id_to_addr k) \<le> unat x"
  shows "exec_stores F (run True B A F) ns (exec_path F (run True B A F) ps e0) m x = m x"
  using assms(1)
proof (induction ns arbitrary: ps m)
  case (Cons nd ns)
  obtain n ds where nd: "nd = (n, ds)" by (cases nd)
  let ?st = "run True B A F" and ?e = "exec_path F (run True B A F) ps e0"
  have rest: "processed F A B e0 (ps @ [n]) ns" using Cons.prems by (auto simp: processed_def nd)
  have here: "path F (ps @ [n])" using Cons.prems path_prefix [of F ps n] by (auto simp: processed_def nd)
  have "put_bytes m (store_addr F ?st n ?e) ds x = m x" if "code F n = Store p ign" for p ign m
  proof (rule put_bytes_below [OF _ _ assms(2,3)])
    show "unat (store_addr F ?st n ?e) < 2 ^ 47"
      using store_goes_masked [of F A B e0 n p ps] Cons.prems here that by (auto simp: processed_def nd)
    show "length ds < 2 ^ 47" using Cons.prems by (simp add: processed_def nd)
  qed
  then show ?case
    using Cons.IH [OF rest] by (simp add: nd split: inst.split)
qed simp

lemma from_store_pass_tame:
  assumes "from_store_pass (module_layout k lo hi) f" "layout_ok (module_layout k lo hi)" "unat k \<le> unat THREADS_LIMIT"
  shows "tame (module_layout k lo hi) f"
proof -
  let ?L = "module_layout k lo hi"
  have "mem (f s) x = mem s x" if x: "unat (chunk ?L) \<le> unat x" "unat x < unat (chunk ?L) + chunk_len ?L" for s x
  proof -
    have "\<not> (stack_lo ?L \<le> unat x \<and> unat x < stack_hi ?L)" using assms(2) x by (auto simp: layout_ok_def)
    moreover obtain F A B e0 ps ns where "processed F A B e0 ps ns"
        "\<forall>x. \<not> (stack_lo ?L \<le> unat x \<and> unat x < stack_hi ?L) \<longrightarrow>
           mem (f s) x = exec_stores F (run True B A F) ns (exec_path F (run True B A F) ps e0) (mem s) x"
      using assms(1) unfolding from_store_pass_def by blast
    ultimately show ?thesis
      using exec_stores_miss [OF _ assms(3)] x(1) by (simp add: module_layout_def)
  qed
  then show ?thesis using assms(1) by (simp add: tame_def from_store_pass_def)
qed

lemma compiled_act_tame:
  assumes "layout_ok (module_layout k lo hi)" "unat k \<le> unat THREADS_LIMIT"
  shows "compiled_act (module_layout k lo hi) a \<Longrightarrow> tame_act (module_layout k lo hi) a"
  by (induction a) (auto simp: list_all_iff intro: from_store_pass_tame assms)

text \<open>C4: the store pass, the return pass and the module together. Outside its stack the program
  writes by LLVM store instructions only, which the store pass has processed and none of which is
  marked \<open>m-ignore\<close>; its shadow stack is a slot of the module, with the header in place; and it
  does not change the \<open>GS\<close> base. Then, whatever addresses it computes and whatever it does to
  the registers, no return of an instrumented function is diverted: a call tree ends with every
  function returned to the address its caller pushed and the shadow stack as before; or, with the
  strategy \<open>Trap\<close>, stopped at the trap; or with a call or return without room on one of the two
  stacks, which is excluded when the pieces keep the stack pointer and the stacks have the room the
  tree needs.\<close>

theorem module_stack_protects:
  assumes "compiled_act (module_layout k lo hi) a" and "unat k \<le> unat THREADS_LIMIT"
    and "based (module_layout k lo hi) s"
  shows "(case run_act (module_layout k lo hi) st a s of
       Ok s' \<Rightarrow> kept s s'
     | Hijacked pc \<Rightarrow> False
     | Stopped \<Rightarrow> st = Trap
     | Overrun \<Rightarrow> \<not> (steady_act a \<and> ready (module_layout k lo hi) (stack_need a) (shadow_need a) s))"
proof -
  have "tame_act (module_layout k lo hi) a"
    using assms by (intro compiled_act_tame) (auto simp: based_def)
  from run_act_safe [OF this assms(3), of st] run_act_within [OF this, of s st] show ?thesis
    by (cases "run_act (module_layout k lo hi) st a s") auto
qed

text \<open>The attack of an arbitrary write by a processed function: on the return address and on the
  shadow stack.\<close>

definition demo_piece :: "u64 \<Rightarrow> mstate \<Rightarrow> mstate" where
  "demo_piece c s = s\<lparr>mem := exec_stores (demo_func c) (run True all_opts demo_analyses (demo_func c))
     [(1, replicate 8 0x41), (2, [0x41])]
     (exec_path (demo_func c) (run True all_opts demo_analyses (demo_func c)) [0] (\<lambda>_. 0)) (mem s)\<rparr>"

lemma from_store_pass_demo: "from_store_pass L (demo_piece c)"
proof -
  have "processed (demo_func c) demo_analyses all_opts (\<lambda>_. 0) [0] [(1, replicate 8 0x41), (2, [0x41])]"
    using demo_func_facts [of c] by (simp add: processed_def) (simp add: Stores_def demo_func_def)
  then show ?thesis unfolding from_store_pass_def demo_piece_def by fastforce
qed

definition module_victim :: mstate where
  "module_victim = \<lparr>regs = (\<lambda>_. 0)(RSP := 0x7ffe00010000), mem = write64 (\<lambda>_. 0) 0xffffeb0000000008 0xffffeb0000000010,
     gs = 0xffffeb0000000000, zf = False\<rparr>"

theorem module_stack_protects_witness:
  "\<exists>s'. run_act (module_layout 0 0x7ffe00000000 0x7ffe00010000) BlindWrite
      (Call 0x401000 0x20 None [Do (demo_piece 0x7ffe0000fff8), Do (demo_piece 0xffffeb0000000010)]) module_victim = Ok s' \<and>
    kept module_victim s'"
proof -
  let ?L = "module_layout 0 0x7ffe00000000 0x7ffe00010000"
  let ?a = "Call 0x401000 0x20 None [Do (demo_piece 0x7ffe0000fff8), Do (demo_piece 0xffffeb0000000010)]"
  have a: "compiled_act ?L ?a" "steady_act ?a" using from_store_pass_demo by (simp_all add: demo_piece_def)
  have b: "based ?L module_victim"
    by (simp add: based_def layout_ok_def module_layout_def module_victim_def slot_def id_to_addr_def SS_START_def SS_SIZE_def)
  moreover from b have "ready ?L (stack_need ?a) (shadow_need ?a) module_victim"
    by (simp add: ready_def module_layout_def module_victim_def slot_def id_to_addr_def SS_START_def SS_SIZE_def)
  ultimately show ?thesis
    using module_stack_protects [OF a(1) _ b, of BlindWrite] a(2)
    by (auto simp: window_consts simp del: run_act.simps split: outcome.splits)
qed






text \<open>C40: the pool of the runtime in user space is not protected by the store pass: a processed
  store whose pointer points into the pool goes exactly there, because the pool lies below bit
  47.\<close>

theorem runtime_pool_unprotected:
  assumes "maps_ok E ms" and "0 < mn" and "16 dvd unat mn" and "setup_memory E mn = Some (err, Some (lo, hi), resv)"
    and "ssa F" and "dominates_ok A F" and "ranges_ok A F (run True B A F) e0" and "\<not> isDeclaration F"
    and "(n, p) \<in> set (Stores F)" and "path F (ns @ [n])"
    and "lo \<le> exec_path F (run True B A F) ns e0 (V p)" and "exec_path F (run True B A F) ns e0 (V p) < hi"
  shows "store_addr F (run True B A F) n (exec_path F (run True B A F) ns e0) = exec_path F (run True B A F) ns e0 (V p)"
proof -
  let ?x = "exec_path F (run True B A F) ns e0 (V p)"
  have "?x < CEIL" using setup_memory_outcome [OF assms(1-3)] assms(4,11,12) by fastforce
  then have "?x AND MASK = ?x" by (simp add: masked_iff CEIL_def word_less_nat_alt)
  then show ?thesis using store_goes_masked [OF assms(5-10)] by simp
qed

theorem runtime_pool_unprotected_witness:
  "\<exists>lo hi resv. setup_memory (demo_env 0x7fff00000000 (\<lambda>_ _. True)) 0x40000000 = Some (0, Some (lo, hi), resv) \<and>
    store_addr (demo_func lo) (run True all_opts demo_analyses (demo_func lo)) 2
      (exec_path (demo_func lo) (run True all_opts demo_analyses (demo_func lo)) [0, 1] (\<lambda>_. 0)) = lo"
proof -
  let ?E = "demo_env 0x7fff00000000 (\<lambda>_ _. True)"
  have ok: "maps_ok ?E (demo_maps 0x7fff00000000)" by (rule maps_ok_demo) simp
  have "find_gap 0x40000000 (gaps_of (map area_of (demo_maps 0x7fff00000000))) \<noteq> None"
    by (simp add: gaps_of_def demo_maps_def area_of_def BASE_def CEIL_def note_area_def insert_ma_def)
  then obtain out resv where s: "setup_memory ?E 0x40000000 = Some (0, out, resv)"
    using setup_memory_ok_iff [OF ok, of "0x40000000"] by (auto simp: demo_env_def)
  with setup_memory_outcome [OF ok, of "0x40000000"] obtain lo hi where
    lh: "out = Some (lo, hi)" "unat hi = unat lo + 0x40000000"
    by (fastforce split: option.splits)
  have x: "exec_path (demo_func lo) (run True all_opts demo_analyses (demo_func lo)) [0, 1] (\<lambda>_. 0) (V 0) = lo"
    by (rule demo_func_value)
  have "lo < hi" using lh(2) by (simp add: word_less_nat_alt)
  then have "store_addr (demo_func lo) (run True all_opts demo_analyses (demo_func lo)) 2
      (exec_path (demo_func lo) (run True all_opts demo_analyses (demo_func lo)) [0, 1] (\<lambda>_. 0)) = lo"
    using runtime_pool_unprotected [OF ok _ _ s[unfolded lh(1)] demo_func_facts [of lo]] x by simp
  with s lh(1) show ?thesis by blast
qed

end
